(* ===== verification/Prelude.thy ===== *)
theory Prelude
  imports Main "HOL-Library.Word" "HOL-Library.Code_Target_Numeral"
begin

text \<open>
  Shared vocabulary of the development: the fixed-width integer types of the C sources, the
  wrap-around of 32- and 64-bit sums where the code computes with sizes and addresses, and the
  generic facts on lists, bits and words that more than one component uses.
\<close>

unbundle bit_operations_syntax

section \<open>Types\<close>

type_synonym u8 = "8 word"
type_synonym u16 = "16 word"
type_synonym u32 = "32 word"
type_synonym u64 = "64 word"
type_synonym bytes = "u8 list"

section \<open>Wrap-around\<close>

text \<open>
  Sizes, indices and addresses of the sources are \<^verbatim>\<open>uint32_t\<close>, \<^verbatim>\<open>uint64_t\<close> or \<^verbatim>\<open>size_t\<close>. Where
  a component needs order reasoning over them they are kept as \<^typ>\<open>nat\<close>, and every sum,
  difference or product the code computes goes through one of these, which write the
  wrap-around of the machine type out.
\<close>

definition w32 :: "nat \<Rightarrow> nat" where
  "w32 n = n mod 2 ^ 32"

definition w64 :: "nat \<Rightarrow> nat" where
  "w64 n = n mod 2 ^ 64"

definition sub32 :: "nat \<Rightarrow> nat \<Rightarrow> nat" where
  "sub32 a b = (a + (2 ^ 32 - b mod 2 ^ 32)) mod 2 ^ 32"

definition sub64 :: "nat \<Rightarrow> nat \<Rightarrow> nat" where
  "sub64 a b = (a + (2 ^ 64 - b mod 2 ^ 64)) mod 2 ^ 64"

named_theorems wrap \<open>removing a wrap-around that cannot happen\<close>

lemma w32_id [wrap]: "n < 2 ^ 32 \<Longrightarrow> w32 n = n"
  by (simp add: w32_def)

lemma w64_id [wrap]: "n < 2 ^ 64 \<Longrightarrow> w64 n = n"
  by (simp add: w64_def)

lemma w32_less [simp]: "w32 n < 2 ^ 32"
  by (simp add: w32_def)

lemma w64_less [simp]: "w64 n < 2 ^ 64"
  by (simp add: w64_def)

lemma sub32_id [wrap]:
  assumes "b \<le> a" and "a < 2 ^ 32"
  shows "sub32 a b = a - b"
proof -
  have "b mod 2 ^ 32 = b" and "a + (2 ^ 32 - b) = (a - b) + 2 ^ 32" using assms by simp_all
  then have "sub32 a b = (a - b) mod 2 ^ 32" by (simp only: sub32_def mod_add_self2)
  then show ?thesis using assms by simp
qed

lemma sub64_id [wrap]:
  assumes "b \<le> a" and "a < 2 ^ 64"
  shows "sub64 a b = a - b"
proof -
  have "b mod 2 ^ 64 = b" and "a + (2 ^ 64 - b) = (a - b) + 2 ^ 64" using assms by simp_all
  then have "sub64 a b = (a - b) mod 2 ^ 64" by (simp only: sub64_def mod_add_self2)
  then show ?thesis using assms by simp
qed

section \<open>Memory\<close>

text \<open>Memory as a map from addresses to bytes, and \<^verbatim>\<open>memset\<close> on it.\<close>

definition memset :: "nat \<Rightarrow> u8 \<Rightarrow> nat \<Rightarrow> (nat \<Rightarrow> u8) \<Rightarrow> nat \<Rightarrow> u8" where
  "memset p v n mem = (\<lambda>a. if p \<le> a \<and> a < p + n then v else mem a)"

section \<open>Bits of natural numbers and words\<close>

lemma nat_and_mask: "(n::nat) AND (2 ^ k - 1) = n mod 2 ^ k"
  by (metis mask_eq_exp_minus_1 take_bit_eq_mask take_bit_eq_mod)

lemma nat_and_4095 [simp]: "(n::nat) AND 4095 = n mod 4096"
  using nat_and_mask [of n 12] by simp

lemma nat_and_255 [simp]: "(n::nat) AND 255 = n mod 256"
  using nat_and_mask [of n 8] by simp

lemma nat_and_15 [simp]: "(n::nat) AND 15 = n mod 16"
  using nat_and_mask [of n 4] by simp

lemma nat_and_240 [simp]: "(n::nat) AND 240 = 16 * (n div 16 mod 16)"
proof -
  have m: "(240 :: nat) = push_bit 4 (mask 4)"
    by (simp add: mask_eq_exp_minus_1 push_bit_eq_mult)
  have "n AND push_bit 4 (mask 4) = push_bit 4 (take_bit 4 (drop_bit 4 n))"
    by (rule bit_eqI) (auto simp: bit_simps)
  then show ?thesis
    unfolding m by (simp add: push_bit_eq_mult take_bit_eq_mod drop_bit_eq_div)
qed

lemma nat_or_disjoint: "(y::nat) < 2 ^ k \<Longrightarrow> y OR 2 ^ k * x = y + 2 ^ k * x"
proof -
  assume y: "y < 2 ^ k"
  have "\<not> bit y n \<or> \<not> bit (push_bit k x) n" for n
  proof (cases "n < k")
    case True
    then show ?thesis by (simp add: bit_simps)
  next
    case False
    then have "y < 2 ^ n" using y by (meson leI less_le_trans one_le_numeral power_increasing)
    then show ?thesis by (simp add: bit_iff_odd)
  qed
  then have "y + push_bit k x = y OR push_bit k x" by (rule disjunctive_add)
  then show ?thesis by (simp add: push_bit_eq_mult mult.commute)
qed

lemma nat_drop_bit: "drop_bit k (n::nat) = n div 2 ^ k"
  by (simp add: drop_bit_eq_div)

lemma unat_u8_less [simp]: "unat (b :: u8) < 256"
  using unsigned_less [of b] by simp

lemma unat_ucast_u8_u32 [simp]: "unat (ucast (b :: u8) :: u32) = unat b"
  using unat_u8_less [of b]
  by (simp add: unsigned_ucast_eq take_bit_nat_eq_self_iff del: unat_u8_less)

lemma unat_of_nat_u8: "unat (of_nat n :: u8) = n mod 256"
  by (simp add: unat_of_nat)

section \<open>Lists\<close>

lemma take_Suc_append_nth: "i < length xs \<Longrightarrow> take (Suc i) xs = take i xs @ [xs ! i]"
  by (simp add: take_Suc_conv_app_nth)

lemma drop_Cons_nth: "i < length xs \<Longrightarrow> drop i xs = xs ! i # drop (Suc i) xs"
  by (simp add: Cons_nth_drop_Suc)

text \<open>A block of bytes written into an array and read from it.\<close>

definition put_bytes :: "bytes \<Rightarrow> nat \<Rightarrow> bytes \<Rightarrow> bytes" where
  "put_bytes xs i ys = take i xs @ ys @ drop (i + length ys) xs"

definition slice :: "bytes \<Rightarrow> nat \<Rightarrow> nat \<Rightarrow> bytes" where
  "slice xs i n = take n (drop i xs)"

lemma length_put_bytes [simp]: "i + length ys \<le> length xs \<Longrightarrow> length (put_bytes xs i ys) = length xs"
  by (simp add: put_bytes_def)

lemma length_slice [simp]: "i + n \<le> length xs \<Longrightarrow> length (slice xs i n) = n"
  by (simp add: slice_def)

lemma slice_put_bytes [simp]: "i \<le> length xs \<Longrightarrow> n = length ys \<Longrightarrow> slice (put_bytes xs i ys) i n = ys"
  by (simp add: slice_def put_bytes_def)

text \<open>Little-endian numbers in bytes.\<close>

fun le_bytes :: "nat \<Rightarrow> nat \<Rightarrow> bytes" where
  "le_bytes 0 v = []"
| "le_bytes (Suc n) v = of_nat v # le_bytes n (v div 256)"

fun le_value :: "bytes \<Rightarrow> nat" where
  "le_value [] = 0"
| "le_value (b # bs) = unat b + 256 * le_value bs"

lemma length_le_bytes [simp]: "length (le_bytes n v) = n"
  by (induction n arbitrary: v) auto

lemma le_value_bytes: "le_value (le_bytes n v) = v mod 256 ^ n"
proof (induction n arbitrary: v)
  case (Suc n)
  then show ?case by (simp add: unat_of_nat_u8 mod_mult2_eq)
qed simp

lemma le_value_less: "le_value bs < 256 ^ length bs"
proof (induction bs)
  case (Cons b bs)
  have "unat b + 256 * le_value bs < 256 + 256 * le_value bs" using unat_u8_less[of b] by simp
  also have "\<dots> = 256 * (le_value bs + 1)" by simp
  also have "\<dots> \<le> 256 * 256 ^ length bs" using Cons by (intro mult_le_mono2) simp
  finally show ?case by simp
qed simp

lemma le_bytes_value: "n = length bs \<Longrightarrow> le_bytes n (le_value bs) = bs"
proof (induction bs arbitrary: n)
  case (Cons b bs)
  have "(of_nat (unat b + 256 * le_value bs) :: u8) = b"
  proof -
    have "unat (of_nat (unat b + 256 * le_value bs) :: u8) = unat b"
      using unat_u8_less[of b] by (simp add: unat_of_nat_u8 del: of_nat_add unat_u8_less)
    then show ?thesis by (rule unsigned_word_eqI)
  qed
  moreover have "(unat b + 256 * le_value bs) div 256 = le_value bs" using unat_u8_less[of b] by simp
  ultimately show ?case using Cons by simp
qed simp

text \<open>Big-endian numbers, the order of network headers.\<close>

definition be_bytes :: "nat \<Rightarrow> nat \<Rightarrow> bytes" where
  "be_bytes n v = rev (le_bytes n v)"

definition be_value :: "bytes \<Rightarrow> nat" where
  "be_value bs = le_value (rev bs)"

lemma length_be_bytes [simp]: "length (be_bytes n v) = n"
  by (simp add: be_bytes_def)

lemma be_value_bytes: "be_value (be_bytes n v) = v mod 256 ^ n"
  by (simp add: be_value_def be_bytes_def le_value_bytes)

lemma be_value_less: "be_value bs < 256 ^ length bs"
  unfolding be_value_def using le_value_less[of "rev bs"] by simp

text \<open>Reading a field of a sequence of fields.\<close>

lemma slice_here: "n = length xs \<Longrightarrow> slice (xs @ ys) 0 n = xs"
  by (simp add: slice_def)

lemma slice_skip: "length xs \<le> i \<Longrightarrow> slice (xs @ ys) i n = slice ys (i - length xs) n"
  by (simp add: slice_def)

end
