(* ===== verification/Lzss.thy ===== *)
theory Lzss
  imports Prelude
begin

text \<open>
  The LZSS codec of \<^verbatim>\<open>src/impl/compression/lzss.c\<close>, as it stores packages on disk: the
  ring-buffer decoder \<^verbatim>\<open>lzss_decompress\<close> and the hash-chain encoder \<^verbatim>\<open>lzss_compress\<close>.
  Buffers are byte lists and positions are natural numbers below \<open>2 ^ 32\<close>; sums that the C code
  computes in \<^verbatim>\<open>uint32_t\<close> go through \<^const>\<open>w32\<close>. Memory the code takes from the heap is a
  parameter: an allocation that fails is the value \<^const>\<open>None\<close> (or a test that is false), and
  the unzeroed ring buffer has arbitrary initial contents.
\<close>

section \<open>Constants\<close>

definition LZSS_N :: nat where "LZSS_N = 4096"
definition LZSS_F :: nat where "LZSS_F = 18"
definition LZSS_THRESHOLD :: nat where "LZSS_THRESHOLD = 2"
definition LZSS_MAX_CHAIN :: nat where "LZSS_MAX_CHAIN = 128"
definition LZSS_HASH_BITS :: nat where "LZSS_HASH_BITS = 12"
definition LZSS_HASH_SIZE :: nat where "LZSS_HASH_SIZE = 4096"
definition LZSS_NONE :: nat where "LZSS_NONE = 0xFFFFFFFF"

lemmas lzss_consts = LZSS_N_def LZSS_F_def LZSS_THRESHOLD_def LZSS_MAX_CHAIN_def
  LZSS_HASH_BITS_def LZSS_HASH_SIZE_def LZSS_NONE_def

section \<open>Decoder\<close>

record lzss_dec =
  text_buf :: bytes
  dec_r :: nat
  in_pos :: nat
  dec_out :: bytes
  flags :: u32

text \<open>
  One decoded byte goes to the output and to the ring: \<^verbatim>\<open>out[out_pos++] = c; text_buf[r++] = c;
  r &= N - 1\<close>. The output index \<^verbatim>\<open>out_pos\<close> is the number of bytes written so far. \<^const>\<open>None\<close> is
  the early return when the output buffer is full.
\<close>

definition lzss_emit :: "nat \<Rightarrow> u8 \<Rightarrow> lzss_dec \<Rightarrow> lzss_dec option" where
  "lzss_emit out_capacity c s =
     (if out_capacity \<le> length (dec_out s) then None
      else Some (s\<lparr>dec_out := dec_out s @ [c],
                   text_buf := (text_buf s)[dec_r s := c],
                   dec_r := Suc (dec_r s) AND (LZSS_N - 1)\<rparr>))"

text \<open>The copy loop of a match: \<open>n\<close> further bytes, the next one being number \<open>k\<close>.\<close>

fun lzss_copy :: "nat \<Rightarrow> nat \<Rightarrow> nat \<Rightarrow> nat \<Rightarrow> lzss_dec \<Rightarrow> lzss_dec option" where
  "lzss_copy out_capacity match_pos k 0 s = Some s"
| "lzss_copy out_capacity match_pos k (Suc n) s =
     (case lzss_emit out_capacity (text_buf s ! ((match_pos + k) AND (LZSS_N - 1))) s of
        None \<Rightarrow> None
      | Some s' \<Rightarrow> lzss_copy out_capacity match_pos (Suc k) n s')"

datatype dec_step = Dec_Full | Dec_Break | Dec_Next lzss_dec

text \<open>The flag handling at the head of an iteration: shift, and reload after eight symbols.\<close>

definition lzss_flags :: "bytes \<Rightarrow> lzss_dec \<Rightarrow> lzss_dec option" where
  "lzss_flags inp s =
     (let f = drop_bit 1 (flags s) in
      if f AND 0x100 = 0 then
        (if length inp \<le> in_pos s then None
         else Some (s\<lparr>flags := ucast (inp ! in_pos s) OR 0xFF00, in_pos := Suc (in_pos s)\<rparr>))
      else Some (s\<lparr>flags := f\<rparr>))"

text \<open>One iteration of the decoder's \<^verbatim>\<open>while\<close> loop.\<close>

definition lzss_dec_step :: "bytes \<Rightarrow> nat \<Rightarrow> lzss_dec \<Rightarrow> dec_step" where
  "lzss_dec_step inp out_capacity s0 =
     (case lzss_flags inp s0 of
        None \<Rightarrow> Dec_Break
      | Some s \<Rightarrow>
          if flags s AND 1 \<noteq> 0 then
            (if length inp \<le> in_pos s then Dec_Break
             else case lzss_emit out_capacity (inp ! in_pos s) (s\<lparr>in_pos := Suc (in_pos s)\<rparr>) of
                    None \<Rightarrow> Dec_Full | Some s' \<Rightarrow> Dec_Next s')
          else
            (if length inp < w32 (in_pos s + 2) then Dec_Break
             else
               let byte0 = (ucast (inp ! in_pos s) :: u32);
                   byte1 = (ucast (inp ! Suc (in_pos s)) :: u32);
                   match_pos = byte0 OR push_bit 4 (byte1 AND 0xF0);
                   match_len = unat (byte1 AND 0x0F) + LZSS_THRESHOLD
               in case lzss_copy out_capacity (unat match_pos) 0 (Suc match_len)
                         (s\<lparr>in_pos := in_pos s + 2\<rparr>) of
                    None \<Rightarrow> Dec_Full | Some s' \<Rightarrow> Dec_Next s'))"

lemma lzss_emit_in_pos: "lzss_emit cap c s = Some s' \<Longrightarrow> in_pos s' = in_pos s"
  by (auto simp: lzss_emit_def split: if_splits)

lemma lzss_copy_in_pos: "lzss_copy cap mp k n s = Some s' \<Longrightarrow> in_pos s' = in_pos s"
  by (induction cap mp k n s rule: lzss_copy.induct)
    (auto simp: lzss_emit_in_pos split: option.splits)

lemma lzss_dec_step_progress:
  assumes "lzss_dec_step inp cap s = Dec_Next s'"
  shows "in_pos s < in_pos s'"
  using assms
  by (auto simp: lzss_dec_step_def lzss_flags_def Let_def
      dest!: lzss_emit_in_pos lzss_copy_in_pos split: option.splits if_splits)

text \<open>The loop: \<^const>\<open>None\<close> when the output buffer overflows, else the final state.\<close>

function lzss_dec_loop :: "bytes \<Rightarrow> nat \<Rightarrow> lzss_dec \<Rightarrow> lzss_dec option" where
  "lzss_dec_loop inp out_capacity s =
     (if in_pos s < length inp then
        (case lzss_dec_step inp out_capacity s of
           Dec_Full \<Rightarrow> None
         | Dec_Break \<Rightarrow> Some s
         | Dec_Next s' \<Rightarrow> lzss_dec_loop inp out_capacity s')
      else Some s)"
  by pat_completeness auto
termination
  by (relation "measure (\<lambda>(inp, cap, s). length inp - in_pos s)")
    (auto dest: lzss_dec_step_progress)

declare lzss_dec_loop.simps [simp del]

definition lzss_dec_init :: "bytes \<Rightarrow> lzss_dec" where
  "lzss_dec_init ring =
     \<lparr>text_buf = replicate (LZSS_N - LZSS_F) 32 @ drop (LZSS_N - LZSS_F) ring,
      dec_r = LZSS_N - LZSS_F, in_pos = 0, dec_out = [], flags = 0\<rparr>"

text \<open>
  \<open>ring\<close> is the unzeroed buffer of \<open>N + F - 1\<close> bytes the heap hands out, \<^const>\<open>None\<close> when it has
  none; the other two arguments are \<^const>\<open>None\<close> for a NULL pointer. The result is the return
  value and the bytes written to \<^verbatim>\<open>out\<close> when it is not an error.
\<close>

definition lzss_decompress ::
    "bytes option \<Rightarrow> bytes option \<Rightarrow> nat option \<Rightarrow> nat \<times> bytes" where
  "lzss_decompress ring inp out_capacity =
     (case (inp, out_capacity) of
        (Some inp', Some cap) \<Rightarrow>
          if cap = 0 \<or> inp' = [] then (0, [])
          else (case ring of
                  None \<Rightarrow> (0, [])
                | Some ring' \<Rightarrow>
                    (case lzss_dec_loop inp' cap (lzss_dec_init ring') of
                       None \<Rightarrow> (0, [])
                     | Some s \<Rightarrow> (length (dec_out s), dec_out s)))
      | _ \<Rightarrow> (0, []))"

section \<open>Encoder\<close>

record lzss_enc =
  enc_out :: bytes
  capacity :: nat
  enc_head :: "nat list"
  enc_prev :: "nat list"
  flag_byte :: u8
  flag_bit :: nat
  chunk :: bytes
  enc_pos :: nat

text \<open>
  What a piece of the encoder can do: never return (the capacity doubling of
  \<^verbatim>\<open>lzss_compress\<close> reaches zero for outputs of two gigabytes), give up because the heap refuses a
  buffer, or go on with a value.
\<close>

datatype 'a enc_result = Enc_Diverges | Enc_No_Memory | Enc_Ok 'a

definition lzss_hash3 :: "bytes \<Rightarrow> nat \<Rightarrow> nat" where
  "lzss_hash3 data p =
     (let v = (ucast (data ! p) :: u32) OR push_bit 8 (ucast (data ! (p + 1)))
                OR push_bit 16 (ucast (data ! (p + 2)))
      in unat (drop_bit (32 - LZSS_HASH_BITS) (v * 2654435761)))"

text \<open>The loop of \<^verbatim>\<open>lzss_insert_range\<close> with its counter \<open>p\<close> and bound \<^verbatim>\<open>start + count\<close>.\<close>

function lzss_insert_loop ::
    "bytes \<Rightarrow> nat list \<Rightarrow> nat list \<Rightarrow> nat \<Rightarrow> nat \<Rightarrow> nat list \<times> nat list" where
  "lzss_insert_loop data head prev p stop =
     (if p < stop then
        (if length data \<le> w32 (p + 2) then (head, prev)
         else let h = lzss_hash3 data p
              in lzss_insert_loop data (head[h := p]) (prev[p AND (LZSS_N - 1) := head ! h])
                   (Suc p) stop)
      else (head, prev))"
  by pat_completeness auto
termination
  by (relation "measure (\<lambda>(data, head, prev, p, stop). stop - p)") auto

declare lzss_insert_loop.simps [simp del]

definition lzss_insert_range ::
    "bytes \<Rightarrow> nat list \<Rightarrow> nat list \<Rightarrow> nat \<Rightarrow> nat \<Rightarrow> nat list \<times> nat list" where
  "lzss_insert_range data head prev start count =
     lzss_insert_loop data head prev start (w32 (start + count))"

text \<open>How far the bytes at \<open>cand\<close> and \<open>pos\<close> agree, up to \<open>max_len\<close>.\<close>

function lzss_match_length :: "bytes \<Rightarrow> nat \<Rightarrow> nat \<Rightarrow> nat \<Rightarrow> nat \<Rightarrow> nat" where
  "lzss_match_length data cand pos max_len len =
     (if len < max_len \<and> data ! (cand + len) = data ! (pos + len)
      then lzss_match_length data cand pos max_len (Suc len) else len)"
  by pat_completeness auto
termination
  by (relation "measure (\<lambda>(data, cand, pos, max_len, len). max_len - len)") auto

declare lzss_match_length.simps [simp del]

text \<open>The walk along a hash chain; \<open>chain\<close> is the number of candidates still allowed.\<close>

fun lzss_walk ::
    "bytes \<Rightarrow> nat list \<Rightarrow> nat \<Rightarrow> nat \<Rightarrow> nat \<Rightarrow> nat \<Rightarrow> nat \<Rightarrow> nat \<times> nat \<Rightarrow> nat \<times> nat" where
  "lzss_walk data prev window_start max_len pos 0 cand best = best"
| "lzss_walk data prev window_start max_len pos (Suc chain) cand best =
     (if cand = LZSS_NONE \<or> cand < window_start then best
      else
        let len = lzss_match_length data cand pos max_len 0;
            best' = (if fst best \<le> len then (len, cand) else best);
            nxt = prev ! (cand AND (LZSS_N - 1))
        in if nxt \<noteq> LZSS_NONE \<and> cand \<le> nxt then best'
           else lzss_walk data prev window_start max_len pos chain nxt best')"

definition lzss_max_len :: "bytes \<Rightarrow> nat \<Rightarrow> nat" where
  "lzss_max_len data pos = (if length data - pos < LZSS_F then length data - pos else LZSS_F)"

definition lzss_find :: "bytes \<Rightarrow> lzss_enc \<Rightarrow> nat \<times> nat" where
  "lzss_find data s =
     (let pos = enc_pos s; max_len = lzss_max_len data pos in
      if LZSS_THRESHOLD + 1 \<le> max_len then
        lzss_walk data (enc_prev s) (if LZSS_N < pos then pos - LZSS_N else 0) max_len pos
          LZSS_MAX_CHAIN (enc_head s ! lzss_hash3 data pos) (0, 0)
      else (0, 0))"

text \<open>Emitting one symbol: a two-byte match, or a literal with its flag bit set.\<close>

definition lzss_put_symbol :: "bytes \<Rightarrow> nat \<times> nat \<Rightarrow> lzss_enc \<Rightarrow> lzss_enc" where
  "lzss_put_symbol data best s =
     (let pos = enc_pos s; best_len = fst best; best_src = snd best in
      if LZSS_THRESHOLD < best_len then
        let match_pos = (LZSS_N - LZSS_F + best_src) AND (LZSS_N - 1);
            length_field = best_len - (LZSS_THRESHOLD + 1);
            (head', prev') = lzss_insert_range data (enc_head s) (enc_prev s) pos best_len
        in s\<lparr>chunk := chunk s @ [of_nat (match_pos AND 0xFF),
                of_nat (push_bit 4 (drop_bit 8 match_pos) OR (length_field AND 0x0F))],
             enc_head := head', enc_prev := prev', enc_pos := pos + best_len,
             flag_bit := flag_bit s + 1\<rparr>
      else
        let (head', prev') = lzss_insert_range data (enc_head s) (enc_prev s) pos 1
        in s\<lparr>flag_byte := flag_byte s OR push_bit (flag_bit s) 1,
             chunk := chunk s @ [data ! pos],
             enc_head := head', enc_prev := prev', enc_pos := pos + 1,
             flag_bit := flag_bit s + 1\<rparr>)"

partial_function (option) lzss_grow_cap :: "nat \<Rightarrow> nat \<Rightarrow> nat option" where
  "lzss_grow_cap needed new_cap =
     (if new_cap < needed then lzss_grow_cap needed (w32 (new_cap * 2)) else Some new_cap)"

text \<open>
  Writing out a group: the buffer grows by \<^verbatim>\<open>alloc_resize\<close> when it is too small (\<open>grow\<close> says which
  sizes the heap grants), then the flag byte and the chunk follow.
\<close>

definition lzss_flush :: "(nat \<Rightarrow> bool) \<Rightarrow> lzss_enc \<Rightarrow> lzss_enc enc_result" where
  "lzss_flush grow s =
     (let needed = w32 (length (enc_out s) + 1 + length (chunk s));
          out' = enc_out s @ flag_byte s # chunk s in
      if capacity s < needed then
        (case lzss_grow_cap needed (w32 (capacity s * 2)) of
           None \<Rightarrow> Enc_Diverges
         | Some new_cap \<Rightarrow>
             if grow new_cap
             then Enc_Ok (s\<lparr>enc_out := out', capacity := new_cap,
                            flag_byte := 0, flag_bit := 0, chunk := []\<rparr>)
             else Enc_No_Memory)
      else Enc_Ok (s\<lparr>enc_out := out', flag_byte := 0, flag_bit := 0, chunk := []\<rparr>))"

text \<open>One iteration of the encoder's main loop.\<close>

definition lzss_enc_step :: "(nat \<Rightarrow> bool) \<Rightarrow> bytes \<Rightarrow> lzss_enc \<Rightarrow> lzss_enc enc_result" where
  "lzss_enc_step grow data s =
     (let s' = lzss_put_symbol data (lzss_find data s) s
      in if flag_bit s' = 8 then lzss_flush grow s' else Enc_Ok s')"

lemma lzss_flush_pos: "lzss_flush grow s = Enc_Ok s' \<Longrightarrow> enc_pos s' = enc_pos s"
  by (auto simp: lzss_flush_def Let_def split: if_splits option.splits)

lemma lzss_put_symbol_pos: "enc_pos s < enc_pos (lzss_put_symbol data best s)"
  by (auto simp: lzss_put_symbol_def Let_def lzss_consts split: prod.splits)

lemma lzss_enc_step_pos: "lzss_enc_step grow data s = Enc_Ok s' \<Longrightarrow> enc_pos s < enc_pos s'"
  using lzss_put_symbol_pos [of s data "lzss_find data s"]
  by (auto simp: lzss_enc_step_def Let_def dest!: lzss_flush_pos split: if_splits)

function lzss_enc_loop :: "(nat \<Rightarrow> bool) \<Rightarrow> bytes \<Rightarrow> lzss_enc \<Rightarrow> lzss_enc enc_result" where
  "lzss_enc_loop grow data s =
     (if enc_pos s < length data then
        (case lzss_enc_step grow data s of
           Enc_Ok s' \<Rightarrow> lzss_enc_loop grow data s'
         | Enc_Diverges \<Rightarrow> Enc_Diverges
         | Enc_No_Memory \<Rightarrow> Enc_No_Memory)
      else Enc_Ok s)"
  by pat_completeness auto
termination
  by (relation "measure (\<lambda>(grow, data, s). length data - enc_pos s)")
    (auto dest: lzss_enc_step_pos)

declare lzss_enc_loop.simps [simp del]

definition lzss_enc_init :: lzss_enc where
  "lzss_enc_init =
     \<lparr>enc_out = [], capacity = 256,
      enc_head = replicate LZSS_HASH_SIZE LZSS_NONE, enc_prev = replicate LZSS_N LZSS_NONE,
      flag_byte = 0, flag_bit = 0, chunk = [], enc_pos = 0\<rparr>"

text \<open>
  \<open>out_ok\<close> and \<open>tables_ok\<close> are the outcomes of the two allocations at the start; the result is the
  compressed buffer (its length is what \<^verbatim>\<open>*out_size\<close> receives), \<^const>\<open>None\<close> for NULL.
\<close>

definition lzss_compress ::
    "bool \<Rightarrow> bool \<Rightarrow> (nat \<Rightarrow> bool) \<Rightarrow> bytes option \<Rightarrow> bool \<Rightarrow> bytes option enc_result" where
  "lzss_compress out_ok tables_ok grow data has_out_size =
     (case data of
        None \<Rightarrow> Enc_Ok None
      | Some d \<Rightarrow>
          if d = [] \<or> \<not> has_out_size then Enc_Ok None
          else if \<not> out_ok then Enc_Ok None
          else if \<not> tables_ok then Enc_Ok None
          else (case lzss_enc_loop grow d lzss_enc_init of
                  Enc_Diverges \<Rightarrow> Enc_Diverges
                | Enc_No_Memory \<Rightarrow> Enc_Ok None
                | Enc_Ok s \<Rightarrow>
                    if 0 < flag_bit s then
                      (case lzss_flush grow s of
                         Enc_Diverges \<Rightarrow> Enc_Diverges
                       | Enc_No_Memory \<Rightarrow> Enc_Ok None
                       | Enc_Ok s' \<Rightarrow> Enc_Ok (Some (enc_out s')))
                    else Enc_Ok (Some (enc_out s))))"

end
