(* ===== verification/Lzss_Roundtrip.thy ===== *)
theory Lzss_Roundtrip
  imports Lzss
begin

text \<open>
  Correctness of the LZSS codec against a token-level reading of its stream: a stream is a list
  of groups of up to eight tokens, each a literal or a back reference, and a token list denotes
  the bytes obtained by applying it to an empty output.
\<close>

section \<open>Tokens and what they denote\<close>

datatype tok = Lit u8 | Ref nat nat

fun is_lit :: "tok \<Rightarrow> bool" where
  "is_lit (Lit b) = True"
| "is_lit (Ref src len) = False"

definition ring_index :: "nat \<Rightarrow> nat" where
  "ring_index i = (4078 + i) mod 4096"

fun tok_bytes :: "tok \<Rightarrow> bytes" where
  "tok_bytes (Lit b) = [b]"
| "tok_bytes (Ref src len) =
     [of_nat (ring_index src mod 256), of_nat (16 * (ring_index src div 256) + (len - 3))]"

fun copy_from :: "nat \<Rightarrow> nat \<Rightarrow> bytes \<Rightarrow> bytes" where
  "copy_from p 0 out = out"
| "copy_from p (Suc n) out = copy_from (Suc p) n (out @ [out ! p])"

fun tok_apply :: "bytes \<Rightarrow> tok \<Rightarrow> bytes" where
  "tok_apply out (Lit b) = out @ [b]"
| "tok_apply out (Ref src len) = copy_from src len out"

fun tok_valid :: "bytes \<Rightarrow> tok \<Rightarrow> bool" where
  "tok_valid out (Lit b) = True"
| "tok_valid out (Ref src len) \<longleftrightarrow>
     src < length out \<and> length out \<le> src + 4096 \<and> 3 \<le> len \<and> len \<le> 18"

fun toks_apply :: "bytes \<Rightarrow> tok list \<Rightarrow> bytes" where
  "toks_apply out [] = out"
| "toks_apply out (t # ts) = toks_apply (tok_apply out t) ts"

fun toks_valid :: "bytes \<Rightarrow> tok list \<Rightarrow> bool" where
  "toks_valid out [] = True"
| "toks_valid out (t # ts) \<longleftrightarrow> tok_valid out t \<and> toks_valid (tok_apply out t) ts"

lemma toks_apply_append: "toks_apply out (ts @ us) = toks_apply (toks_apply out ts) us"
  by (induction ts arbitrary: out) auto

lemma toks_valid_append:
  "toks_valid out (ts @ us) \<longleftrightarrow> toks_valid out ts \<and> toks_valid (toks_apply out ts) us"
  by (induction ts arbitrary: out) auto

lemma length_copy_from [simp]: "length (copy_from p n out) = length out + n"
  by (induction p n out rule: copy_from.induct) auto

lemma length_tok_apply: "length out < length (tok_apply out t) \<or> (\<exists>src. t = Ref src 0)"
  by (cases t) auto

lemma length_toks_apply_ge: "length out \<le> length (toks_apply out ts)"
proof (induction ts arbitrary: out)
  case (Cons t ts)
  have "length out \<le> length (tok_apply out t)" by (cases t) auto
  also have "\<dots> \<le> length (toks_apply (tok_apply out t) ts)" by (rule Cons.IH)
  finally show ?case by simp
qed simp

text \<open>Copying bytes that repeat an earlier part of \<open>data\<close> extends the known prefix of it.\<close>

lemma copy_from_prefix:
  assumes "src < pos" and "pos + n \<le> length data"
    and "\<And>k. k < n \<Longrightarrow> data ! (src + k) = data ! (pos + k)"
  shows "copy_from src n (take pos data) = take (pos + n) data"
  using assms
proof (induction n arbitrary: src pos)
  case (Suc n)
  have "data ! src = data ! pos" using Suc.prems(3) [of 0] by simp
  then have "take pos data @ [take pos data ! src] = take (Suc pos) data"
    using Suc.prems(1,2) by (simp add: take_Suc_append_nth)
  moreover have "copy_from (Suc src) n (take (Suc pos) data) = take (Suc pos + n) data"
    using Suc.prems(1,2) Suc.prems(3) [of "Suc k" for k] by (intro Suc.IH) auto
  ultimately show ?case by simp
qed simp

section \<open>The decoder follows the tokens\<close>

definition dec_inv :: "lzss_dec \<Rightarrow> bytes \<Rightarrow> bool" where
  "dec_inv s out \<longleftrightarrow>
     dec_out s = out \<and> 4096 \<le> length (text_buf s) \<and> dec_r s = ring_index (length out) \<and>
     (\<forall>i < length out. length out \<le> i + 4096 \<longrightarrow> text_buf s ! ring_index i = out ! i)"

lemma ring_index_less [simp]: "ring_index i < 4096"
  by (simp add: ring_index_def)

lemma ring_index_inj:
  assumes "ring_index i = ring_index j" and "i < j" and "j < i + 4096"
  shows False
proof -
  have "(4078 + j - (4078 + i)) mod 4096 = 0"
    using assms(1,2) by (intro mod_eq_dvd_iff_nat [THEN iffD1, THEN dvd_imp_mod_0])
      (simp_all add: ring_index_def)
  then show False using assms(2,3) by simp
qed

lemma lzss_emit_inv:
  assumes "dec_inv s out" and "length out < cap"
  shows "\<exists>s'. lzss_emit cap c s = Some s' \<and> dec_inv s' (out @ [c]) \<and>
    in_pos s' = in_pos s \<and> flags s' = flags s"
proof -
  let ?s = "s\<lparr>dec_out := dec_out s @ [c], text_buf := (text_buf s)[dec_r s := c],
              dec_r := Suc (dec_r s) AND (LZSS_N - 1)\<rparr>"
  have r: "Suc (dec_r s) mod 4096 = ring_index (Suc (length out))"
    using assms(1) by (simp add: dec_inv_def ring_index_def mod_Suc_eq)
  have "(text_buf s)[dec_r s := c] ! ring_index i = (out @ [c]) ! i"
    if "i < Suc (length out)" and "Suc (length out) \<le> i + 4096" for i
  proof (cases "i = length out")
    case True
    then show ?thesis using assms(1) by (auto simp: dec_inv_def less_le_trans [OF ring_index_less])
  next
    case False
    then have "ring_index i \<noteq> ring_index (length out)"
      using that ring_index_inj [of i "length out"] by auto
    then show ?thesis using assms(1) that False by (auto simp: dec_inv_def nth_append)
  qed
  then have "dec_inv ?s (out @ [c])"
    using assms(1) r by (simp add: dec_inv_def lzss_consts)
  then show ?thesis using assms by (simp add: lzss_emit_def dec_inv_def)
qed

lemma lzss_copy_inv:
  assumes "dec_inv s out" and "p + k < length out" and "length out \<le> p + k + 4096"
    and "length out + n \<le> cap"
  shows "\<exists>s'. lzss_copy cap (ring_index p) k n s = Some s' \<and>
    dec_inv s' (copy_from (p + k) n out) \<and> in_pos s' = in_pos s \<and> flags s' = flags s"
  using assms
proof (induction n arbitrary: k s out)
  case (Suc n)
  have "(ring_index p + k) mod 4096 = ring_index (p + k)"
    by (simp add: ring_index_def mod_add_left_eq add.assoc)
  then have c: "text_buf s ! ((ring_index p + k) AND (LZSS_N - 1)) = out ! (p + k)"
    using Suc.prems by (simp add: dec_inv_def lzss_consts)
  obtain s1 where s1: "lzss_emit cap (out ! (p + k)) s = Some s1" "dec_inv s1 (out @ [out ! (p + k)])"
      "in_pos s1 = in_pos s" "flags s1 = flags s"
    using lzss_emit_inv [OF Suc.prems(1), of cap] Suc.prems(4) by fastforce
  obtain s2 where "lzss_copy cap (ring_index p) (Suc k) n s1 = Some s2"
      "dec_inv s2 (copy_from (p + Suc k) n (out @ [out ! (p + k)]))"
      "in_pos s2 = in_pos s1" "flags s2 = flags s1"
    using Suc.IH [OF s1(2), of "Suc k"] Suc.prems by auto
  then show ?case using s1 c by simp
qed simp

subsection \<open>Flag bits\<close>

definition flag_word :: "u8 \<Rightarrow> u32" where
  "flag_word f = ucast f OR 0xFF00"

lemma bit_flag_word:
  "bit (flag_word f) i \<longleftrightarrow> (i < 8 \<and> bit f i) \<or> (8 \<le> i \<and> i < 16)"
proof -
  have m: "(0xFF00 :: u32) = push_bit 8 (mask 8)"
    by (simp add: mask_eq_exp_minus_1 push_bit_eq_mult)
  show ?thesis
    unfolding flag_word_def m
    by (auto simp: bit_simps dest: bit_imp_le_length)
qed

lemma and_0x100: "(w :: u32) AND 0x100 = 0 \<longleftrightarrow> \<not> bit w 8"
  using and_exp_eq_0_iff_not_bit [of w 8] by simp

lemma and_1: "(w :: u32) AND 1 \<noteq> 0 \<longleftrightarrow> bit w 0"
  using and_exp_eq_0_iff_not_bit [of w 0] by simp

text \<open>Before the first symbol and after the eighth the next iteration reloads the flags.\<close>

lemma lzss_flags_reload:
  assumes "\<not> bit (flags s) 9" and "drop (in_pos s) inp = f # rest"
  shows "lzss_flags inp s = Some (s\<lparr>flags := flag_word f, in_pos := Suc (in_pos s)\<rparr>)"
proof -
  have "in_pos s < length inp" using assms(2) by (metis drop_all leI list.discI)
  then have "inp ! in_pos s = f" using assms(2) by (simp add: drop_Cons_nth)
  then show ?thesis
    using assms(1) \<open>in_pos s < length inp\<close>
    by (simp add: lzss_flags_def Let_def and_0x100 bit_simps flag_word_def)
qed

lemma lzss_flags_shift:
  assumes "flags s = drop_bit k (flag_word f)" and "k < 7"
  shows "lzss_flags inp s = Some (s\<lparr>flags := drop_bit (Suc k) (flag_word f)\<rparr>)"
  using assms by (simp add: lzss_flags_def Let_def and_0x100 bit_simps bit_flag_word)

lemma flags_exhausted: "\<not> bit (drop_bit 7 (flag_word f)) 9"
  by (simp add: bit_simps bit_flag_word)

subsection \<open>Match bytes\<close>

lemma match_bytes_decode:
  assumes "m < 4096" and "l < 16"
  defines "b0 \<equiv> (ucast (of_nat (m mod 256) :: u8) :: u32)"
    and "b1 \<equiv> (ucast (of_nat (16 * (m div 256) + l) :: u8) :: u32)"
  shows "unat (b0 OR push_bit 4 (b1 AND 0xF0)) = m" and "unat (b1 AND 0x0F) = l"
proof -
  have b0: "unat b0 = m mod 256"
    by (simp add: b0_def unat_of_nat)
  have "m div 256 < 16" using assms(1) by (simp add: less_mult_imp_div_less)
  then have "16 * (m div 256) + l < 256" using assms(2) by linarith
  then have b1: "unat b1 = 16 * (m div 256) + l"
    by (simp only: b1_def unat_ucast_u8_u32 unat_of_nat_u8 mod_less)
  show "unat (b1 AND 0x0F) = l"
    using assms(2) by (simp add: unsigned_and_eq b1)
  have hi: "unat (b1 AND 0xF0) = 16 * (m div 256)"
    using assms(1,2) by (simp add: unsigned_and_eq b1)
  have "unat (push_bit 4 (b1 AND 0xF0)) = 2 ^ 8 * (m div 256)"
    using \<open>m div 256 < 16\<close> by (simp add: push_bit_eq_mult unat_word_ariths hi)
  then have "unat (b0 OR push_bit 4 (b1 AND 0xF0)) = m mod 256 + 2 ^ 8 * (m div 256)"
    using nat_or_disjoint [of "m mod 256" 8 "m div 256"] by (simp add: unsigned_or_eq b0)
  then show "unat (b0 OR push_bit 4 (b1 AND 0xF0)) = m" by simp
qed

subsection \<open>One symbol\<close>

text \<open>The body of an iteration, once the flags are in place.\<close>

lemma lzss_dec_step_tok:
  assumes inv: "dec_inv s out" and fl: "lzss_flags inp s = Some s1"
    and inv1: "dec_inv s1 out"
    and bit: "bit (flags s1) 0 = is_lit t"
    and inp: "drop (in_pos s1) inp = tok_bytes t @ rest"
    and valid: "tok_valid out t" and cap: "length (tok_apply out t) \<le> cap"
    and len: "length inp < 2 ^ 32"
  shows "\<exists>s'. lzss_dec_step inp cap s = Dec_Next s' \<and> dec_inv s' (tok_apply out t) \<and>
    in_pos s' = in_pos s1 + length (tok_bytes t) \<and> flags s' = flags s1"
proof (cases t)
  case (Lit b)
  then have "in_pos s1 < length inp" and "inp ! in_pos s1 = b"
    using inp by (metis drop_all leI list.discI append_Cons tok_bytes.simps(1),
      metis drop_all leI list.discI append_Cons tok_bytes.simps(1) drop_Cons_nth list.inject)
  moreover have "dec_inv (s1\<lparr>in_pos := Suc (in_pos s1)\<rparr>) out" using inv1 by (simp add: dec_inv_def)
  from lzss_emit_inv [OF this, of cap b] cap Lit obtain s2 where
    "lzss_emit cap b (s1\<lparr>in_pos := Suc (in_pos s1)\<rparr>) = Some s2" "dec_inv s2 (out @ [b])"
    "in_pos s2 = Suc (in_pos s1)" "flags s2 = flags s1" by auto
  ultimately show ?thesis using Lit bit fl by (simp add: lzss_dec_step_def and_1)
next
  case (Ref src n)
  let ?i = "in_pos s1" and ?m = "ring_index src"
  have i: "Suc ?i < length inp"
    using arg_cong [OF inp, of length] Ref by simp
  have b: "inp ! ?i = of_nat (?m mod 256)" "inp ! Suc ?i = of_nat (16 * (?m div 256) + (n - 3))"
    using inp Ref i by (simp_all add: drop_Cons_nth)
  have n: "3 \<le> n" "n - 3 < 16" using valid Ref by auto
  have "dec_inv (s1\<lparr>in_pos := ?i + 2\<rparr>) out" using inv1 by (simp add: dec_inv_def)
  from lzss_copy_inv [OF this, of src 0 n cap] valid cap Ref obtain s2 where
    s2: "lzss_copy cap ?m 0 n (s1\<lparr>in_pos := ?i + 2\<rparr>) = Some s2" "dec_inv s2 (copy_from src n out)"
    "in_pos s2 = ?i + 2" "flags s2 = flags s1" by auto
  have "w32 (?i + 2) = ?i + 2" using i len by (simp add: wrap)
  moreover have "Suc (unat ((ucast (inp ! Suc ?i) :: u32) AND 0x0F) + LZSS_THRESHOLD) = n"
    using n unfolding b by (subst match_bytes_decode(2)) (simp_all add: lzss_consts)
  moreover have "unat ((ucast (inp ! ?i) :: u32) OR push_bit 4 (ucast (inp ! Suc ?i) AND 0xF0)) = ?m"
    using n unfolding b by (subst match_bytes_decode(1)) simp_all
  ultimately show ?thesis using Ref bit fl i s2
    by (simp add: lzss_dec_step_def and_1 Let_def del: unat_ucast_u8_u32 lzss_copy.simps)
qed

subsection \<open>Groups and streams\<close>

text \<open>Tokens of a group after its first, the one before being number \<open>k\<close> of the group.\<close>

lemma lzss_dec_group_tail:
  assumes "dec_inv s out" and "flags s = drop_bit k (flag_word f)"
    and "drop (in_pos s) inp = concat (map tok_bytes ts) @ rest"
    and "k + length ts < 8" and "\<And>j. j < length ts \<Longrightarrow> bit f (Suc (k + j)) = is_lit (ts ! j)"
    and "toks_valid out ts" and "length (toks_apply out ts) \<le> cap" and "length inp < 2 ^ 32"
    and "in_pos s \<le> length inp"
  shows "\<exists>s'. lzss_dec_loop inp cap s = lzss_dec_loop inp cap s' \<and> dec_inv s' (toks_apply out ts) \<and>
    flags s' = drop_bit (k + length ts) (flag_word f) \<and> drop (in_pos s') inp = rest \<and>
    in_pos s' \<le> length inp"
  using assms
proof (induction ts arbitrary: s out k)
  case Nil
  then show ?case by auto
next
  case (Cons t ts)
  let ?s1 = "s\<lparr>flags := drop_bit (Suc k) (flag_word f)\<rparr>"
  have fl: "lzss_flags inp s = Some ?s1"
    using Cons.prems(2,4) by (intro lzss_flags_shift) auto
  have inv1: "dec_inv ?s1 out" using Cons.prems(1) by (simp add: dec_inv_def)
  have bit: "bit (flags ?s1) 0 = is_lit t"
    using Cons.prems(4) Cons.prems(5) [of 0] by (simp add: bit_simps bit_flag_word)
  have cap: "length (tok_apply out t) \<le> cap"
    using Cons.prems(7) length_toks_apply_ge [of "tok_apply out t" ts] by simp
  obtain s2 where s2: "lzss_dec_step inp cap s = Dec_Next s2" "dec_inv s2 (tok_apply out t)"
      "in_pos s2 = in_pos s + length (tok_bytes t)" "flags s2 = drop_bit (Suc k) (flag_word f)"
    using lzss_dec_step_tok [OF Cons.prems(1) fl inv1 bit, of "concat (map tok_bytes ts) @ rest" cap]
      Cons.prems(3,6,8) cap by auto
  have drop2: "drop (in_pos s2) inp = concat (map tok_bytes ts) @ rest"
  proof -
    have "drop (length (tok_bytes t)) (drop (in_pos s) inp) = concat (map tok_bytes ts) @ rest"
      using Cons.prems(3) by simp
    then show ?thesis by (simp add: s2(3) add.commute)
  qed
  have lt: "in_pos s < length inp" "in_pos s2 \<le> length inp"
    using arg_cong [OF Cons.prems(3), of length] s2(3) by (cases t, auto)+
  then have loop: "lzss_dec_loop inp cap s = lzss_dec_loop inp cap s2"
    using s2(1) by (simp add: lzss_dec_loop.simps [of inp cap s])
  have "\<And>j. j < length ts \<Longrightarrow> bit f (Suc (Suc k + j)) = is_lit (ts ! j)"
    using Cons.prems(5) [of "Suc j" for j] by simp
  from Cons.IH [OF s2(2) s2(4) drop2 _ this] Cons.prems(4,6,7,8) lt
  show ?case using loop by auto
qed

definition group_bytes :: "u8 \<times> tok list \<Rightarrow> bytes" where
  "group_bytes g = fst g # concat (map tok_bytes (snd g))"

definition group_ok :: "u8 \<times> tok list \<Rightarrow> bool" where
  "group_ok g \<longleftrightarrow> snd g \<noteq> [] \<and> length (snd g) \<le> 8 \<and>
     (\<forall>i < length (snd g). bit (fst g) i = is_lit (snd g ! i))"

lemma lzss_dec_group:
  assumes inv: "dec_inv s out" and fl: "\<not> bit (flags s) 9"
    and inp: "drop (in_pos s) inp = group_bytes (f, ts) @ rest" and ok: "group_ok (f, ts)"
    and valid: "toks_valid out ts" and cap: "length (toks_apply out ts) \<le> cap"
    and len: "length inp < 2 ^ 32"
  shows "\<exists>s'. lzss_dec_loop inp cap s = lzss_dec_loop inp cap s' \<and> dec_inv s' (toks_apply out ts) \<and>
    flags s' = drop_bit (length ts - 1) (flag_word f) \<and> drop (in_pos s') inp = rest \<and>
    in_pos s' \<le> length inp"
proof -
  obtain t us where ts: "ts = t # us" using ok by (cases ts) (auto simp: group_ok_def)
  let ?s1 = "s\<lparr>flags := flag_word f, in_pos := Suc (in_pos s)\<rparr>"
  have inp': "drop (in_pos s) inp = f # tok_bytes t @ concat (map tok_bytes us) @ rest"
    using inp by (simp add: group_bytes_def ts)
  have flg: "lzss_flags inp s = Some ?s1" using fl inp' by (rule lzss_flags_reload)
  have inv1: "dec_inv ?s1 out" using inv by (simp add: dec_inv_def)
  have bit: "bit (flags ?s1) 0 = is_lit t"
    using ok by (auto simp: bit_flag_word group_ok_def ts)
  have d1: "drop (in_pos ?s1) inp = tok_bytes t @ concat (map tok_bytes us) @ rest"
    using arg_cong [OF inp', of "drop 1"] by simp
  have cap1: "length (tok_apply out t) \<le> cap"
    using cap length_toks_apply_ge [of "tok_apply out t" us] by (simp add: ts)
  obtain s2 where s2: "lzss_dec_step inp cap s = Dec_Next s2" "dec_inv s2 (tok_apply out t)"
      "in_pos s2 = Suc (in_pos s) + length (tok_bytes t)" "flags s2 = drop_bit 0 (flag_word f)"
    using lzss_dec_step_tok [OF inv flg inv1 bit d1 _ cap1 len] valid by (auto simp: ts)
  have d2: "drop (in_pos s2) inp = concat (map tok_bytes us) @ rest"
    using arg_cong [OF d1, of "drop (length (tok_bytes t))"] by (simp add: s2(3) add.commute)
  have lt: "in_pos s < length inp" "in_pos s2 \<le> length inp"
    using arg_cong [OF inp', of length] s2(3) by auto
  then have loop: "lzss_dec_loop inp cap s = lzss_dec_loop inp cap s2"
    using s2(1) by (simp add: lzss_dec_loop.simps [of inp cap s])
  have bits: "\<And>j. j < length us \<Longrightarrow> bit f (Suc (0 + j)) = is_lit (us ! j)"
    using ok by (auto simp: group_ok_def ts)
  have "length us < 8" using ok by (simp add: group_ok_def ts)
  with lzss_dec_group_tail [OF s2(2) s2(4) d2 _ bits] valid cap len lt
  show ?thesis using loop by (auto simp: ts)
qed

text \<open>
  A stream is a list of groups of which all but the last have eight tokens. Decoding it gives
  what its tokens denote.
\<close>

fun groups_ok :: "(u8 \<times> tok list) list \<Rightarrow> bool" where
  "groups_ok [] = True"
| "groups_ok (g # gs) \<longleftrightarrow> group_ok g \<and> (gs \<noteq> [] \<longrightarrow> length (snd g) = 8) \<and> groups_ok gs"

lemma lzss_dec_groups:
  assumes "dec_inv s out" and "gs \<noteq> [] \<longrightarrow> \<not> bit (flags s) 9"
    and "drop (in_pos s) inp = concat (map group_bytes gs)" and "groups_ok gs"
    and "toks_valid out (concat (map snd gs))"
    and "length (toks_apply out (concat (map snd gs))) \<le> cap" and "length inp < 2 ^ 32"
    and "in_pos s \<le> length inp"
  shows "\<exists>s'. lzss_dec_loop inp cap s = Some s' \<and>
    dec_out s' = toks_apply out (concat (map snd gs))"
  using assms
proof (induction gs arbitrary: s out)
  case Nil
  then have "in_pos s = length inp" by simp
  with Nil show ?case by (auto simp: lzss_dec_loop.simps [of inp cap s] dec_inv_def)
next
  case (Cons g gs)
  obtain f ts where g: "g = (f, ts)" by (cases g)
  have cap: "length (toks_apply out ts) \<le> cap"
    using Cons.prems(6) length_toks_apply_ge [of "toks_apply out ts" "concat (map snd gs)"]
    by (simp add: g toks_apply_append)
  obtain s1 where s1: "lzss_dec_loop inp cap s = lzss_dec_loop inp cap s1"
      "dec_inv s1 (toks_apply out ts)" "flags s1 = drop_bit (length ts - 1) (flag_word f)"
      "drop (in_pos s1) inp = concat (map group_bytes gs)" "in_pos s1 \<le> length inp"
    using lzss_dec_group [OF Cons.prems(1), of inp f ts "concat (map group_bytes gs)" cap]
      Cons.prems(2-7) cap by (auto simp: g toks_valid_append)
  have "gs \<noteq> [] \<longrightarrow> \<not> bit (flags s1) 9"
    using Cons.prems(4) flags_exhausted by (auto simp: s1(3) g)
  with Cons.IH [OF s1(2) _ s1(4)] Cons.prems(4-7) s1(1,5)
  show ?case by (auto simp: g toks_valid_append toks_apply_append)
qed

lemma dec_inv_init: "length ring = 4113 \<Longrightarrow> dec_inv (lzss_dec_init ring) []"
  by (simp add: dec_inv_def lzss_dec_init_def lzss_consts ring_index_def)

theorem lzss_decompress_groups:
  assumes "gs \<noteq> []" and "groups_ok gs" and "toks_valid [] (concat (map snd gs))"
    and "inp = concat (map group_bytes gs)" and "length inp < 2 ^ 32"
    and "out = toks_apply [] (concat (map snd gs))" and "length out \<le> cap" and "0 < cap"
    and "length ring = 4113"
  shows "lzss_decompress (Some ring) (Some inp) (Some cap) = (length out, out)"
proof -
  have "inp \<noteq> []" using assms(1,4) by (cases gs) (auto simp: group_bytes_def)
  moreover have "\<exists>s'. lzss_dec_loop inp cap (lzss_dec_init ring) = Some s' \<and> dec_out s' = out"
    unfolding assms(6) using assms(2,3,4,5,6,7)
    by (intro lzss_dec_groups dec_inv_init assms) (simp_all add: lzss_dec_init_def)
  ultimately show ?thesis using assms(8) by (auto simp: lzss_decompress_def)
qed

section \<open>The encoder writes tokens that denote its input\<close>

subsection \<open>The match finder\<close>

definition tables_ok :: "nat list \<Rightarrow> nat list \<Rightarrow> nat \<Rightarrow> bool" where
  "tables_ok head prev pos \<longleftrightarrow>
     length head = LZSS_HASH_SIZE \<and> length prev = LZSS_N \<and>
     (\<forall>x \<in> set head \<union> set prev. x = LZSS_NONE \<or> x < pos)"

lemma tables_okD_head: "tables_ok head prev pos \<Longrightarrow> h < LZSS_HASH_SIZE \<Longrightarrow>
    head ! h = LZSS_NONE \<or> head ! h < pos"
  by (metis Un_iff nth_mem tables_ok_def)

lemma tables_okD_prev: "tables_ok head prev pos \<Longrightarrow> prev ! (c AND (LZSS_N - 1)) = LZSS_NONE \<or>
    prev ! (c AND (LZSS_N - 1)) < pos"
proof -
  assume ok: "tables_ok head prev pos"
  have "c AND (LZSS_N - 1) < length prev" using ok by (simp add: tables_ok_def lzss_consts)
  then show ?thesis using ok by (metis Un_iff nth_mem tables_ok_def)
qed

lemma lzss_hash3_less: "lzss_hash3 data p < LZSS_HASH_SIZE"
proof -
  have "unat (drop_bit 20 (w :: u32)) < 4096" for w
    using unsigned_less [of w, where 'a = nat]
    by (simp add: drop_bit_eq_div unat_div less_mult_imp_div_less)
  then show ?thesis by (simp add: lzss_hash3_def lzss_consts Let_def)
qed

lemma tables_ok_insert:
  assumes "tables_ok head prev p" and "h < LZSS_HASH_SIZE"
  shows "tables_ok (head[h := p]) (prev[i := head ! h]) (Suc p)"
proof -
  have "head ! h \<in> set head" using assms by (simp add: tables_ok_def)
  then show ?thesis
    using assms set_update_subset_insert [of head h p] set_update_subset_insert [of prev i "head ! h"]
    unfolding tables_ok_def by (fastforce simp: less_Suc_eq)
qed

lemma tables_ok_mono: "tables_ok head prev p \<Longrightarrow> p \<le> q \<Longrightarrow> tables_ok head prev q"
  unfolding tables_ok_def by fastforce

lemma lzss_insert_loop_ok:
  assumes "tables_ok head prev p" and "p \<le> stop"
  shows "case lzss_insert_loop data head prev p stop of (head', prev') \<Rightarrow> tables_ok head' prev' stop"
  using assms
proof (induction data head prev p stop rule: lzss_insert_loop.induct)
  case (1 data head prev p stop)
  show ?case
  proof (cases "p < stop \<and> \<not> length data \<le> w32 (p + 2)")
    case True
    then have "tables_ok (head[lzss_hash3 data p := p])
        (prev[p AND (LZSS_N - 1) := head ! lzss_hash3 data p]) (Suc p)"
      using "1.prems" lzss_hash3_less by (intro tables_ok_insert)
    with True "1.IH" [OF _ _ refl] show ?thesis
      by (simp add: lzss_insert_loop.simps [of data head prev p] Let_def)
  next
    case False
    then show ?thesis using "1.prems" tables_ok_mono [of head prev p stop]
      by (auto simp: lzss_insert_loop.simps [of data head prev p])
  qed
qed

lemma lzss_insert_range_ok:
  assumes "tables_ok head prev pos" and "pos + n < 2 ^ 32"
    and "lzss_insert_range data head prev pos n = (head', prev')"
  shows "tables_ok head' prev' (pos + n)"
  using lzss_insert_loop_ok [OF assms(1), of "pos + n" data] assms(2,3)
  by (simp add: lzss_insert_range_def wrap)

lemma lzss_match_length_ok:
  assumes "len \<le> max_len" and "\<And>k. k < len \<Longrightarrow> data ! (cand + k) = data ! (pos + k)"
  shows "lzss_match_length data cand pos max_len len \<le> max_len \<and>
    (\<forall>k < lzss_match_length data cand pos max_len len. data ! (cand + k) = data ! (pos + k))"
  using assms
proof (induction data cand pos max_len len rule: lzss_match_length.induct)
  case (1 data cand pos max_len len)
  show ?case
  proof (cases "len < max_len \<and> data ! (cand + len) = data ! (pos + len)")
    case True
    moreover have "\<And>k. k < Suc len \<Longrightarrow> data ! (cand + k) = data ! (pos + k)"
      using True "1.prems"(2) by (auto simp: less_Suc_eq)
    ultimately show ?thesis
      using "1.IH" by (simp add: lzss_match_length.simps [of data cand pos max_len len])
  next
    case False
    then show ?thesis using "1.prems"
      by (auto simp: lzss_match_length.simps [of data cand pos max_len len])
  qed
qed

definition match_ok :: "bytes \<Rightarrow> nat \<Rightarrow> nat \<Rightarrow> nat \<Rightarrow> nat \<times> nat \<Rightarrow> bool" where
  "match_ok data pos window_start max_len best \<longleftrightarrow>
     fst best \<le> max_len \<and>
     (0 < fst best \<longrightarrow> snd best < pos \<and> window_start \<le> snd best \<and>
       (\<forall>k < fst best. data ! (snd best + k) = data ! (pos + k)))"

lemma lzss_walk_ok:
  assumes "match_ok data pos window_start max_len best" and "cand = LZSS_NONE \<or> cand < pos"
    and "tables_ok head prev pos"
  shows "match_ok data pos window_start max_len
    (lzss_walk data prev window_start max_len pos chain cand best)"
  using assms
proof (induction chain arbitrary: cand best)
  case (Suc chain)
  show ?case
  proof (cases "cand = LZSS_NONE \<or> cand < window_start")
    case False
    let ?len = "lzss_match_length data cand pos max_len 0"
    let ?best = "if fst best \<le> ?len then (?len, cand) else best"
    have "match_ok data pos window_start max_len (?len, cand)"
      using lzss_match_length_ok [of 0 max_len data cand pos] False Suc.prems(2)
      by (auto simp: match_ok_def)
    then have best: "match_ok data pos window_start max_len ?best"
      using Suc.prems(1) by simp
    have nxt: "prev ! (cand AND (LZSS_N - 1)) = LZSS_NONE \<or> prev ! (cand AND (LZSS_N - 1)) < pos"
      using Suc.prems(3) by (rule tables_okD_prev)
    show ?thesis
      using False best Suc.IH [OF best nxt Suc.prems(3)]
      by (simp only: lzss_walk.simps Let_def if_False split: if_split) simp
  qed (use Suc.prems in simp)
qed simp

lemma lzss_find_ok:
  assumes "tables_ok (enc_head s) (enc_prev s) (enc_pos s)"
  shows "match_ok data (enc_pos s) (enc_pos s - LZSS_N) (lzss_max_len data (enc_pos s))
    (lzss_find data s)"
proof -
  have "(if LZSS_N < enc_pos s then enc_pos s - LZSS_N else 0) = enc_pos s - LZSS_N" by simp
  then show ?thesis
    using lzss_walk_ok [OF _ tables_okD_head [OF assms lzss_hash3_less] assms]
    by (simp add: lzss_find_def Let_def match_ok_def)
qed

subsection \<open>One symbol\<close>

text \<open>
  The invariant of the encoder: what it has written out is the complete groups \<open>gs\<close>, what it holds
  back in \<^verbatim>\<open>chunk\<close> and \<^verbatim>\<open>flag_byte\<close> is the unfinished group \<open>ts\<close>, and together they denote the
  input up to the current position.
\<close>

definition enc_inv :: "bytes \<Rightarrow> lzss_enc \<Rightarrow> (u8 \<times> tok list) list \<Rightarrow> tok list \<Rightarrow> bool" where
  "enc_inv data s gs ts \<longleftrightarrow>
     enc_out s = concat (map group_bytes gs) \<and> (\<forall>g \<in> set gs. group_ok g \<and> length (snd g) = 8) \<and>
     chunk s = concat (map tok_bytes ts) \<and> flag_bit s = length ts \<and>
     (\<forall>i < 8. bit (flag_byte s) i \<longleftrightarrow> i < length ts \<and> is_lit (ts ! i)) \<and>
     toks_valid [] (concat (map snd gs) @ ts) \<and>
     toks_apply [] (concat (map snd gs) @ ts) = take (enc_pos s) data \<and>
     enc_pos s \<le> length data \<and> tables_ok (enc_head s) (enc_prev s) (enc_pos s)"

lemma enc_inv_init: "enc_inv data lzss_enc_init [] []"
  by (auto simp: enc_inv_def lzss_enc_init_def tables_ok_def)

definition best_tok :: "bytes \<Rightarrow> nat \<Rightarrow> nat \<times> nat \<Rightarrow> tok" where
  "best_tok data pos best =
     (if LZSS_THRESHOLD < fst best then Ref (snd best) (fst best) else Lit (data ! pos))"

lemma best_tok_extends:
  assumes "match_ok data pos (pos - LZSS_N) (lzss_max_len data pos) best" and "pos < length data"
  shows "tok_valid (take pos data) (best_tok data pos best)"
    and "tok_apply (take pos data) (best_tok data pos best) =
      take (pos + (if LZSS_THRESHOLD < fst best then fst best else 1)) data"
    and "pos + (if LZSS_THRESHOLD < fst best then fst best else 1) \<le> length data"
proof -
  have len: "fst best \<le> 18" "pos + fst best \<le> length data"
    using assms by (auto simp: match_ok_def lzss_max_len_def lzss_consts split: if_splits)
  show "tok_valid (take pos data) (best_tok data pos best)"
    using assms len by (auto simp: best_tok_def match_ok_def lzss_consts)
  show "tok_apply (take pos data) (best_tok data pos best) =
      take (pos + (if LZSS_THRESHOLD < fst best then fst best else 1)) data"
    using assms len
    by (auto simp: best_tok_def match_ok_def take_Suc_append_nth intro!: copy_from_prefix)
  show "pos + (if LZSS_THRESHOLD < fst best then fst best else 1) \<le> length data"
    using assms(2) len by auto
qed

text \<open>The two bytes the encoder computes for a match are those of the token.\<close>

lemma match_bytes_encode:
  assumes "l < 16"
  shows "[of_nat (((LZSS_N - LZSS_F + src) AND (LZSS_N - 1)) AND 0xFF) :: u8,
      of_nat (push_bit 4 (drop_bit 8 ((LZSS_N - LZSS_F + src) AND (LZSS_N - 1))) OR (l AND 0x0F))]
    = tok_bytes (Ref src (l + 3))"
proof -
  have "l OR 2 ^ 4 * (ring_index src div 256) = l + 2 ^ 4 * (ring_index src div 256)"
    using assms by (intro nat_or_disjoint) simp
  then show ?thesis
    using assms
    by (simp add: lzss_consts ring_index_def push_bit_eq_mult drop_bit_eq_div or.commute [of l]
        mult.commute add.commute)
qed

lemma lzss_put_symbol_inv:
  assumes inv: "enc_inv data s gs ts" and pos: "enc_pos s < length data"
    and len: "length data < 2 ^ 32" and ts: "length ts < 8"
    and best: "match_ok data (enc_pos s) (enc_pos s - LZSS_N) (lzss_max_len data (enc_pos s)) best"
  shows "enc_inv data (lzss_put_symbol data best s) gs (ts @ [best_tok data (enc_pos s) best])"
proof -
  let ?pos = "enc_pos s" and ?t = "best_tok data (enc_pos s) best"
  let ?n = "if LZSS_THRESHOLD < fst best then fst best else 1"
  obtain head' prev' where ins:
    "lzss_insert_range data (enc_head s) (enc_prev s) ?pos ?n = (head', prev')"
    by (metis surj_pair)
  note ext = best_tok_extends [OF best pos]
  have tab: "tables_ok head' prev' (?pos + ?n)"
    using lzss_insert_range_ok [OF _ _ ins] inv ext(3) len by (simp add: enc_inv_def)
  define fb where "fb = (if is_lit ?t then flag_byte s OR push_bit (length ts) 1 else flag_byte s)"
  have fbit: "flag_bit s = length ts" using inv by (simp add: enc_inv_def)
  have state: "lzss_put_symbol data best s =
      s\<lparr>chunk := chunk s @ tok_bytes ?t, flag_byte := fb,
        enc_head := head', enc_prev := prev', enc_pos := ?pos + ?n, flag_bit := flag_bit s + 1\<rparr>"
  proof (cases "LZSS_THRESHOLD < fst best")
    case True
    have "fst best - 3 < 16" "fst best - 3 + 3 = fst best"
      using best True by (auto simp: match_ok_def lzss_max_len_def lzss_consts split: if_splits)
    then show ?thesis
      using True ins match_bytes_encode [of "fst best - 3" "snd best"]
      by (simp add: lzss_put_symbol_def best_tok_def Let_def LZSS_THRESHOLD_def fb_def)
  next
    case False
    then show ?thesis using ins
      by (simp add: lzss_put_symbol_def best_tok_def Let_def fb_def fbit)
  qed
  have "bit fb i \<longleftrightarrow> i < Suc (length ts) \<and> is_lit ((ts @ [?t]) ! i)" if "i < 8" for i
  proof -
    have "bit (flag_byte s) i \<longleftrightarrow> i < length ts \<and> is_lit (ts ! i)"
      using inv that by (simp add: enc_inv_def)
    moreover have "bit (push_bit (length ts) (1 :: u8)) i \<longleftrightarrow> i = length ts"
      using that by (auto simp: bit_exp_iff)
    ultimately show ?thesis by (auto simp: fb_def bit_or_iff nth_append less_Suc_eq)
  qed
  then show ?thesis
    using inv ext tab
    by (simp add: enc_inv_def state toks_apply_append toks_valid_append)
qed

lemma lzss_flush_inv:
  assumes "enc_inv data s gs ts" and "ts \<noteq> []" and "length ts \<le> 8" and "lzss_flush grow s = Enc_Ok s'"
  shows "enc_out s' = concat (map group_bytes (gs @ [(flag_byte s, ts)]))"
    and "group_ok (flag_byte s, ts)"
    and "length ts = 8 \<Longrightarrow> enc_inv data s' (gs @ [(flag_byte s, ts)]) []"
proof -
  show ok: "group_ok (flag_byte s, ts)"
    using assms(1,2,3) by (simp add: group_ok_def enc_inv_def)
  have s': "enc_out s' = enc_out s @ flag_byte s # chunk s" "chunk s' = []" "flag_byte s' = 0"
    "flag_bit s' = 0" "enc_pos s' = enc_pos s" "enc_head s' = enc_head s" "enc_prev s' = enc_prev s"
    using assms(4) by (auto simp: lzss_flush_def Let_def split: if_splits option.splits)
  then show out: "enc_out s' = concat (map group_bytes (gs @ [(flag_byte s, ts)]))"
    using assms(1) by (simp add: enc_inv_def group_bytes_def)
  show "enc_inv data s' (gs @ [(flag_byte s, ts)]) []" if "length ts = 8"
    using assms(1) out ok that by (auto simp: enc_inv_def s')
qed

lemma lzss_enc_step_inv:
  assumes inv: "enc_inv data s gs ts" and "enc_pos s < length data" and "length data < 2 ^ 32"
    and "length ts < 8" and step: "lzss_enc_step grow data s = Enc_Ok s'"
  shows "\<exists>gs' ts'. enc_inv data s' gs' ts' \<and> length ts' < 8"
proof -
  let ?s = "lzss_put_symbol data (lzss_find data s) s"
  let ?ts = "ts @ [best_tok data (enc_pos s) (lzss_find data s)]"
  have inv': "enc_inv data ?s gs ?ts"
    using assms lzss_find_ok [of s] by (intro lzss_put_symbol_inv) (auto simp: enc_inv_def)
  show ?thesis
  proof (cases "flag_bit ?s = 8")
    case True
    show ?thesis
    proof -
      have "length ?ts = 8" using True inv' by (simp add: enc_inv_def)
      moreover have "lzss_flush grow ?s = Enc_Ok s'"
        using step True by (simp add: lzss_enc_step_def Let_def)
      ultimately have "enc_inv data s' (gs @ [(flag_byte ?s, ?ts)]) []"
        using lzss_flush_inv(3) [OF inv'] by simp
      then show ?thesis by fastforce
    qed
  next
    case False
    then have "s' = ?s" using step by (simp add: lzss_enc_step_def Let_def)
    moreover have "length ?ts < 8" using False assms(4) inv' by (simp add: enc_inv_def)
    ultimately show ?thesis using inv' by blast
  qed
qed

lemma lzss_enc_loop_inv:
  assumes "lzss_enc_loop grow data s = Enc_Ok s'" and "enc_inv data s gs ts"
    and "length ts < 8" and "length data < 2 ^ 32"
  shows "\<exists>gs' ts'. enc_inv data s' gs' ts' \<and> length ts' < 8 \<and> enc_pos s' = length data"
  using assms
proof (induction grow data s arbitrary: gs ts rule: lzss_enc_loop.induct)
  case (1 grow data s)
  show ?case
  proof (cases "enc_pos s < length data")
    case True
    then obtain s1 where s1: "lzss_enc_step grow data s = Enc_Ok s1"
        "lzss_enc_loop grow data s1 = Enc_Ok s'"
      using "1.prems"(1) by (auto simp: lzss_enc_loop.simps [of grow data s] split: enc_result.splits)
    obtain gs1 ts1 where "enc_inv data s1 gs1 ts1" "length ts1 < 8"
      using lzss_enc_step_inv [OF "1.prems"(2) True "1.prems"(4,3) s1(1)] by blast
    with "1.IH" [OF True s1(1) s1(2)] "1.prems"(4) show ?thesis by blast
  next
    case False
    then have "s' = s" and "enc_pos s = length data"
      using "1.prems"(1,2) by (simp_all add: lzss_enc_loop.simps [of grow data s] enc_inv_def)
    then show ?thesis using "1.prems" by blast
  qed
qed

text \<open>Complete groups followed by at most one shorter group form a stream.\<close>

lemma groups_ok_full: "(\<forall>g \<in> set gs. group_ok g \<and> length (snd g) = 8) \<Longrightarrow> groups_ok gs"
  by (induction gs) auto

lemma groups_ok_snoc:
  "(\<forall>g \<in> set gs. group_ok g \<and> length (snd g) = 8) \<Longrightarrow> group_ok g \<Longrightarrow> groups_ok (gs @ [g])"
  by (induction gs) auto

lemma lzss_compress_groups:
  assumes "lzss_compress out_ok tables_ok' grow (Some data) True = Enc_Ok (Some out)"
    and len: "length data < 2 ^ 32"
  shows "\<exists>gs. gs \<noteq> [] \<and> groups_ok gs \<and> out = concat (map group_bytes gs) \<and>
    toks_valid [] (concat (map snd gs)) \<and> toks_apply [] (concat (map snd gs)) = data"
proof -
  have ne: "data \<noteq> []" using assms(1) by (auto simp: lzss_compress_def)
  obtain s where s: "lzss_enc_loop grow data lzss_enc_init = Enc_Ok s"
    using assms(1) by (auto simp: lzss_compress_def split: if_splits enc_result.splits)
  obtain gs ts where inv: "enc_inv data s gs ts" "length ts < 8" "enc_pos s = length data"
    using lzss_enc_loop_inv [OF s enc_inv_init _ len] by auto
  note full = inv(1) [unfolded enc_inv_def inv(3) take_all [OF order_refl]]
  show ?thesis
  proof (cases "ts = []")
    case True
    then have "out = enc_out s" using assms(1) s full
      by (simp add: lzss_compress_def split: if_splits)
    moreover have "gs \<noteq> []" using full True ne by auto
    moreover have "groups_ok gs" using full by (blast intro: groups_ok_full)
    ultimately show ?thesis using full True by (intro exI [of _ gs]) simp
  next
    case False
    then have fb: "0 < flag_bit s" using full by simp
    then obtain s' where s': "lzss_flush grow s = Enc_Ok s'" "out = enc_out s'"
      using assms(1) s by (auto simp: lzss_compress_def split: if_splits enc_result.splits)
    note fl = lzss_flush_inv(1,2) [OF inv(1) False _ s'(1)]
    have "groups_ok (gs @ [(flag_byte s, ts)])"
      using full fl(2) inv(2) by (intro groups_ok_snoc) auto
    then show ?thesis
      using full fl(1) s'(2) inv(2) by (intro exI [of _ "gs @ [(flag_byte s, ts)]"]) simp
  qed
qed

text \<open>No symbol takes more room than the bytes it stands for.\<close>

lemma toks_size:
  "toks_valid out ts \<Longrightarrow>
    length (concat (map tok_bytes ts)) + length out \<le> length (toks_apply out ts) \<and>
    length ts + length out \<le> length (toks_apply out ts)"
proof (induction ts arbitrary: out)
  case (Cons t ts)
  have "length (tok_bytes t) + length out \<le> length (tok_apply out t)"
    "1 + length out \<le> length (tok_apply out t)"
    using Cons.prems by (cases t; simp)+
  then show ?case using Cons.IH [of "tok_apply out t"] Cons.prems by simp
qed simp

lemma groups_size:
  "length (concat (map group_bytes gs)) = length gs + length (concat (map tok_bytes (concat (map snd gs))))"
  by (induction gs) (auto simp: group_bytes_def)

lemma groups_full_count:
  "groups_ok gs \<Longrightarrow> 8 * length gs \<le> length (concat (map snd gs)) + 7"
proof (induction gs)
  case (Cons g gs)
  have "0 < length (snd g)" using Cons.prems by (simp add: group_ok_def)
  then show ?case using Cons by (cases "gs = []") (auto simp: Suc_le_eq)
qed simp

lemma lzss_compress_size:
  assumes "lzss_compress out_ok tables_ok' grow (Some data) True = Enc_Ok (Some out)"
    and "length data < 2 ^ 32"
  shows "8 * length out \<le> 9 * length data + 7"
proof -
  obtain gs where gs: "groups_ok gs" "out = concat (map group_bytes gs)"
    "toks_valid [] (concat (map snd gs))" "toks_apply [] (concat (map snd gs)) = data"
    using lzss_compress_groups [OF assms] by blast
  have "length (concat (map snd gs)) \<le> length data"
    "length (concat (map tok_bytes (concat (map snd gs)))) \<le> length data"
    using toks_size [OF gs(3)] gs(4) by simp_all
  moreover have "8 * length gs \<le> length (concat (map snd gs)) + 7"
    using gs(1) by (rule groups_full_count)
  moreover have "length out = length gs + length (concat (map tok_bytes (concat (map snd gs))))"
    unfolding gs(2) by (rule groups_size)
  ultimately show ?thesis by linarith
qed

section \<open>The encoder returns\<close>

definition cap_inv :: "lzss_enc \<Rightarrow> bool" where
  "cap_inv s \<longleftrightarrow> 256 \<le> capacity s \<and> length (enc_out s) \<le> capacity s"

lemma length_toks_le: "length (concat (map tok_bytes ts)) \<le> 2 * length ts"
proof (induction ts)
  case (Cons t ts)
  have "length (tok_bytes t) \<le> 2" by (cases t) auto
  then show ?case using Cons by simp
qed simp

lemma size_arith:
  fixes a b c d g g8 o' t :: nat
  shows "a + b \<le> d \<Longrightarrow> g8 + t \<le> d \<Longrightarrow> o' = g + a \<Longrightarrow> 8 * g = g8 \<Longrightarrow> c = b \<Longrightarrow> 8 * (o' + c) \<le> 9 * d"
  by simp

lemma enc_inv_size:
  assumes "enc_inv data s gs ts"
  shows "8 * (length (enc_out s) + length (chunk s)) \<le> 9 * length data"
proof -
  let ?all = "concat (map snd gs) @ ts"
  have "toks_valid [] ?all" "length (toks_apply [] ?all) \<le> length data"
    using assms by (simp_all add: enc_inv_def)
  then have "length (concat (map tok_bytes ?all)) \<le> length data" "length ?all \<le> length data"
    using toks_size [of "[]" ?all] by auto
  then have "length (concat (map tok_bytes (concat (map snd gs)))) + length (concat (map tok_bytes ts)) \<le> length data"
    "length (concat (map snd gs)) + length ts \<le> length data"
    by simp_all
  moreover have "length (enc_out s) = length gs + length (concat (map tok_bytes (concat (map snd gs))))"
    using assms groups_size [of gs] by (simp add: enc_inv_def)
  moreover have "8 * length gs = length (concat (map snd gs))"
  proof -
    have "\<forall>g \<in> set gs. length (snd g) = 8" using assms by (simp add: enc_inv_def)
    then show ?thesis by (induction gs) auto
  qed
  moreover have "length (chunk s) = length (concat (map tok_bytes ts))"
    using assms by (simp add: enc_inv_def)
  ultimately show ?thesis by (rule size_arith)
qed

lemma lzss_flush_returns:
  assumes inv: "enc_inv data s gs ts" and ts: "length ts \<le> 8" and data: "length data \<le> 2 ^ 30"
    and cap: "cap_inv s"
  shows "lzss_flush grow s = Enc_No_Memory \<and> (\<exists>n. \<not> grow n) \<or>
    (\<exists>s'. lzss_flush grow s = Enc_Ok s' \<and> cap_inv s')"
proof -
  let ?needed = "length (enc_out s) + 1 + length (chunk s)"
  have small: "?needed < 2 ^ 31" using enc_inv_size [OF inv] data by simp
  then have needed: "w32 ?needed = ?needed" by (simp add: wrap)
  have "length (chunk s) \<le> 16"
    using inv ts length_toks_le [of ts] by (simp add: enc_inv_def)
  then have two: "?needed \<le> capacity s * 2" using cap by (simp add: cap_inv_def)
  show ?thesis
  proof (cases "capacity s < ?needed")
    case True
    then have "w32 (capacity s * 2) = capacity s * 2" using small by (simp add: wrap)
    moreover have "lzss_grow_cap ?needed (capacity s * 2) = Some (capacity s * 2)"
      using two by (simp add: lzss_grow_cap.simps)
    ultimately have "lzss_flush grow s =
      (if grow (capacity s * 2) then Enc_Ok (s\<lparr>enc_out := enc_out s @ flag_byte s # chunk s,
         capacity := capacity s * 2, flag_byte := 0, flag_bit := 0, chunk := []\<rparr>) else Enc_No_Memory)"
      unfolding lzss_flush_def Let_def needed using True by simp
    then show ?thesis using two cap by (auto simp: cap_inv_def)
  next
    case False
    then show ?thesis unfolding lzss_flush_def Let_def needed using cap by (simp add: cap_inv_def)
  qed
qed

lemma lzss_put_symbol_keeps [simp]:
  "enc_out (lzss_put_symbol data best s) = enc_out s"
  "capacity (lzss_put_symbol data best s) = capacity s"
  by (auto simp: lzss_put_symbol_def Let_def split: prod.splits)

lemma lzss_enc_step_returns:
  assumes inv: "enc_inv data s gs ts" and "enc_pos s < length data" and "length data \<le> 2 ^ 30"
    and "length ts < 8" and "cap_inv s"
  shows "lzss_enc_step grow data s = Enc_No_Memory \<and> (\<exists>n. \<not> grow n) \<or>
    (\<exists>s'. lzss_enc_step grow data s = Enc_Ok s' \<and> cap_inv s')"
proof -
  let ?s = "lzss_put_symbol data (lzss_find data s) s"
  let ?ts = "ts @ [best_tok data (enc_pos s) (lzss_find data s)]"
  have "enc_inv data ?s gs ?ts"
    using assms lzss_find_ok [of s] by (intro lzss_put_symbol_inv) (auto simp: enc_inv_def)
  from lzss_flush_returns [OF this, of grow] assms(3-5) show ?thesis
    by (auto simp: lzss_enc_step_def Let_def cap_inv_def)
qed

lemma lzss_enc_loop_returns:
  assumes "enc_inv data s gs ts" and "length ts < 8" and "length data \<le> 2 ^ 30" and "cap_inv s"
  shows "lzss_enc_loop grow data s = Enc_No_Memory \<and> (\<exists>n. \<not> grow n) \<or>
    (\<exists>s'. lzss_enc_loop grow data s = Enc_Ok s' \<and> cap_inv s')"
  using assms
proof (induction grow data s arbitrary: gs ts rule: lzss_enc_loop.induct)
  case (1 grow data s)
  show ?case
  proof (cases "enc_pos s < length data")
    case True
    note eq = lzss_enc_loop.simps [of grow data s]
    from lzss_enc_step_returns [OF "1.prems"(1) True "1.prems"(3,2,4), of grow] show ?thesis
    proof
      assume "lzss_enc_step grow data s = Enc_No_Memory \<and> (\<exists>n. \<not> grow n)"
      then show ?thesis using True by (simp add: eq)
    next
      assume "\<exists>s'. lzss_enc_step grow data s = Enc_Ok s' \<and> cap_inv s'"
      then obtain s1 where s1: "lzss_enc_step grow data s = Enc_Ok s1" "cap_inv s1" by blast
      obtain gs1 ts1 where "enc_inv data s1 gs1 ts1" "length ts1 < 8"
        using lzss_enc_step_inv [OF "1.prems"(1) True _ "1.prems"(2) s1(1)] "1.prems"(3) by auto
      with "1.IH" [OF True s1(1)] "1.prems"(3) s1(2) show ?thesis using True s1(1) by (simp add: eq)
    qed
  next
    case False
    then show ?thesis using "1.prems"(4) by (simp add: lzss_enc_loop.simps [of grow data s])
  qed
qed

lemma lzss_compress_returns:
  assumes "data \<noteq> []" and len: "length data \<le> 2 ^ 30"
  shows "lzss_compress True True grow (Some data) True = Enc_Ok None \<and> (\<exists>n. \<not> grow n) \<or>
    (\<exists>out. lzss_compress True True grow (Some data) True = Enc_Ok (Some out))"
proof -
  have cap0: "cap_inv lzss_enc_init" by (simp add: cap_inv_def lzss_enc_init_def)
  from lzss_enc_loop_returns [OF enc_inv_init _ len cap0, of grow]
  consider "lzss_enc_loop grow data lzss_enc_init = Enc_No_Memory" "\<exists>n. \<not> grow n"
    | s where "lzss_enc_loop grow data lzss_enc_init = Enc_Ok s" "cap_inv s" by auto
  then show ?thesis
  proof cases
    case 1
    then show ?thesis using assms(1) by (simp add: lzss_compress_def)
  next
    case (2 s)
    obtain gs ts where "enc_inv data s gs ts" "length ts < 8"
      using lzss_enc_loop_inv [OF 2(1) enc_inv_init] len by auto
    then show ?thesis
      using lzss_flush_returns [of data s gs ts grow] 2 len assms(1)
      by (auto simp: lzss_compress_def)
  qed
qed

lemma lzss_grow_cap_stuck: "0 < needed \<Longrightarrow> lzss_grow_cap needed 0 = None"
proof (rule ccontr)
  assume pos: "0 < needed" and "lzss_grow_cap needed 0 \<noteq> None"
  then obtain r where ret: "lzss_grow_cap needed 0 = Some r" by blast
  have "(0::nat) = 0 \<longrightarrow> needed = 0"
  proof (rule lzss_grow_cap.raw_induct [where P = "\<lambda>n c r. c = 0 \<longrightarrow> n = 0", OF _ ret])
    fix f n c r
    assume IH: "\<And>n c r. f n c = Some r \<Longrightarrow> c = 0 \<longrightarrow> n = 0"
      and eq: "(if c < n then f n (w32 (c * 2)) else Some c) = Some r"
    show "c = 0 \<longrightarrow> n = 0" 
    proof
      assume "c = 0"
      then show "n = 0" using IH [of n 0 r] eq by (cases n) (auto simp: w32_def)
    qed
  qed
  then show False using pos by simp
qed

section \<open>Properties\<close>

text \<open>
  C1. Round trip of the codec: whatever \<^verbatim>\<open>lzss_compress\<close> returns for a buffer of less than two
  gigabytes, \<^verbatim>\<open>lzss_decompress\<close> turns back into that buffer, for every output buffer that is large
  enough and whatever stale bytes the decoder's ring holds.
\<close>

theorem lzss_roundtrip:
  assumes "lzss_compress out_ok tables_ok' grow (Some data) True = Enc_Ok (Some out)"
    and "length data < 2 ^ 31" and "length data \<le> cap" and "length ring = LZSS_N + LZSS_F - 1"
  shows "lzss_decompress (Some ring) (Some out) (Some cap) = (length data, data)"
proof -
  have len: "length data < 2 ^ 32" and ne: "data \<noteq> []"
    using assms(1,2) by (auto simp: lzss_compress_def)
  obtain gs where gs: "gs \<noteq> []" "groups_ok gs" "out = concat (map group_bytes gs)"
    "toks_valid [] (concat (map snd gs))" "toks_apply [] (concat (map snd gs)) = data"
    using lzss_compress_groups [OF assms(1) len] by blast
  have "length out < 2 ^ 32" using lzss_compress_size [OF assms(1) len] assms(2) by simp
  then show ?thesis
    using lzss_decompress_groups [OF gs(1,2,4,3) _ gs(5) [symmetric], of cap ring] assms(3,4) ne
    by (cases data) (simp_all add: lzss_consts)
qed


theorem lzss_roundtrip_witness:
  "\<exists>out. lzss_compress True True (\<lambda>_. True) (Some [1, 2, 3, 1, 2, 3, 1, 2, 3]) True = Enc_Ok (Some out)
     \<and> lzss_decompress (Some (replicate 4113 7)) (Some out) (Some 16)
         = (9, [1, 2, 3, 1, 2, 3, 1, 2, 3])"
proof -
  obtain out where
    c: "lzss_compress True True (\<lambda>_. True) (Some [1, 2, 3, 1, 2, 3, 1, 2, 3]) True = Enc_Ok (Some out)"
    using lzss_compress_returns [of "[1, 2, 3, 1, 2, 3, 1, 2, 3]" "\<lambda>_. True"] by auto
  show ?thesis using c lzss_roundtrip [OF c, of 16 "replicate 4113 7"] by (simp add: lzss_consts)
qed

text \<open>
  C34. The compressor returns: on every buffer of at most a gigabyte the search loops, the capacity
  doubling and the main loop end, and the result is a compressed buffer unless the heap refused one.
\<close>

theorem lzss_compress_total:
  assumes "data \<noteq> []" and "length data \<le> 2 ^ 30"
  shows "lzss_compress out_ok tables_ok' grow (Some data) True \<noteq> Enc_Diverges \<and>
    (out_ok \<and> tables_ok' \<and> (\<forall>n. grow n) \<longrightarrow>
      (\<exists>out. lzss_compress out_ok tables_ok' grow (Some data) True = Enc_Ok (Some out)))"
proof (cases "out_ok \<and> tables_ok'")
  case True
  then show ?thesis using lzss_compress_returns [OF assms, of grow] by auto
qed (auto simp: lzss_compress_def)

theorem lzss_compress_total_witness:
  "lzss_compress True True (\<lambda>n. n = 0) (Some (replicate 1000 7)) True \<noteq> Enc_Diverges
   \<and> (\<exists>out. lzss_compress True True (\<lambda>_. True) (Some (replicate 1000 7)) True = Enc_Ok (Some out))"
  using lzss_compress_total [of "replicate 1000 7" True True "\<lambda>n. n = 0"]
    lzss_compress_total [of "replicate 1000 7" True True "\<lambda>_. True"] by simp

text \<open>
  C36. Bound on the compressed size: at most one flag byte for every eight bytes of input is added, so
  a buffer of nine eighths of the input (rounded up) always suffices.
\<close>

theorem lzss_compress_bound:
  assumes "lzss_compress out_ok tables_ok' grow (Some data) True = Enc_Ok (Some out)"
    and "length data < 2 ^ 32"
  shows "length out \<le> length data + (length data + 7) div 8"
  using lzss_compress_size [OF assms] by linarith

theorem lzss_compress_bound_witness:
  "\<exists>out. lzss_compress True True (\<lambda>_. True) (Some [1, 2, 3, 1, 2, 3, 1, 2, 3]) True = Enc_Ok (Some out)
     \<and> length out \<le> 11"
proof -
  obtain out where
    c: "lzss_compress True True (\<lambda>_. True) (Some [1, 2, 3, 1, 2, 3, 1, 2, 3]) True = Enc_Ok (Some out)"
    using lzss_compress_returns [of "[1, 2, 3, 1, 2, 3, 1, 2, 3]" "\<lambda>_. True"] by auto
  show ?thesis using c lzss_compress_bound [OF c] by auto
qed

end
