(* ===== verification/Pmm.thy ===== *)
theory Pmm
  imports Prelude
begin

text \<open>
  The physical page manager, \<^verbatim>\<open>src/impl/pmm.c\<close>: a bitmap over the pages of one pool, first-fit
  allocation of zeroed runs of pages, and freeing with a check for foreign pointers and double
  frees. The model keeps the bitmap as the array of 64-bit words the code has, and the pool's
  memory as a byte map, since allocation zeroes pages and freeing scrubs them. The spinlock
  makes every operation atomic, so each is one function on the state; the serial messages are
  left out.
\<close>

section \<open>State\<close>

record pmm =
  page_pool_base :: nat
  page_pool_pages :: nat
  page_bitmap :: "u64 list"
  phys :: "nat \<Rightarrow> u8"

definition PAGE_SIZE :: nat where "PAGE_SIZE = 4096"
definition PMM_MAX_PAGES :: nat where "PMM_MAX_PAGES = 16384"
definition BITMAP_WORDS :: nat where "BITMAP_WORDS = (PMM_MAX_PAGES + 63) div 64"

lemmas pmm_consts = PAGE_SIZE_def PMM_MAX_PAGES_def BITMAP_WORDS_def

section \<open>Bitmap\<close>

definition pmm_mark_used :: "nat \<Rightarrow> pmm \<Rightarrow> pmm" where
  "pmm_mark_used idx s =
     s\<lparr>page_bitmap := (page_bitmap s)[idx div 64 :=
         page_bitmap s ! (idx div 64) OR push_bit (idx mod 64) 1]\<rparr>"

definition pmm_mark_free :: "nat \<Rightarrow> pmm \<Rightarrow> pmm" where
  "pmm_mark_free idx s =
     s\<lparr>page_bitmap := (page_bitmap s)[idx div 64 :=
         page_bitmap s ! (idx div 64) AND NOT (push_bit (idx mod 64) 1)]\<rparr>"

definition pmm_is_free :: "pmm \<Rightarrow> nat \<Rightarrow> bool" where
  "pmm_is_free s idx = (page_bitmap s ! (idx div 64) AND push_bit (idx mod 64) 1 = 0)"

definition pmm_idx_to_ptr :: "pmm \<Rightarrow> nat \<Rightarrow> nat" where
  "pmm_idx_to_ptr s idx = w64 (page_pool_base s + idx * PAGE_SIZE)"

definition pmm_ptr_to_idx :: "pmm \<Rightarrow> nat \<Rightarrow> nat" where
  "pmm_ptr_to_idx s addr =
     (if addr < page_pool_base s then PMM_MAX_PAGES
      else let idx = (addr - page_pool_base s) div PAGE_SIZE in
        if page_pool_pages s \<le> idx then PMM_MAX_PAGES
        else if (addr - page_pool_base s) mod PAGE_SIZE \<noteq> 0 then PMM_MAX_PAGES
        else idx)"

section \<open>Operations\<close>

text \<open>\<^const>\<open>None\<close> is a kernel panic, here and in the allocating operations.\<close>

definition pmm_init :: "nat \<Rightarrow> nat \<Rightarrow> pmm \<Rightarrow> pmm option" where
  "pmm_init base sz s =
     (if base AND (PAGE_SIZE - 1) \<noteq> 0 then None
      else if PMM_MAX_PAGES < sz div PAGE_SIZE then None
      else Some (s\<lparr>page_pool_base := base, page_pool_pages := sz div PAGE_SIZE,
                   page_bitmap := replicate BITMAP_WORDS 0\<rparr>))"

text \<open>The search loop of \<^verbatim>\<open>pmm_try_alloc_pages_zeroed\<close>, with its three variables.\<close>

function pmm_scan :: "pmm \<Rightarrow> nat \<Rightarrow> nat \<Rightarrow> nat \<Rightarrow> nat \<Rightarrow> nat \<times> nat" where
  "pmm_scan s count i run_start run_len =
     (if i < page_pool_pages s then
        if pmm_is_free s i then
          let run_start' = (if run_len = 0 then i else run_start); run_len' = run_len + 1 in
          if run_len' = count then (run_start', run_len')
          else pmm_scan s count (i + 1) run_start' run_len'
        else pmm_scan s count (i + 1) PMM_MAX_PAGES 0
      else (run_start, run_len))"
  by pat_completeness auto
termination
  by (relation "measure (\<lambda>(s, count, i, run_start, run_len). page_pool_pages s - i)") auto

declare pmm_scan.simps [simp del]

fun pmm_mark_run :: "nat \<Rightarrow> nat \<Rightarrow> pmm \<Rightarrow> pmm" where
  "pmm_mark_run start 0 s = s"
| "pmm_mark_run start (Suc n) s = pmm_mark_run (Suc start) n (pmm_mark_used start s)"

text \<open>The result is the address of the run, \<open>0\<close> for NULL; \<open>rsp\<close> is the stack pointer of the caller.\<close>

definition pmm_try_alloc_pages_zeroed :: "nat \<Rightarrow> nat \<Rightarrow> pmm \<Rightarrow> nat \<times> pmm" where
  "pmm_try_alloc_pages_zeroed rsp count s =
     (if count = 0 \<or> page_pool_pages s < count then (0, s)
      else let (run_start, run_len) = pmm_scan s count 0 PMM_MAX_PAGES 0 in
        if run_len < count \<or> run_start = PMM_MAX_PAGES then (0, s)
        else let page_start = w64 (page_pool_base s + run_start * PAGE_SIZE);
                 page_end = w64 (page_start + count * PAGE_SIZE) in
          if page_start \<le> rsp \<and> rsp < page_end then (0, s)
          else let s' = pmm_mark_run run_start count s; pages = pmm_idx_to_ptr s' run_start in
            (pages, s'\<lparr>phys := memset pages 0 (count * PAGE_SIZE) (phys s')\<rparr>))"

definition alloc_page_zeroed :: "nat \<Rightarrow> pmm \<Rightarrow> (nat \<times> pmm) option" where
  "alloc_page_zeroed rsp s =
     (let (page, s') = pmm_try_alloc_pages_zeroed rsp 1 s in
      if page = 0 then None else Some (page, s'))"

definition alloc_pages_zeroed :: "nat \<Rightarrow> nat \<Rightarrow> pmm \<Rightarrow> (nat \<times> pmm) option" where
  "alloc_pages_zeroed rsp count s =
     (if count = 0 then Some (0, s)
      else let (pages, s') = pmm_try_alloc_pages_zeroed rsp count s in
        if pages = 0 then None else Some (pages, s'))"

definition free_page :: "nat \<Rightarrow> pmm \<Rightarrow> pmm" where
  "free_page page s =
     (if page = 0 then s
      else let idx = pmm_ptr_to_idx s page in
        if idx = PMM_MAX_PAGES then s
        else if pmm_is_free s idx then s
        else pmm_mark_free idx (s\<lparr>phys := memset page 0xCC PAGE_SIZE (phys s)\<rparr>))"

text \<open>The loop of \<^verbatim>\<open>free_pages\<close>: \<open>n\<close> pages are still to go, from index \<open>i\<close>.\<close>

fun free_pages_loop :: "nat \<Rightarrow> nat \<Rightarrow> nat \<Rightarrow> pmm \<Rightarrow> pmm" where
  "free_pages_loop base i 0 s = s"
| "free_pages_loop base i (Suc n) s =
     free_pages_loop base (Suc i) n (free_page (w64 (base + i * PAGE_SIZE)) s)"

definition free_pages :: "nat \<Rightarrow> nat \<Rightarrow> pmm \<Rightarrow> pmm" where
  "free_pages base count s = (if base = 0 \<or> count = 0 then s else free_pages_loop base 0 count s)"

definition pmm_free_pages :: "pmm \<Rightarrow> nat" where
  "pmm_free_pages s = length (filter (pmm_is_free s) [0..<page_pool_pages s])"

definition pmm_used_pages :: "pmm \<Rightarrow> nat" where
  "pmm_used_pages s = page_pool_pages s - pmm_free_pages s"

text \<open>
  The page-at-a-time allocator of the DMA drivers: later pages are allocated one by one with no
  promise that they follow each other. A failing \<^const>\<open>alloc_page_zeroed\<close> panics, so the clean-up
  branch of the source is never entered.
\<close>

fun alloc_simple_loop :: "nat \<Rightarrow> nat \<Rightarrow> pmm \<Rightarrow> pmm option" where
  "alloc_simple_loop rsp 0 s = Some s"
| "alloc_simple_loop rsp (Suc n) s =
     (case alloc_page_zeroed rsp s of
        None \<Rightarrow> None
      | Some (next_page, s') \<Rightarrow> alloc_simple_loop rsp n s')"

definition alloc_pages_zeroed_simple :: "nat \<Rightarrow> nat \<Rightarrow> pmm \<Rightarrow> (nat \<times> pmm) option" where
  "alloc_pages_zeroed_simple rsp num_pages s =
     (if num_pages = 0 then Some (0, s)
      else case alloc_page_zeroed rsp s of
        None \<Rightarrow> None
      | Some (first, s') \<Rightarrow>
          (case alloc_simple_loop rsp (num_pages - 1) s' of
             None \<Rightarrow> None
           | Some s'' \<Rightarrow> Some (first, s'')))"

fun free_simple_loop :: "nat \<Rightarrow> nat \<Rightarrow> nat \<Rightarrow> pmm \<Rightarrow> pmm" where
  "free_simple_loop ptr i 0 s = s"
| "free_simple_loop ptr i (Suc n) s =
     free_simple_loop ptr (Suc i) n (free_page (w64 (ptr + w32 (i * 0x1000))) s)"

definition free_pages_simple :: "nat \<Rightarrow> nat \<Rightarrow> pmm \<Rightarrow> pmm" where
  "free_pages_simple ptr num_pages s =
     (if ptr = 0 \<or> num_pages = 0 then s else free_simple_loop ptr 0 num_pages s)"

section \<open>Invariant and the set of used pages\<close>

definition pmm_inv :: "pmm \<Rightarrow> bool" where
  "pmm_inv s \<longleftrightarrow> length (page_bitmap s) = BITMAP_WORDS \<and> page_pool_pages s \<le> PMM_MAX_PAGES \<and>
     0 < page_pool_base s \<and> page_pool_base s mod PAGE_SIZE = 0 \<and>
     page_pool_base s + page_pool_pages s * PAGE_SIZE < 2 ^ 64"

text \<open>The pages in use and the pool, as sets of page addresses.\<close>

definition page_at :: "pmm \<Rightarrow> nat \<Rightarrow> nat" where
  "page_at s idx = page_pool_base s + idx * PAGE_SIZE"

definition pool_pages :: "pmm \<Rightarrow> nat set" where
  "pool_pages s = page_at s ` {..<page_pool_pages s}"

definition used_pages :: "pmm \<Rightarrow> nat set" where
  "used_pages s = page_at s ` {i. i < page_pool_pages s \<and> \<not> pmm_is_free s i}"

definition run_pages :: "nat \<Rightarrow> nat \<Rightarrow> nat set" where
  "run_pages p n = (\<lambda>i. p + i * PAGE_SIZE) ` {..<n}"

section \<open>Bitmap lemmas\<close>

lemma bit_word_set: "(w OR push_bit k (1 :: u64)) AND push_bit j 1 = 0
    \<longleftrightarrow> (k < 64 \<longrightarrow> j \<noteq> k) \<and> w AND push_bit j 1 = 0" if "j < 64"
  using that by (auto simp: push_bit_of_1 and_exp_eq_0_iff_not_bit bit_simps)

lemma bit_word_clear: "(w AND NOT (push_bit k (1 :: u64))) AND push_bit j 1 = 0
    \<longleftrightarrow> j = k \<or> w AND push_bit j 1 = 0" if "j < 64"
  using that by (auto simp: push_bit_of_1 and_exp_eq_0_iff_not_bit bit_simps)

lemma div_mod_64_eq: "i div 64 = j div 64 \<Longrightarrow> i mod 64 = j mod 64 \<Longrightarrow> i = (j::nat)"
  by (metis div_mult_mod_eq)

lemma pmm_is_free_mark_used:
  assumes "i < 64 * length (page_bitmap s)" and "j < 64 * length (page_bitmap s)"
  shows "pmm_is_free (pmm_mark_used i s) j \<longleftrightarrow> j \<noteq> i \<and> pmm_is_free s j"
proof (cases "i div 64 = j div 64")
  case True
  moreover have "j div 64 < length (page_bitmap s)" using assms by (simp add: less_mult_imp_div_less mult.commute)
  moreover have "i mod 64 = j mod 64 \<longleftrightarrow> i = j" using True div_mod_64_eq [of i j] by blast
  ultimately show ?thesis
    using bit_word_set [of "j mod 64" "page_bitmap s ! (j div 64)" "i mod 64"]
    by (auto simp: pmm_is_free_def pmm_mark_used_def)
next
  case False
  then show ?thesis by (auto simp: pmm_is_free_def pmm_mark_used_def)
qed

lemma pmm_is_free_mark_free:
  assumes "i < 64 * length (page_bitmap s)" and "j < 64 * length (page_bitmap s)"
  shows "pmm_is_free (pmm_mark_free i s) j \<longleftrightarrow> j = i \<or> pmm_is_free s j"
proof (cases "i div 64 = j div 64")
  case True
  moreover have "j div 64 < length (page_bitmap s)" using assms by (simp add: less_mult_imp_div_less mult.commute)
  moreover have "i mod 64 = j mod 64 \<longleftrightarrow> i = j" using True div_mod_64_eq [of i j] by blast
  ultimately show ?thesis
    using bit_word_clear [of "j mod 64" "page_bitmap s ! (j div 64)" "i mod 64"]
    by (auto simp: pmm_is_free_def pmm_mark_free_def)
next
  case False
  then show ?thesis by (auto simp: pmm_is_free_def pmm_mark_free_def)
qed

lemma pmm_mark_simps [simp]:
  "page_pool_base (pmm_mark_used i s) = page_pool_base s"
  "page_pool_pages (pmm_mark_used i s) = page_pool_pages s"
  "length (page_bitmap (pmm_mark_used i s)) = length (page_bitmap s)"
  "phys (pmm_mark_used i s) = phys s"
  "page_pool_base (pmm_mark_free i s) = page_pool_base s"
  "page_pool_pages (pmm_mark_free i s) = page_pool_pages s"
  "length (page_bitmap (pmm_mark_free i s)) = length (page_bitmap s)"
  "phys (pmm_mark_free i s) = phys s"
  by (simp_all add: pmm_mark_used_def pmm_mark_free_def)

lemma pmm_mark_run_simps [simp]:
  "page_pool_base (pmm_mark_run i n s) = page_pool_base s"
  "page_pool_pages (pmm_mark_run i n s) = page_pool_pages s"
  "length (page_bitmap (pmm_mark_run i n s)) = length (page_bitmap s)"
  "phys (pmm_mark_run i n s) = phys s"
  by (induction i n s rule: pmm_mark_run.induct) simp_all

lemma pmm_is_free_mark_run:
  assumes "i + n \<le> 64 * length (page_bitmap s)" and "j < 64 * length (page_bitmap s)"
  shows "pmm_is_free (pmm_mark_run i n s) j \<longleftrightarrow> \<not> (i \<le> j \<and> j < i + n) \<and> pmm_is_free s j"
  using assms
  by (induction i n s rule: pmm_mark_run.induct) (auto simp: pmm_is_free_mark_used)

lemma pmm_is_free_phys [simp]: "pmm_is_free (s\<lparr>phys := m\<rparr>) = pmm_is_free s"
  by (rule ext) (simp add: pmm_is_free_def)

lemma pmm_inv_phys [simp]: "pmm_inv (s\<lparr>phys := m\<rparr>) = pmm_inv s"
  by (simp add: pmm_inv_def)

lemma pmm_inv_mark [simp]:
  "pmm_inv (pmm_mark_free i s) = pmm_inv s" "pmm_inv (pmm_mark_run i n s) = pmm_inv s"
  by (simp_all add: pmm_inv_def)

lemma pmm_inv_bits: "pmm_inv s \<Longrightarrow> i < page_pool_pages s \<Longrightarrow> i < 64 * length (page_bitmap s)"
  by (simp add: pmm_inv_def pmm_consts)

lemma page_at_inj: "page_at s i = page_at s j \<longleftrightarrow> i = j"
  by (simp add: page_at_def pmm_consts)

section \<open>First fit\<close>

definition run_fits :: "pmm \<Rightarrow> nat \<Rightarrow> nat \<Rightarrow> bool" where
  "run_fits s count k \<longleftrightarrow>
     k + count \<le> page_pool_pages s \<and> (\<forall>j \<in> {k..<k + count}. pmm_is_free s j)"

lemma run_fits_not:
  "run_fits s count k \<Longrightarrow> k \<le> j \<Longrightarrow> j < k + count \<Longrightarrow> pmm_is_free s j"
  "run_fits s count k \<Longrightarrow> k + count \<le> page_pool_pages s"
  by (auto simp: run_fits_def)

lemma pmm_scan_first_fit:
  assumes "pmm_scan s count i run_start run_len = (rs, rl)"
    and "run_len < count" and "run_len \<le> i" and "0 < run_len \<Longrightarrow> run_start = i - run_len"
    and "\<forall>j \<in> {i - run_len..<i}. pmm_is_free s j" and "i \<le> page_pool_pages s"
    and "\<forall>k < i - run_len. \<not> run_fits s count k"
  shows "rl = count \<and> run_fits s count rs \<and> (\<forall>k < rs. \<not> run_fits s count k) \<or>
    rl < count \<and> (\<forall>k. \<not> run_fits s count k)"
  using assms
proof (induction s count i run_start run_len rule: pmm_scan.induct)
  case (1 s count i run_start run_len)
  note eq = "1.prems"(1) [unfolded pmm_scan.simps [of s count i]]
  consider "page_pool_pages s \<le> i" | "i < page_pool_pages s" "\<not> pmm_is_free s i"
    | "i < page_pool_pages s" "pmm_is_free s i" "run_len + 1 = count"
    | "i < page_pool_pages s" "pmm_is_free s i" "run_len + 1 \<noteq> count"
    by linarith
  then show ?case
  proof cases
    case 1
    have "\<not> run_fits s count k" for k
      using "1.prems" 1 run_fits_not(2) [of s count k] by (cases "k < i - run_len") auto
    then show ?thesis using eq 1 "1.prems"(2) by simp
  next
    case 2
    have "\<not> run_fits s count k" if "k < i + 1" for k
    proof (cases "k < i - run_len")
      case False
      then have "i < k + count" using "1.prems"(2) by linarith
      then show ?thesis using 2 that run_fits_not(1) [of s count k i] by auto
    qed (use "1.prems"(7) in simp)
    with "1.IH"(2) [OF 2] eq 2 "1.prems"(2) show ?thesis by simp
  next
    case 3
    have rs: "rs = i - run_len" "rl = count" using eq 3 "1.prems"(4) by (auto split: if_splits)
    moreover have "run_fits s count (i - run_len)"
      unfolding run_fits_def using "1.prems"(3,5) 3 by (auto simp: less_Suc_eq)
    ultimately show ?thesis using "1.prems"(7) by simp
  next
    case 4
    have fr: "\<forall>j \<in> {i - run_len..<i + 1}. pmm_is_free s j"
      using "1.prems"(5) 4 by (auto simp: less_Suc_eq)
    have st: "(if run_len = 0 then i else run_start) = i - run_len"
      using "1.prems"(4) by auto
    have sc: "pmm_scan s count (i + 1) (i - run_len) (run_len + 1) = (rs, rl)"
      using eq 4 unfolding st Let_def by simp
    show ?thesis
      by (rule "1.IH"(1) [OF 4(1,2) refl refl 4(3), unfolded st, OF sc])
        (use fr 4 "1.prems"(2,3,7) in simp_all)
  qed
qed

lemma pmm_scan_start:
  assumes "pmm_scan s count 0 PMM_MAX_PAGES 0 = (rs, rl)" and "0 < count"
  shows "rl = count \<and> run_fits s count rs \<and> (\<forall>k < rs. \<not> run_fits s count k) \<or>
    rl < count \<and> (\<forall>k. \<not> run_fits s count k)"
  using pmm_scan_first_fit [OF assms(1)] assms(2) by simp

section \<open>The operations on the set of used pages\<close>

lemma page_at_less: "pmm_inv s \<Longrightarrow> i < page_pool_pages s \<Longrightarrow> page_at s i + PAGE_SIZE < 2 ^ 64"
  by (auto simp: pmm_inv_def page_at_def pmm_consts)

lemma pmm_idx_to_ptr_eq: "pmm_inv s \<Longrightarrow> i < page_pool_pages s \<Longrightarrow> pmm_idx_to_ptr s i = page_at s i"
  using page_at_less [of s i] by (simp add: pmm_idx_to_ptr_def page_at_def wrap)

lemma pmm_ptr_to_idx_page_at [simp]: "i < page_pool_pages s \<Longrightarrow> pmm_ptr_to_idx s (page_at s i) = i"
  by (simp add: pmm_ptr_to_idx_def page_at_def pmm_consts Let_def)

lemma pmm_ptr_to_idx_valid:
  assumes "pmm_ptr_to_idx s p \<noteq> PMM_MAX_PAGES"
  shows "pmm_ptr_to_idx s p < page_pool_pages s \<and> p = page_at s (pmm_ptr_to_idx s p)"
  using assms div_mult_mod_eq [of "p - page_pool_base s" PAGE_SIZE]
  by (auto simp: pmm_ptr_to_idx_def page_at_def Let_def not_le split: if_splits)

lemma run_pages_page_at: "run_pages (page_at s k) n = page_at s ` {k..<k + n}"
proof -
  have "{k..<k + n} = (+) k ` {..<n}"
    by (simp add: lessThan_atLeast0 image_add_atLeastLessThan add.commute)
  then show ?thesis
    by (simp add: run_pages_def page_at_def image_image algebra_simps)
qed

lemma used_pages_alloc:
  assumes "pmm_inv s" and "run_fits s n k"
  shows "used_pages (pmm_mark_run k n s) = used_pages s \<union> run_pages (page_at s k) n"
    and "run_pages (page_at s k) n \<subseteq> pool_pages s"
    and "run_pages (page_at s k) n \<inter> used_pages s = {}"
proof -
  have fit: "k + n \<le> 64 * length (page_bitmap s)" "k + n \<le> page_pool_pages s"
    using assms by (auto simp: pmm_inv_def run_fits_def pmm_consts)
  have at: "page_at (pmm_mark_run k n s) = page_at s" by (rule ext) (simp add: page_at_def)
  have "{i. i < page_pool_pages s \<and> \<not> pmm_is_free (pmm_mark_run k n s) i} =
      {i. i < page_pool_pages s \<and> \<not> pmm_is_free s i} \<union> {k..<k + n}"
    using fit pmm_inv_bits [OF assms(1)] by (auto simp: pmm_is_free_mark_run)
  then show "used_pages (pmm_mark_run k n s) = used_pages s \<union> run_pages (page_at s k) n"
    by (simp add: used_pages_def run_pages_page_at at image_Un)
  show "run_pages (page_at s k) n \<subseteq> pool_pages s"
    using fit by (auto simp: run_pages_page_at pool_pages_def)
  show "run_pages (page_at s k) n \<inter> used_pages s = {}"
    using assms(2) by (auto simp: run_pages_page_at used_pages_def page_at_inj run_fits_def)
qed

lemma pmm_try_alloc_result:
  assumes inv: "pmm_inv s" and eq: "pmm_try_alloc_pages_zeroed rsp n s = (p, s')"
  shows "p = 0 \<and> s' = s \<or>
    (\<exists>k. 0 < n \<and> run_fits s n k \<and> (\<forall>j < k. \<not> run_fits s n j) \<and> p = page_at s k \<and> 0 < p \<and>
       s' = (pmm_mark_run k n s)\<lparr>phys := memset p 0 (n * PAGE_SIZE) (phys s)\<rparr>)"
proof -
  obtain rs rl where scan: "pmm_scan s n 0 PMM_MAX_PAGES 0 = (rs, rl)" by fastforce
  show ?thesis
  proof (cases "p = 0 \<and> s' = s")
    case False
    then have n: "0 < n" and rl: "\<not> rl < n" using eq scan
      by (auto simp: pmm_try_alloc_pages_zeroed_def Let_def split: if_splits)
    then have fit: "run_fits s n rs" "\<forall>k < rs. \<not> run_fits s n k"
      using pmm_scan_start [OF scan n] by auto
    then have "rs < page_pool_pages s" using n by (auto simp: run_fits_def)
    then have "pmm_idx_to_ptr s rs = page_at s rs" by (rule pmm_idx_to_ptr_eq [OF inv])
    moreover have "pmm_idx_to_ptr (pmm_mark_run rs n s) rs = pmm_idx_to_ptr s rs"
      by (simp add: pmm_idx_to_ptr_def)
    moreover have "0 < page_at s rs" using inv by (simp add: page_at_def pmm_inv_def)
    ultimately show ?thesis using False eq scan fit n
      by (auto simp: pmm_try_alloc_pages_zeroed_def Let_def split: if_splits)
  qed simp
qed

lemma free_page_used:
  assumes "pmm_inv s" and "p \<in> used_pages s"
  shows "free_page p s = pmm_mark_free (pmm_ptr_to_idx s p) (s\<lparr>phys := memset p 0xCC PAGE_SIZE (phys s)\<rparr>)"
    and "used_pages (free_page p s) = used_pages s - {p}"
proof -
  obtain i where i: "p = page_at s i" "i < page_pool_pages s" "\<not> pmm_is_free s i"
    using assms(2) by (auto simp: used_pages_def)
  have ne: "i \<noteq> PMM_MAX_PAGES" "p \<noteq> 0" using assms(1) i by (auto simp: pmm_inv_def page_at_def)
  show eq: "free_page p s = pmm_mark_free (pmm_ptr_to_idx s p) (s\<lparr>phys := memset p 0xCC PAGE_SIZE (phys s)\<rparr>)"
    using i ne by (simp add: free_page_def Let_def)
  have at: "page_at (free_page p s) = page_at s" by (rule ext) (simp add: page_at_def eq)
  have "{j. j < page_pool_pages s \<and> \<not> pmm_is_free (free_page p s) j} =
     {j. j < page_pool_pages s \<and> \<not> pmm_is_free s j} - {i}"
    using i(2) pmm_inv_bits [OF assms(1)] unfolding eq unfolding i(1)
    by (auto simp: pmm_is_free_mark_free)
  moreover have "page_pool_pages (free_page p s) = page_pool_pages s" by (simp add: eq)
  moreover have "inj (page_at s)" by (simp add: inj_def page_at_inj)
  ultimately show "used_pages (free_page p s) = used_pages s - {p}"
    unfolding used_pages_def at by (simp add: image_set_diff i(1))
qed

lemma free_page_simps [simp]:
  "page_pool_base (free_page p s) = page_pool_base s"
  "page_pool_pages (free_page p s) = page_pool_pages s"
  "pmm_inv (free_page p s) = pmm_inv s"
  by (simp_all add: free_page_def Let_def)

lemma free_pages_loop_used:
  assumes "pmm_inv s" and "(\<lambda>j. base + j * PAGE_SIZE) ` {i..<i + n} \<subseteq> used_pages s"
  shows "pmm_inv (free_pages_loop base i n s) \<and>
    used_pages (free_pages_loop base i n s) = used_pages s - (\<lambda>j. base + j * PAGE_SIZE) ` {i..<i + n} \<and>
    pool_pages (free_pages_loop base i n s) = pool_pages s"
  using assms
proof (induction n arbitrary: i s)
  case (Suc n)
  let ?p = "base + i * PAGE_SIZE"
  have p: "?p \<in> used_pages s" using Suc.prems(2) by (auto simp: image_subset_iff)
  then obtain k where "?p = page_at s k" "k < page_pool_pages s" by (auto simp: used_pages_def)
  then have w: "w64 ?p = ?p" using page_at_less [OF Suc.prems(1), of k] by (simp add: wrap)
  let ?s = "free_page ?p s"
  have split: "{i..<i + Suc n} = insert i {Suc i..<Suc i + n}" by auto
  have "(\<lambda>j. base + j * PAGE_SIZE) ` {Suc i..<Suc i + n} \<subseteq> used_pages ?s"
    using Suc.prems unfolding free_page_used(2) [OF Suc.prems(1) p] by (auto simp: pmm_consts)
  moreover have "pool_pages ?s = pool_pages s" by (auto simp: pool_pages_def page_at_def)
  ultimately show ?case
    using Suc.IH [of ?s "Suc i"] Suc.prems(1) free_page_used(2) [OF Suc.prems(1) p]
    unfolding split by (auto simp: w)
qed auto

section \<open>Interface\<close>

text \<open>
  What the clients of a page allocator rely on: a successful request hands out pages of the pool
  nobody holds, and a release of pages in use makes exactly those free again.
\<close>

locale page_allocator =
  fixes try_alloc :: "nat \<Rightarrow> nat \<Rightarrow> 's \<Rightarrow> nat \<times> 's"
    and release :: "nat \<Rightarrow> nat \<Rightarrow> 's \<Rightarrow> 's"
    and inv :: "'s \<Rightarrow> bool"
    and pool :: "'s \<Rightarrow> nat set"
    and used :: "'s \<Rightarrow> nat set"
  assumes alloc_fails: "inv s \<Longrightarrow> try_alloc rsp n s = (0, s') \<Longrightarrow> s' = s"
    and alloc_inv: "inv s \<Longrightarrow> try_alloc rsp n s = (p, s') \<Longrightarrow> inv s'"
    and alloc_pool: "inv s \<Longrightarrow> try_alloc rsp n s = (p, s') \<Longrightarrow> pool s' = pool s"
    and alloc_fresh: "inv s \<Longrightarrow> try_alloc rsp n s = (p, s') \<Longrightarrow> 0 < p \<Longrightarrow>
      run_pages p n \<subseteq> pool s - used s"
    and alloc_used: "inv s \<Longrightarrow> try_alloc rsp n s = (p, s') \<Longrightarrow> 0 < p \<Longrightarrow>
      used s' = used s \<union> run_pages p n"
    and release_inv: "inv s \<Longrightarrow> 0 < p \<Longrightarrow> run_pages p n \<subseteq> used s \<Longrightarrow> inv (release p n s)"
    and release_pool: "inv s \<Longrightarrow> 0 < p \<Longrightarrow> run_pages p n \<subseteq> used s \<Longrightarrow> pool (release p n s) = pool s"
    and release_used: "inv s \<Longrightarrow> 0 < p \<Longrightarrow> run_pages p n \<subseteq> used s \<Longrightarrow>
      used (release p n s) = used s - run_pages p n"
begin

text \<open>The runs a set of clients hold: inside the pool, disjoint, and all that is in use.\<close>

definition holds :: "(nat \<times> nat) list \<Rightarrow> 's \<Rightarrow> bool" where
  "holds live s \<longleftrightarrow> inv s \<and> (\<forall>r \<in> set live. 0 < fst r) \<and>
     used s = (\<Union>r \<in> set live. run_pages (fst r) (snd r)) \<and> used s \<subseteq> pool s \<and>
     sorted_wrt (\<lambda>a b. run_pages (fst a) (snd a) \<inter> run_pages (fst b) (snd b) = {}) live"

lemma holds_alloc:
  assumes "holds live s" and "try_alloc rsp n s = (p, s')"
  shows "holds (if p = 0 then live else (p, n) # live) s'"
proof (cases "p = 0")
  case True
  then show ?thesis using assms alloc_fails [of s rsp n s'] by (auto simp: holds_def)
next
  case False
  have s: "inv s" using assms(1) by (simp add: holds_def)
  have "0 < p" using False by simp
  note facts = alloc_inv [OF s assms(2)] alloc_pool [OF s assms(2)]
    alloc_fresh [OF s assms(2) \<open>0 < p\<close>] alloc_used [OF s assms(2) \<open>0 < p\<close>]
  have "\<forall>r \<in> set live. run_pages p n \<inter> run_pages (fst r) (snd r) = {}"
    using facts(3) assms(1) by (auto simp: holds_def)
  then show ?thesis using facts assms(1) False by (auto simp: holds_def)
qed

lemma holds_release:
  assumes "holds (xs @ (p, n) # ys) s"
  shows "holds (xs @ ys) (release p n s)"
proof -
  have s: "inv s" "0 < p" "run_pages p n \<subseteq> used s" using assms by (auto simp: holds_def)
  have "\<forall>r \<in> set (xs @ ys). run_pages p n \<inter> run_pages (fst r) (snd r) = {}"
    using assms by (auto simp: holds_def sorted_wrt_append)
  then have "(\<Union>r \<in> set (xs @ ys). run_pages (fst r) (snd r)) = used s - run_pages p n"
    using assms by (auto simp: holds_def)
  then show ?thesis
    using assms release_inv [OF s] release_pool [OF s] release_used [OF s]
    by (auto simp: holds_def sorted_wrt_append)
qed

end

lemma pmm_alloc_laws:
  assumes inv: "pmm_inv s" and a: "pmm_try_alloc_pages_zeroed rsp n s = (p, s')"
  shows "pmm_inv s' \<and> pool_pages s' = pool_pages s \<and> (p = 0 \<longrightarrow> s' = s) \<and>
    (0 < p \<longrightarrow> run_pages p n \<subseteq> pool_pages s - used_pages s \<and> used_pages s' = used_pages s \<union> run_pages p n)"
proof (cases "p = 0 \<and> s' = s")
  case False
  then obtain k where k: "run_fits s n k" "p = page_at s k" "0 < p"
    "s' = (pmm_mark_run k n s)\<lparr>phys := memset p 0 (n * PAGE_SIZE) (phys s)\<rparr>"
    using pmm_try_alloc_result [OF inv a] by auto
  have "used_pages s' = used_pages (pmm_mark_run k n s)"
    by (simp add: k(4) used_pages_def page_at_def)
  moreover have "pool_pages s' = pool_pages s" by (simp add: k(4) pool_pages_def page_at_def)
  moreover have "pmm_inv s'" using inv by (simp add: k(4))
  ultimately show ?thesis using used_pages_alloc [OF inv k(1)] k(2,3) by auto
qed (use inv in auto)

lemma pmm_release_laws:
  assumes inv: "pmm_inv s" and p: "0 < p" and u: "run_pages p n \<subseteq> used_pages s"
  shows "pmm_inv (free_pages p n s) \<and> used_pages (free_pages p n s) = used_pages s - run_pages p n \<and>
    pool_pages (free_pages p n s) = pool_pages s"
proof -
  have "(\<lambda>j. p + j * PAGE_SIZE) ` {0..<0 + n} = run_pages p n"
    by (simp add: run_pages_def lessThan_atLeast0)
  with free_pages_loop_used [OF inv, of p 0 n] u
  show ?thesis using inv p by (auto simp: free_pages_def run_pages_def)
qed

interpretation pages: page_allocator pmm_try_alloc_pages_zeroed free_pages pmm_inv pool_pages used_pages
  by unfold_locales ((drule (1) pmm_alloc_laws, simp; fail)+, simp_all add: pmm_release_laws)

section \<open>Clients\<close>

text \<open>
  Any interleaving of requests and releases: \<open>live\<close> lists the runs handed out and not yet given
  back, and a client gives back a run it holds with the count it asked for.
\<close>

datatype page_op = Page_Alloc nat nat | Page_Free nat

definition page_step :: "page_op \<Rightarrow> (nat \<times> nat) list \<times> pmm \<Rightarrow> (nat \<times> nat) list \<times> pmm" where
  "page_step opn c =
     (case opn of
        Page_Alloc rsp count \<Rightarrow>
          (let (p, s') = pmm_try_alloc_pages_zeroed rsp count (snd c) in
           (if p = 0 then fst c else (p, count) # fst c, s'))
      | Page_Free k \<Rightarrow>
          if k < length (fst c)
          then (take k (fst c) @ drop (Suc k) (fst c),
                free_pages (fst (fst c ! k)) (snd (fst c ! k)) (snd c))
          else c)"

lemma page_step_holds: "pages.holds (fst c) (snd c) \<Longrightarrow>
    pages.holds (fst (page_step opn c)) (snd (page_step opn c))"
proof (cases opn)
  case (Page_Alloc rsp count)
  assume "pages.holds (fst c) (snd c)"
  then show ?thesis
    using pages.holds_alloc Page_Alloc by (auto simp: page_step_def split: prod.splits)
next
  case (Page_Free k)
  assume h: "pages.holds (fst c) (snd c)"
  show ?thesis
  proof (cases "k < length (fst c)")
    case True
    then have "fst c = take k (fst c) @ (fst (fst c ! k), snd (fst c ! k)) # drop (Suc k) (fst c)"
      by (simp add: id_take_nth_drop)
    then have "pages.holds (take k (fst c) @ (fst (fst c ! k), snd (fst c ! k)) # drop (Suc k) (fst c)) (snd c)"
      using h by simp
    from pages.holds_release [OF this] show ?thesis using True Page_Free by (simp add: page_step_def)
  qed (use h Page_Free in \<open>simp add: page_step_def\<close>)
qed

lemma page_steps_hold: "pages.holds (fst c) (snd c) \<Longrightarrow>
    pages.holds (fst (fold page_step ops c)) (snd (fold page_step ops c))"
  by (induction ops arbitrary: c) (simp_all add: page_step_holds)

lemma pmm_init_empty:
  assumes "pmm_init base sz s0 = Some s" and "0 < base" and "base + sz < 2 ^ 64"
  shows "pmm_inv s \<and> used_pages s = {} \<and> page_pool_base s = base \<and> page_pool_pages s = sz div PAGE_SIZE"
proof -
  have s: "s = s0\<lparr>page_pool_base := base, page_pool_pages := sz div PAGE_SIZE,
      page_bitmap := replicate BITMAP_WORDS 0\<rparr>" "base mod 4096 = 0" "sz div PAGE_SIZE \<le> PMM_MAX_PAGES"
    using assms(1) by (auto simp: pmm_init_def pmm_consts split: if_splits)
  have "sz div PAGE_SIZE * PAGE_SIZE \<le> sz" by simp
  then have "pmm_inv s" using s assms(2,3) by (auto simp: pmm_inv_def pmm_consts)
  moreover have "pmm_is_free s i" if "i < page_pool_pages s" for i
    using pmm_inv_bits [OF \<open>pmm_inv s\<close> that]
    by (simp add: pmm_is_free_def s(1) less_mult_imp_div_less mult.commute)
  ultimately show ?thesis by (auto simp: used_pages_def s(1))
qed

lemma finite_run_pages [simp]: "finite (run_pages p n)" "card (run_pages p n) = n"
  by (simp_all add: run_pages_def card_image inj_on_def pmm_consts)

lemma card_live:
  "sorted_wrt (\<lambda>a b. run_pages (fst a) (snd a) \<inter> run_pages (fst b) (snd b) = {}) live \<Longrightarrow>
    card (\<Union>r \<in> set live. run_pages (fst r) (snd r)) = sum_list (map snd live)"
proof (induction live)
  case (Cons r live)
  then have "run_pages (fst r) (snd r) \<inter> (\<Union>r \<in> set live. run_pages (fst r) (snd r)) = {}" by auto
  then show ?case using Cons by (simp add: card_Un_disjoint)
qed simp

lemma pmm_used_pages_card: "pmm_used_pages s = card (used_pages s)"
proof -
  let ?n = "page_pool_pages s"
  have "card (used_pages s) = card {i. i < ?n \<and> \<not> pmm_is_free s i}"
    by (simp add: used_pages_def card_image inj_on_def page_at_inj)
  also have "\<dots> = length (filter (\<lambda>i. \<not> pmm_is_free s i) [0..<?n])"
    by (subst distinct_card [symmetric]) (auto intro!: arg_cong [of _ _ card])
  also have "\<dots> = ?n - length (filter (pmm_is_free s) [0..<?n])"
    using sum_length_filter_compl [of "pmm_is_free s" "[0..<?n]"] by simp
  finally show ?thesis by (simp add: pmm_used_pages_def pmm_free_pages_def)
qed

section \<open>Properties\<close>

text \<open>
  C6. Isolation of page runs: from a freshly initialised pool, after any interleaving of requests and
  releases by any clients, the runs that are held never overlap, lie inside the pool, are exactly the
  pages the bitmap marks as used, and \<^verbatim>\<open>pmm_used_pages\<close> is the number of pages they have together.
\<close>

theorem pmm_runs_disjoint:
  assumes "pmm_init base sz s0 = Some s" and "0 < base" and "base + sz < 2 ^ 64"
    and "fold page_step ops ([], s) = (live, s')"
  shows "sorted_wrt (\<lambda>a b. run_pages (fst a) (snd a) \<inter> run_pages (fst b) (snd b) = {}) live \<and>
    used_pages s' = (\<Union>r \<in> set live. run_pages (fst r) (snd r)) \<and> used_pages s' \<subseteq> pool_pages s' \<and>
    pmm_used_pages s' = sum_list (map snd live)"
proof -
  have "pages.holds [] s"
    using pmm_init_empty [OF assms(1-3)] by (simp add: pages.holds_def)
  then have h: "pages.holds live s'" using page_steps_hold [of "([], s)" ops] assms(4) by simp
  then have "pmm_used_pages s' = sum_list (map snd live)"
    using card_live [of live] by (simp add: pages.holds_def pmm_used_pages_card)
  with h show ?thesis unfolding pages.holds_def by blast
qed

definition pmm_demo :: pmm where
  "pmm_demo = \<lparr>page_pool_base = 0, page_pool_pages = 0, page_bitmap = [], phys = \<lambda>_. 7\<rparr>"

definition pmm_demo_pool :: pmm where
  "pmm_demo_pool = \<lparr>page_pool_base = 0x100000, page_pool_pages = 4, page_bitmap = replicate 256 0, phys = \<lambda>_. 7\<rparr>"

lemma pmm_demo_init: "pmm_init 0x100000 0x4000 pmm_demo = Some pmm_demo_pool"
  by (simp add: pmm_init_def pmm_demo_def pmm_demo_pool_def pmm_consts)

theorem pmm_runs_disjoint_witness:
  "sorted_wrt (\<lambda>a b. run_pages (fst a) (snd a) \<inter> run_pages (fst b) (snd b) = {}) [(0x102000, 1)] \<and>
   pmm_used_pages (snd (fold page_step [Page_Alloc 0 2, Page_Alloc 0 1, Page_Free 1, Page_Alloc 0 3]
     ([], pmm_demo_pool))) = 1"
proof -
  let ?c = "fold page_step [Page_Alloc 0 2, Page_Alloc 0 1, Page_Free 1, Page_Alloc 0 3] ([], pmm_demo_pool)"
  have live: "fst ?c = [(0x102000, 1)]" by code_simp
  then have "?c = ([(0x102000, 1)], snd ?c)" by (metis prod.collapse)
  from pmm_runs_disjoint [OF pmm_demo_init _ _ this] show ?thesis by simp
qed


lemma pmm_demo_inv: "pmm_inv pmm_demo_pool"
  by (simp add: pmm_inv_def pmm_demo_pool_def pmm_consts)


text \<open>
  Freeing is safe on any pointer: \<^verbatim>\<open>free_page\<close> on a page that is in use makes exactly that page
  free and scrubs exactly its bytes; on everything else - NULL, a foreign or misaligned pointer, a
  page that is already free - it changes nothing.
\<close>

theorem free_page_exact:
  assumes "pmm_inv s"
  shows "pmm_inv (free_page p s) \<and> used_pages (free_page p s) = used_pages s - {p} \<and>
    (if p \<in> used_pages s
     then phys (free_page p s) = (\<lambda>a. if p \<le> a \<and> a < p + PAGE_SIZE then 0xCC else phys s a)
     else free_page p s = s)"
proof (cases "p \<in> used_pages s")
  case True
  then show ?thesis using assms free_page_used [OF assms True] by (simp add: memset_def)
next
  case False
  have "free_page p s = s"
  proof (rule ccontr)
    assume "free_page p s \<noteq> s"
    then have "pmm_ptr_to_idx s p \<noteq> PMM_MAX_PAGES" "\<not> pmm_is_free s (pmm_ptr_to_idx s p)"
      by (auto simp: free_page_def Let_def split: if_splits)
    then have "p \<in> used_pages s"
      using pmm_ptr_to_idx_valid [of s p] unfolding used_pages_def by blast
    then show False using False by simp
  qed
  then show ?thesis using assms False by simp
qed

theorem free_page_exact_witness:
  "free_page 0x101000 pmm_demo_pool = pmm_demo_pool \<and> free_page 0x900000 pmm_demo_pool = pmm_demo_pool"
proof -
  have "used_pages pmm_demo_pool = {}"
    using pmm_init_empty [OF pmm_demo_init] by simp
  then show ?thesis
    using free_page_exact [of pmm_demo_pool "0x101000"] free_page_exact [of pmm_demo_pool "0x900000"] pmm_demo_inv
    by simp
qed

end
