(* ===== verification/Allocator.thy ===== *)
theory Allocator
  imports Prelude
begin

text \<open>
  The kernel heap, \<^verbatim>\<open>src/impl/kernel/allocator.c\<close>: blocks with a header and a footer guard that
  tile one region, and an address-sorted doubly linked list through the headers of the free ones.
  Memory is split by type: \<open>hdr\<close> holds the \<^verbatim>\<open>block_header\<close> at an address, \<open>ftr\<close> the 32-bit footer
  word at an address and \<open>mem\<close> the payload bytes. The invariant of theory \<open>Allocator_Inv\<close> makes the
  header, payload and footer ranges of all blocks disjoint, which is what justifies the split.
  Addresses and sizes are natural numbers; sums computed in \<^verbatim>\<open>size_t\<close> or \<^verbatim>\<open>uintptr_t\<close> go through
  \<^const>\<open>w64\<close> or \<^const>\<open>sub64\<close>. Address \<open>0\<close> is NULL.
\<close>

section \<open>State\<close>

record block_header =
  bsize :: nat
  bnext :: nat
  bprev :: nat
  bfree :: bool
  bmagic :: nat

record heap_stats =
  alloc_count :: nat
  free_count :: nat
  split_count :: nat
  coalesce_count :: nat
  failed_allocs :: nat
  resize_count :: nat

record heap =
  free_list_head :: nat
  heap_start :: nat
  heap_end :: nat
  heap_size :: nat
  total_allocated :: nat
  total_free :: nat
  peak_usage :: nat
  stats :: heap_stats
  hdr :: "nat \<Rightarrow> block_header"
  ftr :: "nat \<Rightarrow> nat"
  mem :: "nat \<Rightarrow> u8"

text \<open>What a call can do: return, panic (the kernel stops), or loop forever on a corrupted list.\<close>

datatype 'a outcome = Done 'a | Panic | Hang

definition ALIGNMENT :: nat where "ALIGNMENT = 16"
definition MIN_BLOCK_SIZE :: nat where "MIN_BLOCK_SIZE = 32"
definition BLOCK_MAGIC :: nat where "BLOCK_MAGIC = 0xDEADBEEF"
definition FOOTER_MAGIC :: nat where "FOOTER_MAGIC = 0xBAADF00D"
definition HEADER_SIZE :: nat where "HEADER_SIZE = 32"
definition FOOTER_SIZE :: nat where "FOOTER_SIZE = 4"

lemmas heap_consts = ALIGNMENT_def MIN_BLOCK_SIZE_def BLOCK_MAGIC_def FOOTER_MAGIC_def
  HEADER_SIZE_def FOOTER_SIZE_def

text \<open>Clearing the low four bits is subtracting the remainder modulo \<^const>\<open>ALIGNMENT\<close>.\<close>

definition ALIGN :: "nat \<Rightarrow> nat" where
  "ALIGN n = (let m = w64 (n + (ALIGNMENT - 1)) in m - m mod ALIGNMENT)"

definition upd_hdr :: "nat \<Rightarrow> (block_header \<Rightarrow> block_header) \<Rightarrow> heap \<Rightarrow> heap" where
  "upd_hdr a f s = s\<lparr>hdr := (hdr s)(a := f (hdr s a))\<rparr>"

definition upd_stats :: "(heap_stats \<Rightarrow> heap_stats) \<Rightarrow> heap \<Rightarrow> heap" where
  "upd_stats f s = s\<lparr>stats := f (stats s)\<rparr>"

section \<open>Footers and validation\<close>

definition block_footer :: "nat \<Rightarrow> heap \<Rightarrow> nat" where
  "block_footer b s = sub64 (w64 (b + HEADER_SIZE + bsize (hdr s b))) FOOTER_SIZE"

definition write_footer :: "nat \<Rightarrow> heap \<Rightarrow> heap" where
  "write_footer b s = s\<lparr>ftr := (ftr s)(block_footer b s := FOOTER_MAGIC)\<rparr>"

definition check_footer :: "nat \<Rightarrow> heap \<Rightarrow> bool" where
  "check_footer b s = (ftr s (block_footer b s) = FOOTER_MAGIC)"

definition block_in_heap :: "nat \<Rightarrow> heap \<Rightarrow> bool" where
  "block_in_heap b s =
     (if b = 0 then False
      else let ende = w64 (b + HEADER_SIZE + bsize (hdr s b)) in
        heap_start s \<le> b \<and> b < heap_end s \<and> ende \<le> heap_end s \<and> b < ende)"

definition validate_block_fast :: "nat \<Rightarrow> heap \<Rightarrow> bool" where
  "validate_block_fast b s =
     (if b = 0 then False
      else if bmagic (hdr s b) \<noteq> BLOCK_MAGIC then False
      else if \<not> block_in_heap b s then False
      else if bsize (hdr s b) < MIN_BLOCK_SIZE then False
      else if bsize (hdr s b) AND (ALIGNMENT - 1) \<noteq> 0 then False
      else True)"

definition validate_block_full :: "nat \<Rightarrow> heap \<Rightarrow> bool" where
  "validate_block_full b s =
     (if b = 0 then False
      else if bmagic (hdr s b) \<noteq> BLOCK_MAGIC then False
      else if \<not> block_in_heap b s then False
      else if bsize (hdr s b) < MIN_BLOCK_SIZE \<or> bsize (hdr s b) AND (ALIGNMENT - 1) \<noteq> 0 then False
      else True)"

section \<open>Free list\<close>

text \<open>The search loop of \<^verbatim>\<open>insert_free_block\<close>; it does not return on a list with a cycle.\<close>

partial_function (option) insert_position :: "(nat \<Rightarrow> block_header) \<Rightarrow> nat \<Rightarrow> nat \<Rightarrow> nat option" where
  "insert_position h b cur =
     (if bnext (h cur) \<noteq> 0 \<and> bnext (h cur) < b then insert_position h b (bnext (h cur))
      else Some cur)"

definition insert_free_block :: "nat \<Rightarrow> heap \<Rightarrow> heap outcome" where
  "insert_free_block b s0 =
     (let s = upd_hdr b (bfree_update (\<lambda>_. True)) s0; head = free_list_head s in
      if head = 0 \<or> b < head then
        let s1 = upd_hdr b (\<lambda>h. h\<lparr>bnext := head, bprev := 0\<rparr>) s;
            s2 = (if head \<noteq> 0 then upd_hdr head (bprev_update (\<lambda>_. b)) s1 else s1)
        in Done (s2\<lparr>free_list_head := b\<rparr>)
      else
        (case insert_position (hdr s) b head of
           None \<Rightarrow> Hang
         | Some cur \<Rightarrow>
             let after = bnext (hdr s cur);
                 s1 = upd_hdr b (\<lambda>h. h\<lparr>bnext := after, bprev := cur\<rparr>) s;
                 s2 = (if after \<noteq> 0 then upd_hdr after (bprev_update (\<lambda>_. b)) s1 else s1)
             in Done (upd_hdr cur (bnext_update (\<lambda>_. b)) s2)))"

definition remove_free_block :: "nat \<Rightarrow> heap \<Rightarrow> heap" where
  "remove_free_block b s =
     (let p = bprev (hdr s b); n = bnext (hdr s b);
          s1 = (if p \<noteq> 0 then upd_hdr p (bnext_update (\<lambda>_. n)) s else s\<lparr>free_list_head := n\<rparr>);
          s2 = (if n \<noteq> 0 then upd_hdr n (bprev_update (\<lambda>_. p)) s1 else s1)
      in upd_hdr b (\<lambda>h. h\<lparr>bnext := 0, bprev := 0, bfree := False\<rparr>) s2)"

definition try_merge_with_next :: "nat \<Rightarrow> heap \<Rightarrow> heap" where
  "try_merge_with_next b s =
     (let n = bnext (hdr s b) in
      if n = 0 then s
      else if w64 (b + HEADER_SIZE + bsize (hdr s b)) \<noteq> n then s
      else
        let nn = bnext (hdr s n);
            s1 = upd_hdr b (\<lambda>h. h\<lparr>bsize := w64 (bsize h + (HEADER_SIZE + bsize (hdr s n))), bnext := nn\<rparr>) s;
            s2 = (if nn \<noteq> 0 then upd_hdr nn (bprev_update (\<lambda>_. b)) s1 else s1);
            s3 = upd_hdr n (bmagic_update (\<lambda>_. 0xDEAD0000)) s2
        in upd_stats (coalesce_count_update (\<lambda>c. w64 (c + 1))) s3)"

definition max_blocks :: "heap \<Rightarrow> nat" where
  "max_blocks s = heap_size s div (HEADER_SIZE + MIN_BLOCK_SIZE) + 1"

text \<open>The loop of \<^verbatim>\<open>coalesce\<close>, with the number of blocks visited so far.\<close>

function coalesce_loop :: "nat \<Rightarrow> nat \<Rightarrow> nat \<Rightarrow> heap \<Rightarrow> heap outcome" where
  "coalesce_loop maxb visited cur s =
     (if cur = 0 then Done s
      else if maxb < visited + 1 then Panic
      else if \<not> validate_block_fast cur s then Panic
      else let s' = try_merge_with_next cur s in
        coalesce_loop maxb (visited + 1) (bnext (hdr s' cur)) s')"
  by pat_completeness auto
termination
  by (relation "measure (\<lambda>(maxb, visited, cur, s). maxb - visited)") auto

declare coalesce_loop.simps [simp del]

definition coalesce :: "heap \<Rightarrow> heap outcome" where
  "coalesce s = coalesce_loop (max_blocks s) 0 (free_list_head s) s"

section \<open>Splitting\<close>

definition split_and_use :: "nat \<Rightarrow> nat \<Rightarrow> heap \<Rightarrow> heap" where
  "split_and_use b need s =
     (let leftover = sub64 (bsize (hdr s b)) need;
          s' = (if HEADER_SIZE + MIN_BLOCK_SIZE \<le> leftover then
                  let rest = w64 (b + HEADER_SIZE + need);
                      p = bprev (hdr s b); n = bnext (hdr s b);
                      s1 = upd_hdr rest (\<lambda>h. \<lparr>bsize = leftover - HEADER_SIZE, bnext = 0, bprev = 0,
                                             bfree = False, bmagic = BLOCK_MAGIC\<rparr>) s;
                      s2 = write_footer rest s1;
                      s3 = upd_hdr rest (\<lambda>h. h\<lparr>bnext := n, bprev := p\<rparr>) s2;
                      s4 = (if p \<noteq> 0 then upd_hdr p (bnext_update (\<lambda>_. rest)) s3
                            else s3\<lparr>free_list_head := rest\<rparr>);
                      s5 = (if n \<noteq> 0 then upd_hdr n (bprev_update (\<lambda>_. rest)) s4 else s4);
                      s6 = upd_hdr rest (bfree_update (\<lambda>_. True)) s5;
                      s7 = upd_hdr b (bsize_update (\<lambda>_. need)) s6
                  in upd_stats (split_count_update (\<lambda>c. w64 (c + 1))) s7
                else remove_free_block b s)
      in write_footer b (upd_hdr b (\<lambda>h. h\<lparr>bfree := False, bnext := 0, bprev := 0\<rparr>) s'))"

section \<open>Initialisation\<close>

definition allocator_init :: "nat \<Rightarrow> nat \<Rightarrow> heap \<Rightarrow> heap outcome" where
  "allocator_init memory sz s =
     (if memory = 0 \<or> sz < HEADER_SIZE + MIN_BLOCK_SIZE + FOOTER_SIZE then Panic
      else let start = ALIGN memory; lost = sub64 start memory in
        if sz < lost then Panic
        else let sz' = (sz - lost) - (sz - lost) mod ALIGNMENT;
                 s1 = s\<lparr>heap_start := start, heap_end := w64 (start + sz'), heap_size := sz',
                        total_allocated := 0, total_free := 0, peak_usage := 0,
                        free_list_head := start\<rparr>;
                 s2 = upd_hdr start (\<lambda>h. \<lparr>bsize = sub64 sz' HEADER_SIZE, bnext = 0, bprev = 0,
                                         bfree = True, bmagic = BLOCK_MAGIC\<rparr>) s1;
                 s3 = write_footer start s2
             in Done (s3\<lparr>total_free := bsize (hdr s3 start)\<rparr>))"

section \<open>Allocation\<close>

definition payload_size :: "nat \<Rightarrow> nat" where
  "payload_size user_size =
     (let user_size' = (if user_size < MIN_BLOCK_SIZE then MIN_BLOCK_SIZE else user_size)
      in ALIGN (w64 (user_size' + FOOTER_SIZE)))"

text \<open>The first-fit search of \<^verbatim>\<open>alloc_locked\<close>: the block found, \<open>0\<close> at the end of the list.\<close>

function alloc_find :: "nat \<Rightarrow> nat \<Rightarrow> nat \<Rightarrow> nat \<Rightarrow> heap \<Rightarrow> nat outcome" where
  "alloc_find need maxb visited cur s =
     (if cur = 0 then Done 0
      else if maxb < visited + 1 then Panic
      else if \<not> validate_block_fast cur s then Panic
      else if bfree (hdr s cur) \<and> need \<le> bsize (hdr s cur) then Done cur
      else alloc_find need maxb (visited + 1) (bnext (hdr s cur)) s)"
  by pat_completeness auto
termination
  by (relation "measure (\<lambda>(need, maxb, visited, cur, s). maxb - visited)") auto

declare alloc_find.simps [simp del]

definition alloc_locked :: "nat \<Rightarrow> heap \<Rightarrow> (nat \<times> heap) outcome" where
  "alloc_locked need s =
     (case alloc_find need (max_blocks s) 0 (free_list_head s) s of
        Panic \<Rightarrow> Panic
      | Hang \<Rightarrow> Hang
      | Done cur \<Rightarrow>
          if cur = 0 then Done (0, s)
          else
            let s1 = split_and_use cur need s;
                n = bsize (hdr s1 cur);
                s2 = s1\<lparr>total_allocated := w64 (total_allocated s1 + n),
                        total_free := sub64 (total_free s1) n\<rparr>;
                s3 = (if peak_usage s2 < total_allocated s2
                      then s2\<lparr>peak_usage := total_allocated s2\<rparr> else s2)
            in Done (w64 (cur + HEADER_SIZE), upd_stats (alloc_count_update (\<lambda>c. w64 (c + 1))) s3))"

definition alloc :: "nat \<Rightarrow> heap \<Rightarrow> (nat \<times> heap) outcome" where
  "alloc sz s =
     (if sz = 0 then Done (0, s)
      else case alloc_locked (payload_size sz) s of
        Panic \<Rightarrow> Panic
      | Hang \<Rightarrow> Hang
      | Done (ptr, s') \<Rightarrow>
          if ptr = 0 then Done (0, upd_stats (failed_allocs_update (\<lambda>c. w64 (c + 1))) s')
          else let usable = sub64 (bsize (hdr s' (sub64 ptr HEADER_SIZE))) FOOTER_SIZE
               in Done (ptr, s'\<lparr>mem := memset ptr 0 usable (mem s')\<rparr>))"

definition alloc_unzeroed :: "nat \<Rightarrow> heap \<Rightarrow> (nat \<times> heap) outcome" where
  "alloc_unzeroed sz s =
     (if sz = 0 then Done (0, s)
      else case alloc_locked (payload_size sz) s of
        Panic \<Rightarrow> Panic
      | Hang \<Rightarrow> Hang
      | Done (ptr, s') \<Rightarrow>
          if ptr = 0 then Done (0, upd_stats (failed_allocs_update (\<lambda>c. w64 (c + 1))) s')
          else Done (ptr, s'))"

definition alloc_array :: "nat \<Rightarrow> nat \<Rightarrow> heap \<Rightarrow> (nat \<times> heap) outcome" where
  "alloc_array count elem_size s =
     (if count = 0 \<or> elem_size = 0 then Done (0, s)
      else if (2 ^ 64 - 1) div count < elem_size then Done (0, s)
      else alloc (w64 (count * elem_size)) s)"

definition store_bytes :: "nat \<Rightarrow> bytes \<Rightarrow> (nat \<Rightarrow> u8) \<Rightarrow> nat \<Rightarrow> u8" where
  "store_bytes p bs m = (\<lambda>a. if p \<le> a \<and> a < p + length bs then bs ! (a - p) else m a)"

definition load_bytes :: "nat \<Rightarrow> nat \<Rightarrow> (nat \<Rightarrow> u8) \<Rightarrow> bytes" where
  "load_bytes p n m = map (\<lambda>i. m (p + i)) [0..<n]"

text \<open>The string argument is its characters without the terminator, \<^const>\<open>None\<close> for NULL.\<close>

definition alloc_strdup :: "bytes option \<Rightarrow> heap \<Rightarrow> (nat \<times> heap) outcome" where
  "alloc_strdup str s =
     (case str of
        None \<Rightarrow> Done (0, s)
      | Some cs \<Rightarrow>
          (case alloc (w64 (length cs + 1)) s of
             Panic \<Rightarrow> Panic
           | Hang \<Rightarrow> Hang
           | Done (copy, s') \<Rightarrow>
               if copy \<noteq> 0 then Done (copy, s'\<lparr>mem := store_bytes copy (cs @ [0]) (mem s')\<rparr>)
               else Done (copy, s')))"

section \<open>Freeing and resizing\<close>

definition free_mem :: "nat \<Rightarrow> heap \<Rightarrow> heap outcome" where
  "free_mem ptr s =
     (if ptr = 0 then Done s
      else if ptr < heap_start s \<or> heap_end s \<le> ptr then Done s
      else
        let b = sub64 ptr HEADER_SIZE in
        if \<not> validate_block_full b s then Done s
        else if bfree (hdr s b) then Done s
        else if \<not> check_footer b s then Panic
        else
          let n = bsize (hdr s b);
              s1 = s\<lparr>mem := memset ptr 0xCC (sub64 n FOOTER_SIZE) (mem s)\<rparr>;
              s2 = s1\<lparr>total_allocated := sub64 (total_allocated s1) n,
                      total_free := w64 (total_free s1 + n)\<rparr>;
              s3 = upd_stats (free_count_update (\<lambda>c. w64 (c + 1))) s2
          in case insert_free_block b s3 of
               Panic \<Rightarrow> Panic
             | Hang \<Rightarrow> Hang
             | Done s4 \<Rightarrow> coalesce s4)"

definition alloc_resize :: "nat \<Rightarrow> nat \<Rightarrow> heap \<Rightarrow> (nat \<times> heap) outcome" where
  "alloc_resize ptr new_size s =
     (if ptr = 0 then alloc new_size s
      else if new_size = 0 then
        (case free_mem ptr s of Panic \<Rightarrow> Panic | Hang \<Rightarrow> Hang | Done s' \<Rightarrow> Done (0, s'))
      else
        let b = sub64 ptr HEADER_SIZE in
        if \<not> validate_block_full b s then Done (0, s)
        else
          let old_usable = sub64 (bsize (hdr s b)) FOOTER_SIZE in
          if new_size \<le> old_usable then Done (ptr, s)
          else
            (case alloc new_size s of
               Panic \<Rightarrow> Panic
             | Hang \<Rightarrow> Hang
             | Done (new_ptr, s1) \<Rightarrow>
                 if new_ptr = 0 then Done (0, s1)
                 else
                   let s2 = s1\<lparr>mem := store_bytes new_ptr (load_bytes ptr old_usable (mem s1)) (mem s1)\<rparr>
                   in case free_mem ptr s2 of
                        Panic \<Rightarrow> Panic
                      | Hang \<Rightarrow> Hang
                      | Done s3 \<Rightarrow>
                          Done (new_ptr, upd_stats (resize_count_update (\<lambda>c. w64 (c + 1))) s3)))"

section \<open>Aligned allocation\<close>

definition align_up :: "nat \<Rightarrow> nat \<Rightarrow> nat" where
  "align_up v a = unat (of_nat (sub64 (w64 (v + a)) 1) AND NOT (of_nat (a - 1)) :: u64)"

definition is_pow2 :: "nat \<Rightarrow> bool" where
  "is_pow2 x = (x \<noteq> 0 \<and> x AND (x - 1) = 0)"

definition kmalloc_aligned :: "nat \<Rightarrow> nat \<Rightarrow> heap \<Rightarrow> (nat \<times> heap) outcome" where
  "kmalloc_aligned sz alignment0 s =
     (if sz = 0 then Done (0, s)
      else
        let alignment = (if alignment0 < ALIGNMENT then ALIGNMENT else alignment0) in
        if \<not> is_pow2 alignment then Done (0, s)
        else
          (case alloc_unzeroed (w64 (sz + alignment + 8)) s of
             Panic \<Rightarrow> Panic
           | Hang \<Rightarrow> Hang
           | Done (raw, s') \<Rightarrow>
               if raw = 0 then Done (0, s')
               else
                 let aligned_addr = align_up (w64 (raw + 8)) alignment;
                     m1 = store_bytes (sub64 aligned_addr 8) (le_bytes 8 raw) (mem s')
                 in Done (aligned_addr, s'\<lparr>mem := memset aligned_addr 0 sz m1\<rparr>)))"

definition kfree_aligned :: "nat \<Rightarrow> heap \<Rightarrow> heap outcome" where
  "kfree_aligned ptr s =
     (if ptr = 0 then Done s
      else free_mem (le_value (load_bytes (sub64 ptr 8) 8 (mem s))) s)"

section \<open>Diagnostics\<close>

definition allocator_used_bytes :: "heap \<Rightarrow> nat" where
  "allocator_used_bytes s = total_allocated s"

definition allocator_free_bytes :: "heap \<Rightarrow> nat" where
  "allocator_free_bytes s = total_free s"

partial_function (option) largest_loop :: "(nat \<Rightarrow> block_header) \<Rightarrow> nat \<Rightarrow> nat \<Rightarrow> nat option" where
  "largest_loop h cur largest =
     (if cur = 0 then Some largest
      else largest_loop h (bnext (h cur)) (if largest < bsize (h cur) then bsize (h cur) else largest))"

definition allocator_largest_free_block :: "heap \<Rightarrow> nat outcome" where
  "allocator_largest_free_block s =
     (case largest_loop (hdr s) (free_list_head s) 0 of
        None \<Rightarrow> Hang
      | Some largest \<Rightarrow> Done (if FOOTER_SIZE < largest then largest - FOOTER_SIZE else 0))"

function check_loop :: "nat \<Rightarrow> nat \<Rightarrow> nat \<Rightarrow> heap \<Rightarrow> bool" where
  "check_loop maxb visited cur s =
     (if cur = 0 then True
      else if maxb < visited + 1 then False
      else if \<not> validate_block_fast cur s then False
      else if \<not> check_footer cur s then False
      else check_loop maxb (visited + 1) (bnext (hdr s cur)) s)"
  by pat_completeness auto
termination
  by (relation "measure (\<lambda>(maxb, visited, cur, s). maxb - visited)") auto

declare check_loop.simps [simp del]

definition allocator_check :: "heap \<Rightarrow> bool" where
  "allocator_check s = check_loop (max_blocks s) 0 (free_list_head s) s"

end
