(* ===== verification/Allocator_Inv.thy ===== *)
theory Allocator_Inv
  imports Allocator
begin

text \<open>
  The heap invariant and its preservation. A heap state is related to the list of blocks that tile
  it (address, size, free flag); each step of \<^verbatim>\<open>allocator.c\<close> on headers and list pointers is shown
  to be the corresponding change of that list: splitting a block, taking it whole, marking it free,
  merging two neighbours.
\<close>

type_synonym block = "nat \<times> nat \<times> bool"

section \<open>Tilings\<close>

fun tiles :: "nat \<Rightarrow> block list \<Rightarrow> nat \<Rightarrow> bool" where
  "tiles lo [] hi \<longleftrightarrow> lo = hi"
| "tiles lo ((a, n, f) # bs) hi \<longleftrightarrow> a = lo \<and> 32 \<le> n \<and> 16 dvd n \<and> tiles (a + 32 + n) bs hi"

definition free_addrs :: "block list \<Rightarrow> nat list" where
  "free_addrs bs = map fst (filter (\<lambda>b. snd (snd b)) bs)"

lemma free_addrs_simps [simp]:
  "free_addrs [] = []"
  "free_addrs ((a, n, f) # bs) = (if f then a # free_addrs bs else free_addrs bs)"
  "free_addrs (xs @ ys) = free_addrs xs @ free_addrs ys"
  by (simp_all add: free_addrs_def)

lemma free_addrs_mem: "a \<in> set (free_addrs bs) \<longleftrightarrow> (\<exists>n. (a, n, True) \<in> set bs)"
  by (force simp: free_addrs_def)

lemma length_free_addrs: "length (free_addrs bs) \<le> length bs"
  by (simp add: free_addrs_def)

lemma tiles_append: "tiles lo (xs @ ys) hi \<longleftrightarrow> (\<exists>m. tiles lo xs m \<and> tiles m ys hi)"
  by (induction xs arbitrary: lo) auto

lemma tiles_count: "tiles lo bs hi \<Longrightarrow> lo + 64 * length bs \<le> hi"
  by (induction lo bs hi rule: tiles.induct) auto

lemma tiles_mem:
  "tiles lo bs hi \<Longrightarrow> (a, n, f) \<in> set bs \<Longrightarrow> lo \<le> a \<and> a + 32 + n \<le> hi \<and> 32 \<le> n \<and> 16 dvd n"
proof (induction lo bs hi rule: tiles.induct)
  case (2 lo a' n' f' bs hi)
  then show ?case using tiles_count [of "a' + 32 + n'" bs hi] by auto
qed simp

lemma tiles_middle:
  assumes "tiles lo (xs @ (a, n, f) # ys) hi"
  shows "tiles lo xs a \<and> tiles (a + 32 + n) ys hi \<and> 32 \<le> n \<and> 16 dvd n"
  using assms by (auto simp: tiles_append)

lemma tiles_free_addrs:
  assumes "tiles lo bs hi"
  shows "a \<in> set (free_addrs bs) \<Longrightarrow> lo \<le> a \<and> a + 64 \<le> hi"
  using tiles_mem [OF assms, of a] by (force simp: free_addrs_mem)

lemma tiles_sorted: "tiles lo bs hi \<Longrightarrow> sorted_wrt (<) (map fst bs)"
proof (induction lo bs hi rule: tiles.induct)
  case (2 lo a n f bs hi)
  then show ?case using tiles_mem [of "a + 32 + n" bs hi] by force
qed simp

lemma free_addrs_sorted: "tiles lo bs hi \<Longrightarrow> sorted_wrt (<) (free_addrs bs)"
  using tiles_sorted [of lo bs hi] by (auto simp: free_addrs_def sorted_wrt_map sorted_wrt_filter)

section \<open>The linked list\<close>

definition nxt :: "heap \<Rightarrow> nat \<Rightarrow> nat" where
  "nxt s x = (if x = 0 then free_list_head s else bnext (hdr s x))"

fun links :: "heap \<Rightarrow> nat list \<Rightarrow> bool" where
  "links s (x # y # zs) \<longleftrightarrow> nxt s x = y \<and> (y \<noteq> 0 \<longrightarrow> bprev (hdr s y) = x) \<and> links s (y # zs)"
| "links s _ \<longleftrightarrow> True"

text \<open>The list through the headers \<open>zs\<close>, with \<open>0\<close> as the sentinel on both sides.\<close>

definition dll :: "heap \<Rightarrow> nat list \<Rightarrow> bool" where
  "dll s zs \<longleftrightarrow> links s (0 # zs @ [0])"

lemma links_append: "links s (xs @ x # ys) \<longleftrightarrow> links s (xs @ [x]) \<and> links s (x # ys)"
proof (induction xs)
  case (Cons a xs)
  then show ?case by (cases xs) auto
qed simp

lemma links_frame:
  assumes "links s L" and "\<forall>x \<in> set (butlast L). nxt s' x = nxt s x"
    and "\<forall>y \<in> set (tl L). y \<noteq> 0 \<longrightarrow> bprev (hdr s' y) = bprev (hdr s y)"
  shows "links s' L"
  using assms
proof (induction s L rule: links.induct)
  case (1 s x y zs)
  then show ?case by (cases zs) auto
qed auto

lemma links_split3:
  "links s (L @ x # C @ y # R) \<longleftrightarrow> links s (L @ [x]) \<and> links s (x # C @ [y]) \<and> links s (y # R)"
  using links_append [of s L x "C @ y # R"] links_append [of s "x # C" y R] by simp

lemma sentinels:
  obtains L R where "0 # A = L @ [last (0 # A)]" and "B @ [0] = hd (B @ [0]) # R"
    and "L = butlast (0 # A)" and "R = tl (B @ [0])"
proof
  show "0 # A = butlast (0 # A) @ [last (0 # A)]" by simp
  show "B @ [0] = hd (B @ [0]) # tl (B @ [0])" by (cases B) auto
qed auto

lemma links_cut:
  assumes "0 # A = L @ [x]" and "B @ [0] = y # R"
  shows "links s (0 # A @ C @ B @ [0]) \<longleftrightarrow>
    links s (0 # A) \<and> links s (x # C @ [y]) \<and> links s (B @ [0])"
proof -
  have e: "0 # A @ C @ B @ [0] = L @ x # C @ y # R"
    using assms by (metis append.assoc append_Cons append_Nil)
  show ?thesis unfolding e unfolding links_split3 assms by (rule refl)
qed

lemma links_middle:
  "links s (0 # A @ C @ B @ [0]) \<Longrightarrow> links s (last (0 # A) # C @ [hd (B @ [0])])"
  by (rule sentinels [of A B]) (metis links_cut)

lemma links_splice:
  assumes old: "links s (0 # A @ C @ B @ [0])" and dist: "distinct (0 # A @ B)"
    and new: "links s' (last (0 # A) # C' @ [hd (B @ [0])])"
    and nx: "\<And>z. z \<in> set (0 # A @ B) \<Longrightarrow> z \<noteq> last (0 # A) \<Longrightarrow> nxt s' z = nxt s z"
    and pv: "\<And>z. z \<in> set (A @ B) \<Longrightarrow> z \<noteq> hd (B @ [0]) \<Longrightarrow> bprev (hdr s' z) = bprev (hdr s z)"
  shows "links s' (0 # A @ C' @ B @ [0])"
proof -
  obtain L R where LR: "0 # A = L @ [last (0 # A)]" "B @ [0] = hd (B @ [0]) # R"
    "L = butlast (0 # A)" "R = tl (B @ [0])" by (rule sentinels)
  note cut = links_cut [OF LR(1,2)]
  have "last (0 # A) \<in> set (0 # A)" by (rule last_in_set) simp
  then have x: "last (0 # A) \<notin> set B" using dist by (auto simp del: last.simps)
  have "hd (B @ [0]) \<in> set (B @ [0])" by (rule hd_in_set) simp
  then have y: "hd (B @ [0]) \<notin> set A" using dist by (auto simp del: hd_append)
  have "links s (0 # A)" "links s (B @ [0])" using old cut by blast+
  have "links s' (0 # A)"
  proof (rule links_frame [OF \<open>links s (0 # A)\<close>])
    have "distinct (L @ [last (0 # A)])" using dist LR(1) by (metis append_Cons distinct_append)
    then have "last (0 # A) \<notin> set L" by simp
    then show "\<forall>z \<in> set (butlast (0 # A)). nxt s' z = nxt s z"
      using nx LR(3) by (metis Un_iff in_set_butlastD list.set_intros(1) set_ConsD set_append append_Cons)
    show "\<forall>z \<in> set (tl (0 # A)). z \<noteq> 0 \<longrightarrow> bprev (hdr s' z) = bprev (hdr s z)"
      using pv y by auto
  qed
  moreover have "links s' (B @ [0])"
  proof (rule links_frame [OF \<open>links s (B @ [0])\<close>])
    show "\<forall>z \<in> set (butlast (B @ [0])). nxt s' z = nxt s z" using nx x by auto
    show "\<forall>z \<in> set (tl (B @ [0])). z \<noteq> 0 \<longrightarrow> bprev (hdr s' z) = bprev (hdr s z)"
      using pv dist by (cases B) auto
  qed
  ultimately show ?thesis using new cut by blast
qed

section \<open>Invariant\<close>

definition block_ok :: "heap \<Rightarrow> block \<Rightarrow> bool" where
  "block_ok s b \<longleftrightarrow> (case b of (a, n, f) \<Rightarrow>
     bsize (hdr s a) = n \<and> bfree (hdr s a) = f \<and> bmagic (hdr s a) = BLOCK_MAGIC \<and>
     (f \<longrightarrow> ftr s (a + 28 + n) = FOOTER_MAGIC))"

definition heap_region :: "heap \<Rightarrow> bool" where
  "heap_region s \<longleftrightarrow> 0 < heap_start s \<and> 16 dvd heap_start s \<and> heap_end s < 2 ^ 64 \<and>
     heap_end s = heap_start s + heap_size s"

definition heap_shape :: "heap \<Rightarrow> block list \<Rightarrow> bool" where
  "heap_shape s bs \<longleftrightarrow> heap_region s \<and> tiles (heap_start s) bs (heap_end s) \<and>
     (\<forall>b \<in> set bs. block_ok s b) \<and> dll s (free_addrs bs)"

definition allocated :: "block list \<Rightarrow> nat" where
  "allocated bs = sum_list (map (\<lambda>(a, n, f). if f then 0 else n) bs)"

definition heap_acct :: "heap \<Rightarrow> block list \<Rightarrow> bool" where
  "heap_acct s bs \<longleftrightarrow> total_allocated s = allocated bs \<and>
     total_free s + total_allocated s = heap_size s - 32"

definition heap_rel :: "heap \<Rightarrow> block list \<Rightarrow> bool" where
  "heap_rel s bs \<longleftrightarrow> heap_shape s bs \<and> heap_acct s bs"

lemma allocated_simps [simp]:
  "allocated [] = 0"
  "allocated ((a, n, f) # bs) = (if f then 0 else n) + allocated bs"
  "allocated (xs @ ys) = allocated xs + allocated ys"
  by (simp_all add: allocated_def)

lemma upd_hdr_simps [simp]:
  "hdr (upd_hdr a f s) z = (if z = a then f (hdr s a) else hdr s z)"
  "ftr (upd_hdr a f s) = ftr s" "mem (upd_hdr a f s) = mem s"
  "free_list_head (upd_hdr a f s) = free_list_head s"
  "heap_start (upd_hdr a f s) = heap_start s" "heap_end (upd_hdr a f s) = heap_end s"
  "heap_size (upd_hdr a f s) = heap_size s"
  "total_allocated (upd_hdr a f s) = total_allocated s" "total_free (upd_hdr a f s) = total_free s"
  by (simp_all add: upd_hdr_def)

lemma upd_stats_simps [simp]:
  "hdr (upd_stats g s) = hdr s" "ftr (upd_stats g s) = ftr s" "mem (upd_stats g s) = mem s"
  "free_list_head (upd_stats g s) = free_list_head s"
  "heap_start (upd_stats g s) = heap_start s" "heap_end (upd_stats g s) = heap_end s"
  "heap_size (upd_stats g s) = heap_size s"
  "total_allocated (upd_stats g s) = total_allocated s" "total_free (upd_stats g s) = total_free s"
  by (simp_all add: upd_stats_def)

lemma write_footer_simps [simp]:
  "hdr (write_footer b s) = hdr s" "mem (write_footer b s) = mem s"
  "free_list_head (write_footer b s) = free_list_head s"
  "heap_start (write_footer b s) = heap_start s" "heap_end (write_footer b s) = heap_end s"
  "heap_size (write_footer b s) = heap_size s"
  "total_allocated (write_footer b s) = total_allocated s" "total_free (write_footer b s) = total_free s"
  by (simp_all add: write_footer_def)

section \<open>Facts read off the invariant\<close>

lemma heap_shape_block:
  assumes "heap_shape s bs" and "(a, n, f) \<in> set bs"
  shows "heap_start s \<le> a" and "a + 32 + n \<le> heap_end s" and "32 \<le> n" and "n mod 16 = 0"
    and "0 < a" and "a + 32 + n < 2 ^ 64"
    and "bsize (hdr s a) = n" and "bfree (hdr s a) = f" and "bmagic (hdr s a) = BLOCK_MAGIC"
    and "f \<Longrightarrow> ftr s (a + 28 + n) = FOOTER_MAGIC"
proof -
  note facts = assms(1) [unfolded heap_shape_def heap_region_def]
  show "heap_start s \<le> a" "a + 32 + n \<le> heap_end s" "32 \<le> n" "n mod 16 = 0"
    using tiles_mem [of _ bs, OF _ assms(2)] facts by (auto simp: mod_eq_0_iff_dvd)
  then show "0 < a" "a + 32 + n < 2 ^ 64" using facts by auto
  have "block_ok s (a, n, f)" using facts assms(2) by blast
  then show "bsize (hdr s a) = n" "bfree (hdr s a) = f" "bmagic (hdr s a) = BLOCK_MAGIC"
    "f \<Longrightarrow> ftr s (a + 28 + n) = FOOTER_MAGIC" by (auto simp: block_ok_def)
qed

lemma heap_shape_valid:
  assumes "heap_shape s bs" and "(a, n, f) \<in> set bs"
  shows "validate_block_fast a s" and "validate_block_full a s" and "block_footer a s = a + 28 + n"
proof -
  note b = heap_shape_block [OF assms]
  have w: "w64 (a + 32 + n) = a + 32 + n" using b(6) by (simp add: wrap)
  have "a < heap_end s" using b(2,3) by simp
  then show "validate_block_fast a s" "validate_block_full a s"
    using b by (simp_all add: validate_block_fast_def validate_block_full_def block_in_heap_def heap_consts w)
  show "block_footer a s = a + 28 + n"
    using b(6) by (simp add: block_footer_def b(7) heap_consts w wrap)
qed

lemma heap_shape_dist:
  assumes "heap_shape s bs"
  shows "distinct (0 # free_addrs bs)"
proof -
  have "sorted_wrt (<) (free_addrs bs)" using assms free_addrs_sorted by (auto simp: heap_shape_def)
  then have "distinct (free_addrs bs)" by (simp add: strict_sorted_iff)
  moreover have "0 \<notin> set (free_addrs bs)"
    using heap_shape_block(5) [OF assms] by (force simp: free_addrs_mem)
  ultimately show ?thesis by simp
qed

lemma heap_shape_free_bound:
  assumes "heap_shape s bs"
  shows "length (free_addrs bs) \<le> max_blocks s"
proof -
  have "64 * length bs \<le> heap_size s"
    using assms tiles_count [of "heap_start s" bs "heap_end s"] by (auto simp: heap_shape_def heap_region_def)
  then show ?thesis using length_free_addrs [of bs] by (simp add: max_blocks_def heap_consts)
qed

section \<open>First-fit search\<close>

lemma alloc_find_spec:
  assumes "\<forall>(a, n, f) \<in> set bs. validate_block_fast a s \<and> bsize (hdr s a) = n \<and> bfree (hdr s a) = f \<and> a \<noteq> 0"
    and "links s (x # free_addrs bs @ [0])" and "cur = nxt s x"
    and "visited + length (free_addrs bs) \<le> maxb"
  shows "(alloc_find need maxb visited cur s = Done 0 \<and> (\<forall>(a, n, f) \<in> set bs. f \<longrightarrow> n < need)) \<or>
    (\<exists>xs a n ys. alloc_find need maxb visited cur s = Done a \<and> bs = xs @ (a, n, True) # ys \<and> need \<le> n \<and>
       (\<forall>(a, n, f) \<in> set xs. f \<longrightarrow> n < need))"
  using assms
proof (induction bs arbitrary: x cur visited)
  case Nil
  then show ?case by (simp add: alloc_find.simps)
next
  case (Cons b bs)
  obtain a n f where b: "b = (a, n, f)" by (cases b)
  have ok: "validate_block_fast a s" "bsize (hdr s a) = n" "bfree (hdr s a) = f" "a \<noteq> 0"
    using Cons.prems(1) b by auto
  let ?P = "\<lambda>bs visited cur. (alloc_find need maxb visited cur s = Done 0 \<and> (\<forall>(a, n, f) \<in> set bs. f \<longrightarrow> n < need)) \<or>
    (\<exists>xs a n ys. alloc_find need maxb visited cur s = Done a \<and> bs = xs @ (a, n, True) # ys \<and> need \<le> n \<and>
       (\<forall>(a, n, f) \<in> set xs. f \<longrightarrow> n < need))"
  show ?case
  proof (cases "f \<and> need \<le> n")
    case True
    then have "cur = a" using Cons.prems(2,3) b by simp
    then have "alloc_find need maxb visited cur s = Done a"
      using True ok Cons.prems(4) b by (simp add: alloc_find.simps)
    then show ?thesis using True b by (intro disjI2 exI [of _ "[]"]) auto
  next
    case False
    have step: "alloc_find need maxb visited cur s =
        alloc_find need maxb (if f then visited + 1 else visited) (if f then nxt s a else cur) s"
    proof (cases f)
      case True
      then have "cur = a" using Cons.prems(2,3) b by simp
      then show ?thesis using True False ok Cons.prems(4) b
        by (subst alloc_find.simps) (simp add: nxt_def)
    qed simp
    have "?P bs (if f then visited + 1 else visited) (if f then nxt s a else cur)"
      by (rule Cons.IH [of "if f then a else x"]) (use Cons.prems b in \<open>auto split: if_splits\<close>)
    then show ?thesis
    proof
      assume "\<exists>xs a' n' ys. alloc_find need maxb (if f then visited + 1 else visited) (if f then nxt s a else cur) s
          = Done a' \<and> bs = xs @ (a', n', True) # ys \<and> need \<le> n' \<and> (\<forall>(a, n, f) \<in> set xs. f \<longrightarrow> n < need)"
      then obtain xs a' n' ys where "alloc_find need maxb visited cur s = Done a'"
        "bs = xs @ (a', n', True) # ys" "need \<le> n'" "\<forall>(a, n, f) \<in> set xs. f \<longrightarrow> n < need"
        unfolding step by blast
      then show ?thesis using b False by (intro disjI2 exI [of _ "b # xs"]) auto
    qed (use b False step in auto)
  qed
qed

lemma alloc_find_heap:
  assumes "heap_shape s bs"
  shows "(alloc_find need (max_blocks s) 0 (free_list_head s) s = Done 0 \<and> (\<forall>(a, n, f) \<in> set bs. f \<longrightarrow> n < need)) \<or>
    (\<exists>xs a n ys. alloc_find need (max_blocks s) 0 (free_list_head s) s = Done a \<and> bs = xs @ (a, n, True) # ys \<and>
       need \<le> n \<and> (\<forall>(a, n, f) \<in> set xs. f \<longrightarrow> n < need))"
proof (rule alloc_find_spec)
  show "\<forall>(a, n, f) \<in> set bs. validate_block_fast a s \<and> bsize (hdr s a) = n \<and> bfree (hdr s a) = f \<and> a \<noteq> 0"
    using heap_shape_valid(1) [OF assms] heap_shape_block(5,7,8) [OF assms] by fastforce
  show "links s (0 # free_addrs bs @ [0])" using assms by (simp add: heap_shape_def dll_def)
qed (simp_all add: nxt_def heap_shape_free_bound [OF assms])

section \<open>Local changes\<close>

text \<open>The pointers on both sides of a part \<open>C\<close> of the free list.\<close>

lemma free_list_around:
  assumes "heap_shape s bs" and "free_addrs bs = A @ C @ B"
  obtains x y where "x = last (0 # A)" and "y = hd (B @ [0])" and "x = 0 \<or> x \<in> set A" and "y = 0 \<or> y \<in> set B"
    and "links s (0 # A @ C @ B @ [0])" and "links s (x # C @ [y])" and "distinct (0 # A @ C @ B)"
proof
  show "last (0 # A) = 0 \<or> last (0 # A) \<in> set A" by (cases A) auto
  show "hd (B @ [0]) = 0 \<or> hd (B @ [0]) \<in> set B" by (cases B) auto
  show l: "links s (0 # A @ C @ B @ [0])" using assms by (simp add: heap_shape_def dll_def)
  show "links s (last (0 # A) # C @ [hd (B @ [0])])" by (rule links_middle [OF l])
  show "distinct (0 # A @ C @ B)" using heap_shape_dist [OF assms(1)] assms(2) by simp
qed auto

lemma links_update:
  assumes "links s (0 # A @ C @ B @ [0])" and "distinct (0 # A @ C @ B)"
    and "links s' (last (0 # A) # C' @ [hd (B @ [0])])"
    and "D \<inter> set (0 # A @ B) = {}"
    and "\<And>z. z \<noteq> last (0 # A) \<Longrightarrow> z \<notin> D \<Longrightarrow> nxt s' z = nxt s z"
    and "\<And>z. z \<noteq> hd (B @ [0]) \<Longrightarrow> z \<notin> D \<Longrightarrow> z \<noteq> 0 \<Longrightarrow> bprev (hdr s' z) = bprev (hdr s z)"
  shows "links s' (0 # A @ C' @ B @ [0])"
proof (rule links_splice [OF assms(1) _ assms(3)])
  show "distinct (0 # A @ B)" using assms(2) by auto
  fix z
  show "nxt s' z = nxt s z" if "z \<in> set (0 # A @ B)" "z \<noteq> last (0 # A)"
    using that assms(4) by (intro assms(5)) blast+
  show "bprev (hdr s' z) = bprev (hdr s z)" if "z \<in> set (A @ B)" "z \<noteq> hd (B @ [0])"
  proof (rule assms(6))
    show "z \<noteq> hd (B @ [0])" by fact
    show "z \<notin> D" using that(1) assms(4) by auto
    show "z \<noteq> 0" using that(1) assms(2) by auto
  qed
qed

lemma heap_shape_change:
  assumes shape: "heap_shape s (xs @ mid @ ys)"
    and region: "heap_start s' = heap_start s" "heap_end s' = heap_end s" "heap_size s' = heap_size s"
    and tiles: "\<And>lo hi. tiles lo mid hi \<Longrightarrow> tiles lo mid' hi"
    and other: "\<And>a n f. (a, n, f) \<in> set xs \<union> set ys \<Longrightarrow> bsize (hdr s' a) = bsize (hdr s a) \<and>
      bfree (hdr s' a) = bfree (hdr s a) \<and> bmagic (hdr s' a) = bmagic (hdr s a) \<and>
      ftr s' (a + 28 + n) = ftr s (a + 28 + n)"
    and mid: "\<forall>b \<in> set mid'. block_ok s' b"
    and links: "links s' (0 # free_addrs xs @ free_addrs mid' @ free_addrs ys @ [0])"
  shows "heap_shape s' (xs @ mid' @ ys)"
proof -
  have "block_ok s' b" if b: "b \<in> set xs \<union> set ys" for b
  proof -
    obtain a n f where e: "b = (a, n, f)" by (cases b)
    have "block_ok s b" using b shape by (auto simp: heap_shape_def)
    then show ?thesis using other [of a n f] b e by (auto simp: block_ok_def)
  qed
  moreover have "tiles (heap_start s) (xs @ mid' @ ys) (heap_end s)"
    using shape tiles by (auto simp: heap_shape_def tiles_append)
  ultimately show ?thesis
    using shape region mid links by (auto simp: heap_shape_def heap_region_def dll_def)
qed

lemma heap_shape_tiles:
  assumes "heap_shape s (xs @ (a, n, f) # ys)"
  shows "tiles (heap_start s) xs a" and "tiles (a + 32 + n) ys (heap_end s)"
proof -
  have "tiles (heap_start s) (xs @ (a, n, f) # ys) (heap_end s)" using assms by (simp add: heap_shape_def)
  from tiles_middle [OF this]
  show "tiles (heap_start s) xs a" "tiles (a + 32 + n) ys (heap_end s)" by blast+
qed

lemma heap_shape_apart:
  assumes "heap_shape s (xs @ (a, n, f) # ys)" and "(a', n', f') \<in> set xs \<union> set ys"
  shows "a' + 32 + n' \<le> a \<or> a + 32 + n \<le> a'"
proof -
  note t = heap_shape_tiles [OF assms(1)]
  show ?thesis using assms(2) tiles_mem [OF t(1), of a' n' f'] tiles_mem [OF t(2), of a' n' f'] by auto
qed

subsection \<open>Using a whole block\<close>

definition use_block :: "nat \<Rightarrow> heap \<Rightarrow> heap" where
  "use_block b s = write_footer b (upd_hdr b (\<lambda>h. h\<lparr>bfree := False, bnext := 0, bprev := 0\<rparr>) s)"

lemma split_and_use_whole:
  "leftover = sub64 (bsize (hdr s b)) need \<Longrightarrow> leftover < 64 \<Longrightarrow>
    split_and_use b need s = use_block b (remove_free_block b s)"
  by (simp add: split_and_use_def use_block_def heap_consts)

lemma remove_free_block_simps [simp]:
  "ftr (remove_free_block b s) = ftr s" "mem (remove_free_block b s) = mem s"
  "heap_start (remove_free_block b s) = heap_start s" "heap_end (remove_free_block b s) = heap_end s"
  "heap_size (remove_free_block b s) = heap_size s"
  "total_allocated (remove_free_block b s) = total_allocated s"
  "total_free (remove_free_block b s) = total_free s"
  "bsize (hdr (remove_free_block b s) z) = bsize (hdr s z)"
  "bmagic (hdr (remove_free_block b s) z) = bmagic (hdr s z)"
  "z \<noteq> b \<Longrightarrow> bfree (hdr (remove_free_block b s) z) = bfree (hdr s z)"
  by (simp_all add: remove_free_block_def Let_def)

lemma use_block_simps [simp]:
  "mem (use_block b s) = mem s"
  "heap_start (use_block b s) = heap_start s" "heap_end (use_block b s) = heap_end s"
  "heap_size (use_block b s) = heap_size s"
  "total_allocated (use_block b s) = total_allocated s" "total_free (use_block b s) = total_free s"
  "bsize (hdr (use_block b s) z) = bsize (hdr s z)"
  "bmagic (hdr (use_block b s) z) = bmagic (hdr s z)"
  "z \<noteq> b \<Longrightarrow> hdr (use_block b s) z = hdr s z"
  "bfree (hdr (use_block b s) b) = False"
  "free_list_head (use_block b s) = free_list_head s"
  "ftr (use_block b s) = (ftr s)(block_footer b s := FOOTER_MAGIC)"
  by (simp_all add: use_block_def) (simp add: write_footer_def block_footer_def)

lemma heap_shape_use_whole:
  assumes shape: "heap_shape s (xs @ (a, n, True) # ys)"
  shows "heap_shape (use_block a (remove_free_block a s)) (xs @ (a, n, False) # ys)" (is "heap_shape ?s _")
proof -
  let ?A = "free_addrs xs" and ?B = "free_addrs ys"
  obtain x y where xy: "x = last (0 # ?A)" "y = hd (?B @ [0])" "x = 0 \<or> x \<in> set ?A" "y = 0 \<or> y \<in> set ?B"
    "links s (0 # ?A @ [a] @ ?B @ [0])" "links s (x # [a] @ [y])" "distinct (0 # ?A @ [a] @ ?B)"
    using free_list_around [OF shape, of ?A "[a]" ?B] by auto
  have a: "0 < a" using heap_shape_block(5) [OF shape] by auto
  then have p: "bprev (hdr s a) = x" "bnext (hdr s a) = y" using xy(6) by (simp_all add: nxt_def)
  have ne: "a \<noteq> x" "a \<noteq> y" "x = y \<longrightarrow> x = 0" using xy(3,4,7) a by auto
  have foot: "block_footer a (remove_free_block a s) = a + 28 + n"
    using heap_shape_valid(3) [OF shape, of a n True] by (simp add: block_footer_def)
  have nx: "nxt ?s z = (if z = x then y else nxt s z)" if "z \<noteq> a" for z
    using that ne by (auto simp: nxt_def remove_free_block_def p Let_def)
  have pv: "bprev (hdr (remove_free_block a s) z) = (if z = y then x else bprev (hdr s z))"
    if "z \<noteq> a" "z \<noteq> 0" for z
    using that ne by (auto simp: remove_free_block_def p Let_def)
  have l: "links ?s (0 # ?A @ [] @ ?B @ [0])"
  proof (rule links_update [OF xy(5,7), where D = "{a}"], unfold xy(1,2) [symmetric])
    show "links ?s (x # [] @ [y])" using nx [of x] pv [of y] ne by auto
    show "{a} \<inter> set (0 # ?A @ ?B) = {}" using xy(7) by auto
  qed (simp_all add: nx pv)
  have "heap_shape ?s (xs @ [(a, n, False)] @ ys)"
  proof (rule heap_shape_change [where mid = "[(a, n, True)]"])
    show "heap_shape s (xs @ [(a, n, True)] @ ys)" using shape by simp
    fix a' n' f'
    assume m: "(a', n', f') \<in> set xs \<union> set ys"
    then have "a' \<noteq> a" "a' + 28 + n' \<noteq> a + 28 + n"
      using heap_shape_apart [OF shape m] heap_shape_block(3) [OF shape, of a n True] heap_shape_block(3) [OF shape, of a' n' f']
      by auto
    then show "bsize (hdr ?s a') = bsize (hdr s a') \<and> bfree (hdr ?s a') = bfree (hdr s a') \<and>
      bmagic (hdr ?s a') = bmagic (hdr s a') \<and> ftr ?s (a' + 28 + n') = ftr s (a' + 28 + n')"
      by (simp add: foot)
  next
    show "\<forall>b \<in> set [(a, n, False)]. block_ok ?s b"
      using heap_shape_block(7,9) [OF shape, of a n True] by (simp add: block_ok_def)
    show "links ?s (0 # free_addrs xs @ free_addrs [(a, n, False)] @ free_addrs ys @ [0])" using l by simp
  qed auto
  then show ?thesis by simp
qed

subsection \<open>Splitting a block\<close>

lemma free_addrs_apart:
  assumes "heap_shape s (xs @ (a, n, f) # ys)" and "z \<in> set (free_addrs xs) \<union> set (free_addrs ys)"
  shows "z + 32 \<le> a \<or> a + 32 + n \<le> z"
proof -
  obtain n' where "(z, n', True) \<in> set xs \<union> set ys" using assms(2) by (auto simp: free_addrs_mem)
  then show ?thesis using heap_shape_apart [OF assms(1), of z n' True] by auto
qed

lemma split_and_use_split:
  assumes "b + 32 + bsize (hdr s b) < 2 ^ 64" and "need + 64 \<le> bsize (hdr s b)"
    and "x = bprev (hdr s b)" and "y = bnext (hdr s b)" and "r = b + 32 + need"
    and "x \<noteq> b" and "x \<noteq> r" and "y \<noteq> b" and "y \<noteq> r" and "t = split_and_use b need s"
  shows "hdr t z = (if z = r then \<lparr>bsize = bsize (hdr s b) - need - 32, bnext = y, bprev = x,
            bfree = True, bmagic = BLOCK_MAGIC\<rparr>
         else if z = b then (hdr s b)\<lparr>bsize := need, bfree := False, bnext := 0, bprev := 0\<rparr>
         else (hdr s z)\<lparr>bnext := if x \<noteq> 0 \<and> z = x then r else bnext (hdr s z),
                        bprev := if y \<noteq> 0 \<and> z = y then r else bprev (hdr s z)\<rparr>)"
    and "ftr t = (ftr s)(b + 28 + bsize (hdr s b) := FOOTER_MAGIC, b + 28 + need := FOOTER_MAGIC)"
    and "free_list_head t = (if x = 0 then r else free_list_head s)"
    and "heap_start t = heap_start s" and "heap_end t = heap_end s" and "heap_size t = heap_size s"
    and "total_allocated t = total_allocated s" and "total_free t = total_free s" and "mem t = mem s"
proof -
  have e: "sub64 (bsize (hdr s b)) need = bsize (hdr s b) - need" using assms(1,2) by (simp add: wrap)
  have r: "w64 (b + HEADER_SIZE + need) = r" using assms(1,2,5) by (simp add: wrap heap_consts)
  have le: "HEADER_SIZE + MIN_BLOCK_SIZE \<le> bsize (hdr s b) - need" using assms(2) by (simp add: heap_consts)
  have rb: "r \<noteq> b" using assms(5) by simp
  define s1 where "s1 = upd_hdr r (\<lambda>h. \<lparr>bsize = bsize (hdr s b) - need - HEADER_SIZE, bnext = 0, bprev = 0,
      bfree = False, bmagic = BLOCK_MAGIC\<rparr>) s"
  have foot: "block_footer r s1 = b + 28 + bsize (hdr s b)"
    using assms(1,2,5) by (simp add: block_footer_def s1_def heap_consts wrap)
  define s2 where "s2 = s1\<lparr>ftr := (ftr s)(b + 28 + bsize (hdr s b) := FOOTER_MAGIC)\<rparr>"
  have s2: "write_footer r s1 = s2" unfolding write_footer_def foot by (simp add: s2_def s1_def)
  define s3 where "s3 = upd_hdr r (\<lambda>h. h\<lparr>bnext := y, bprev := x\<rparr>) s2"
  define s4 where "s4 = (if x \<noteq> 0 then upd_hdr x (bnext_update (\<lambda>_. r)) s3 else s3\<lparr>free_list_head := r\<rparr>)"
  define s5 where "s5 = (if y \<noteq> 0 then upd_hdr y (bprev_update (\<lambda>_. r)) s4 else s4)"
  define s7 where "s7 = upd_stats (split_count_update (\<lambda>c. w64 (c + 1)))
      (upd_hdr b (bsize_update (\<lambda>_. need)) (upd_hdr r (bfree_update (\<lambda>_. True)) s5))"
  have t: "t = use_block b s7"
    unfolding assms(10) split_and_use_def Let_def e r if_P [OF le] use_block_def
      s7_def s5_def s4_def s3_def s2 [symmetric] s1_def assms(3,4) by (rule refl)
  have h5: "hdr s5 z = (if z = r then \<lparr>bsize = bsize (hdr s b) - need - 32, bnext = y, bprev = x,
            bfree = False, bmagic = BLOCK_MAGIC\<rparr>
         else (hdr s z)\<lparr>bnext := if x \<noteq> 0 \<and> z = x then r else bnext (hdr s z),
                        bprev := if y \<noteq> 0 \<and> z = y then r else bprev (hdr s z)\<rparr>)" for z
    using assms(7,9) by (simp add: s5_def s4_def s3_def s2_def s1_def heap_consts)
  have h7: "hdr s7 z = (if z = r then \<lparr>bsize = bsize (hdr s b) - need - 32, bnext = y, bprev = x,
            bfree = True, bmagic = BLOCK_MAGIC\<rparr>
         else if z = b then (hdr s b)\<lparr>bsize := need\<rparr>
         else (hdr s z)\<lparr>bnext := if x \<noteq> 0 \<and> z = x then r else bnext (hdr s z),
                        bprev := if y \<noteq> 0 \<and> z = y then r else bprev (hdr s z)\<rparr>)" for z
    using assms(6,8) rb by (simp add: s7_def h5)
  show "hdr t z = (if z = r then \<lparr>bsize = bsize (hdr s b) - need - 32, bnext = y, bprev = x,
            bfree = True, bmagic = BLOCK_MAGIC\<rparr>
         else if z = b then (hdr s b)\<lparr>bsize := need, bfree := False, bnext := 0, bprev := 0\<rparr>
         else (hdr s z)\<lparr>bnext := if x \<noteq> 0 \<and> z = x then r else bnext (hdr s z),
                        bprev := if y \<noteq> 0 \<and> z = y then r else bprev (hdr s z)\<rparr>)"
    using rb by (simp add: t use_block_def h7)
  have "block_footer b s7 = b + 28 + need"
    using assms(1,2) rb by (simp add: block_footer_def h7 heap_consts wrap)
  then show "ftr t = (ftr s)(b + 28 + bsize (hdr s b) := FOOTER_MAGIC, b + 28 + need := FOOTER_MAGIC)"
    by (simp add: t) (simp add: s7_def s5_def s4_def s3_def s2_def)
  show "free_list_head t = (if x = 0 then r else free_list_head s)"
    by (simp add: t) (simp add: s7_def s5_def s4_def s3_def s2_def s1_def)
  show "heap_start t = heap_start s" "heap_end t = heap_end s" "heap_size t = heap_size s"
    "total_allocated t = total_allocated s" "total_free t = total_free s" "mem t = mem s"
    by (simp_all add: t) (simp_all add: s7_def s5_def s4_def s3_def s2_def s1_def)
qed

lemma heap_shape_split:
  assumes shape: "heap_shape s (xs @ (a, n, True) # ys)" and need: "need + 64 \<le> n" "32 \<le> need" "16 dvd need"
  shows "heap_shape (split_and_use a need s)
    (xs @ (a, need, False) # (a + 32 + need, n - need - 32, True) # ys)" (is "heap_shape ?s _")
proof -
  let ?A = "free_addrs xs" and ?B = "free_addrs ys" and ?r = "a + 32 + need"
  obtain x y where xy: "x = last (0 # ?A)" "y = hd (?B @ [0])" "x = 0 \<or> x \<in> set ?A" "y = 0 \<or> y \<in> set ?B"
    "links s (0 # ?A @ [a] @ ?B @ [0])" "links s (x # [a] @ [y])" "distinct (0 # ?A @ [a] @ ?B)"
    using free_list_around [OF shape, of ?A "[a]" ?B] by auto
  note blk = heap_shape_block [OF shape, of a n True, simplified]
  have r: "?r \<notin> set (?A @ ?B)" using free_addrs_apart [OF shape] need(1) by fastforce
  have p: "x = bprev (hdr s a)" "y = bnext (hdr s a)" using xy(6) blk(5) by (simp_all add: nxt_def)
  have ne: "x \<noteq> a" "x \<noteq> ?r" "y \<noteq> a" "y \<noteq> ?r" "x = y \<longrightarrow> x = 0" using xy(3,4,7) r blk(5) by auto
  have pre: "a + 32 + bsize (hdr s a) < 2 ^ 64" "need + 64 \<le> bsize (hdr s a)" using blk need by simp_all
  note sp = split_and_use_split [OF pre p refl ne(1-4) refl, unfolded blk(7)]
  have l: "links ?s (0 # ?A @ [?r] @ ?B @ [0])"
  proof (rule links_update [OF xy(5,7), where D = "{a, ?r}"], unfold xy(1,2) [symmetric])
    show "links ?s (x # [?r] @ [y])" using ne by (auto simp: nxt_def sp(1,3))
    show "{a, ?r} \<inter> set (0 # ?A @ ?B) = {}" using xy(7) r by auto
  qed (auto simp: nxt_def sp(1,3))
  have "heap_shape ?s (xs @ [(a, need, False), (?r, n - need - 32, True)] @ ys)"
  proof (rule heap_shape_change [where mid = "[(a, n, True)]"])
    show "heap_shape s (xs @ [(a, n, True)] @ ys)" using shape by simp
    show "tiles lo [(a, need, False), (?r, n - need - 32, True)] hi" if "tiles lo [(a, n, True)] hi" for lo hi
      using that need by (auto simp: dvd_diff_nat)
    fix a' n' f'
    assume m: "(a', n', f') \<in> set xs \<union> set ys"
    then have "a' \<noteq> a" "a' \<noteq> ?r" "a' + 28 + n' \<noteq> a + 28 + n" "a' + 28 + n' \<noteq> a + 28 + need"
      using heap_shape_apart [OF shape m] need heap_shape_block(3) [OF shape, of a' n' f'] by auto
    then show "bsize (hdr ?s a') = bsize (hdr s a') \<and> bfree (hdr ?s a') = bfree (hdr s a') \<and>
      bmagic (hdr ?s a') = bmagic (hdr s a') \<and> ftr ?s (a' + 28 + n') = ftr s (a' + 28 + n')"
      by (simp add: sp(1,2))
  next
    show "\<forall>b \<in> set [(a, need, False), (?r, n - need - 32, True)]. block_ok ?s b"
      using need blk by (simp add: block_ok_def sp(1,2))
    show "links ?s (0 # free_addrs xs @ free_addrs [(a, need, False), (?r, n - need - 32, True)] @ free_addrs ys @ [0])"
      using l by simp
  qed (simp_all add: sp(4-6))
  then show ?thesis by simp
qed

subsection \<open>Marking a block free\<close>

lemma insert_position_links:
  assumes "A \<noteq> []" and "links s (A @ B @ [0])" and "\<forall>z \<in> set A. 0 < z \<and> z < b" and "\<forall>z \<in> set B. b < z"
  shows "insert_position (hdr s) b (hd A) = Some (last A)"
  using assms
proof (induction A)
  case (Cons a A)
  show ?case
  proof (cases "A = []")
    case True
    then have "bnext (hdr s a) = hd (B @ [0])" using Cons.prems(2,3) by (cases B) (auto simp: nxt_def)
    then have "\<not> (bnext (hdr s a) \<noteq> 0 \<and> bnext (hdr s a) < b)" using Cons.prems(4) by (cases B) auto
    then show ?thesis using True by (subst insert_position.simps) auto
  next
    case False
    then have "bnext (hdr s a) = hd A" "links s (A @ B @ [0])"
      using Cons.prems(2,3) by (cases A; auto simp: nxt_def)+
    moreover have "0 < hd A" "hd A < b" using False Cons.prems(3) by (cases A; auto)+
    ultimately show ?thesis
      using False Cons.IH Cons.prems(3,4) by (subst insert_position.simps) simp
  qed
qed simp

definition linked_in :: "nat \<Rightarrow> nat \<Rightarrow> nat \<Rightarrow> heap \<Rightarrow> heap \<Rightarrow> bool" where
  "linked_in x b y s t \<longleftrightarrow>
     (\<forall>z. hdr t z = (if z = b then (hdr s b)\<lparr>bfree := True, bnext := y, bprev := x\<rparr>
         else (hdr s z)\<lparr>bnext := if x \<noteq> 0 \<and> z = x then b else bnext (hdr s z),
                        bprev := if y \<noteq> 0 \<and> z = y then b else bprev (hdr s z)\<rparr>)) \<and>
     free_list_head t = (if x = 0 then b else free_list_head s) \<and> ftr t = ftr s \<and> mem t = mem s \<and>
     heap_start t = heap_start s \<and> heap_end t = heap_end s \<and> heap_size t = heap_size s \<and>
     total_allocated t = total_allocated s \<and> total_free t = total_free s"

lemma insert_free_block_links:
  assumes l: "links s (0 # A @ B @ [0])" and A: "\<forall>z \<in> set A. 0 < z \<and> z < b" and B: "\<forall>z \<in> set B. b < z"
    and b: "0 < b" and x: "x = last (0 # A)" and y: "y = hd (B @ [0])"
  shows "\<exists>t. insert_free_block b s = Done t \<and> linked_in x b y s t"
proof (cases "A = []")
  case True
  then have "free_list_head s = y" using l y by (cases B) (auto simp: nxt_def)
  moreover have "y = 0 \<or> b < y" using y B by (cases B) auto
  ultimately show ?thesis
    using True x b by (auto simp: insert_free_block_def Let_def linked_in_def)
next
  case False
  let ?s = "upd_hdr b (bfree_update (\<lambda>_. True)) s"
  have nxt: "nxt ?s = nxt s" by (rule ext) (simp add: nxt_def)
  have lA: "links s (A @ B @ [0])" and "free_list_head s = hd A"
    using l False by (cases A; auto simp: nxt_def)+
  have "links ?s (A @ B @ [0])" by (rule links_frame [OF lA]) (simp_all add: nxt)
  then have pos: "insert_position (hdr ?s) b (free_list_head s) = Some x"
    using insert_position_links [OF False _ A B] \<open>free_list_head s = hd A\<close> x False by simp
  have xA: "x \<in> set A" using x False by simp
  then have x0: "x \<noteq> 0" "x \<noteq> b" using A by auto
  have "bnext (hdr s x) = y"
    using links_middle [of s A "[]" B] l x y x0 by (simp add: nxt_def)
  moreover have "y = 0 \<or> b < y" using y B by (cases B) auto
  moreover have "free_list_head s \<noteq> 0 \<and> \<not> b < free_list_head s"
    using \<open>free_list_head s = hd A\<close> A False by (cases A) auto
  ultimately show ?thesis
    using x0 pos xA A by (auto simp: insert_free_block_def Let_def linked_in_def)
qed

lemma heap_shape_insert:
  assumes shape: "heap_shape s (xs @ (a, n, False) # ys)" and foot: "ftr s (a + 28 + n) = FOOTER_MAGIC"
  shows "\<exists>t x y. insert_free_block a s = Done t \<and> linked_in x a y s t \<and> heap_shape t (xs @ (a, n, True) # ys)"
proof -
  let ?A = "free_addrs xs" and ?B = "free_addrs ys"
  obtain x y where xy: "x = last (0 # ?A)" "y = hd (?B @ [0])" "x = 0 \<or> x \<in> set ?A" "y = 0 \<or> y \<in> set ?B"
    "links s (0 # ?A @ [] @ ?B @ [0])" "distinct (0 # ?A @ [] @ ?B)"
    using free_list_around [OF shape, of ?A "[]" ?B] by auto
  note blk = heap_shape_block [OF shape, of a n False, simplified]
  note t = heap_shape_tiles [OF shape]
  have A: "\<forall>z \<in> set ?A. 0 < z \<and> z < a" using tiles_free_addrs [OF t(1)] xy(6) by fastforce
  have B: "\<forall>z \<in> set ?B. a < z" using tiles_free_addrs [OF t(2)] by fastforce
  obtain s' where s': "insert_free_block a s = Done s'" "linked_in x a y s s'"
    using insert_free_block_links [of s ?A ?B a x y] xy A B blk(5) by auto
  have ne: "x \<noteq> a" "y \<noteq> a" using xy(3,4) A B blk(5) by auto
  note li = s'(2) [unfolded linked_in_def]
  have l: "links s' (0 # ?A @ [a] @ ?B @ [0])"
  proof (rule links_update [OF xy(5,6), where D = "{a}"], unfold xy(1,2) [symmetric])
    show "links s' (x # [a] @ [y])" using ne li blk(5) by (auto simp: nxt_def)
    show "{a} \<inter> set (0 # ?A @ ?B) = {}" using A B blk(5) by auto
  qed (use li in \<open>auto simp: nxt_def\<close>)
  have "heap_shape s' (xs @ [(a, n, True)] @ ys)"
  proof (rule heap_shape_change [where mid = "[(a, n, False)]"])
    show "heap_shape s (xs @ [(a, n, False)] @ ys)" using shape by simp
    fix a' n' f'
    assume m: "(a', n', f') \<in> set xs \<union> set ys"
    then have "a' \<noteq> a" using heap_shape_apart [OF shape m] blk(3) heap_shape_block(3) [OF shape, of a' n' f'] by auto
    then show "bsize (hdr s' a') = bsize (hdr s a') \<and> bfree (hdr s' a') = bfree (hdr s a') \<and>
      bmagic (hdr s' a') = bmagic (hdr s a') \<and> ftr s' (a' + 28 + n') = ftr s (a' + 28 + n')"
      using li by simp
  next
    show "\<forall>b \<in> set [(a, n, True)]. block_ok s' b" using li blk foot by (simp add: block_ok_def)
    show "links s' (0 # free_addrs xs @ free_addrs [(a, n, True)] @ free_addrs ys @ [0])" using l by simp
  qed (use li in auto)
  then show ?thesis using s' by auto
qed

subsection \<open>Merging neighbours\<close>

lemma heap_shape_merge:
  assumes shape: "heap_shape s (xs @ (a, n, True) # (b, m, True) # ys)"
  shows "heap_shape (try_merge_with_next a s) (xs @ (a, n + 32 + m, True) # ys)" (is "heap_shape ?s _")
    and "b = a + 32 + n"
proof -
  let ?A = "free_addrs xs" and ?B = "free_addrs ys"
  obtain x y where xy: "x = last (0 # ?A)" "y = hd (?B @ [0])" "x = 0 \<or> x \<in> set ?A" "y = 0 \<or> y \<in> set ?B"
    "links s (0 # ?A @ [a, b] @ ?B @ [0])" "links s (x # [a, b] @ [y])" "distinct (0 # ?A @ [a, b] @ ?B)"
    using free_list_around [OF shape, of ?A "[a, b]" ?B] by auto
  note blk = heap_shape_block [OF shape, of a n True, simplified]
  note blb = heap_shape_block [OF shape, of b m True, simplified]
  have "tiles (a + 32 + n) ((b, m, True) # ys) (heap_end s)" by (rule heap_shape_tiles(2) [OF shape])
  then show b: "b = a + 32 + n" by simp
  have p: "bprev (hdr s a) = x" "bnext (hdr s a) = b" "bprev (hdr s b) = a" "bnext (hdr s b) = y"
    using xy(6) blk(5) blb(5) by (auto simp: nxt_def split: if_splits)
  have ne: "x \<noteq> a" "x \<noteq> b" "y \<noteq> a" "y \<noteq> b" using xy(3,4,7) blk(5) blb(5) by auto
  have ab: "a \<noteq> b" using b by simp
  have w: "w64 (a + HEADER_SIZE + n) = b" "w64 (n + (HEADER_SIZE + m)) = n + 32 + m"
    using blk(6) blb(6) b by (simp_all add: wrap heap_consts)
  have h: "hdr ?s z = (if z = a then (hdr s a)\<lparr>bsize := n + 32 + m, bnext := y\<rparr>
      else if z = b then (hdr s b)\<lparr>bmagic := 0xDEAD0000\<rparr>
      else (hdr s z)\<lparr>bprev := if y \<noteq> 0 \<and> z = y then a else bprev (hdr s z)\<rparr>)" for z
    using ne ab blb(5) by (simp add: try_merge_with_next_def Let_def p blk(7) blb(7) w)
  have hh: "free_list_head ?s = free_list_head s" "ftr ?s = ftr s" "heap_start ?s = heap_start s"
    "heap_end ?s = heap_end s" "heap_size ?s = heap_size s"
    by (simp_all add: try_merge_with_next_def Let_def)
  have l: "links ?s (0 # ?A @ [a] @ ?B @ [0])"
  proof (rule links_update [OF xy(5,7), where D = "{a, b}"], unfold xy(1,2) [symmetric])
    show "links ?s (x # [a] @ [y])" using ne xy(6) blk(5) by (auto simp: nxt_def h hh p split: if_splits)
    show "{a, b} \<inter> set (0 # ?A @ ?B) = {}" using xy(7) by auto
  qed (auto simp: nxt_def h hh)
  have foot: "a + 28 + (n + 32 + m) = b + 28 + m" using b by simp
  have "heap_shape ?s (xs @ [(a, n + 32 + m, True)] @ ys)"
  proof (rule heap_shape_change [where mid = "[(a, n, True), (b, m, True)]"])
    show "heap_shape s (xs @ [(a, n, True), (b, m, True)] @ ys)" using shape by simp
    show "tiles lo [(a, n + 32 + m, True)] hi" if "tiles lo [(a, n, True), (b, m, True)] hi" for lo hi
      using that by auto
    fix a' n' f'
    assume m': "(a', n', f') \<in> set xs \<union> set ys"
    then have "a' \<noteq> a" using heap_shape_apart [OF shape, of a' n' f'] blk(3) heap_shape_block(3) [OF shape, of a' n' f'] by auto
    moreover have "a' \<noteq> b"
      using heap_shape_apart [of s "xs @ [(a, n, True)]" b m True ys a' n' f'] shape m' blb(3) heap_shape_block(3) [OF shape, of a' n' f']
      by auto
    ultimately show "bsize (hdr ?s a') = bsize (hdr s a') \<and> bfree (hdr ?s a') = bfree (hdr s a') \<and>
      bmagic (hdr ?s a') = bmagic (hdr s a') \<and> ftr ?s (a' + 28 + n') = ftr s (a' + 28 + n')"
      by (simp add: h hh)
  next
    show "\<forall>b \<in> set [(a, n + 32 + m, True)]. block_ok ?s b"
      using blk blb unfolding block_ok_def by (simp add: h hh foot)
    show "links ?s (0 # free_addrs xs @ free_addrs [(a, n + 32 + m, True)] @ free_addrs ys @ [0])" using l by simp
  qed (simp_all add: hh)
  then show "heap_shape ?s (xs @ (a, n + 32 + m, True) # ys)" by simp
qed

lemma try_merge_keeps:
  "mem (try_merge_with_next b s) = mem s" "ftr (try_merge_with_next b s) = ftr s"
  "heap_size (try_merge_with_next b s) = heap_size s" "heap_start (try_merge_with_next b s) = heap_start s"
  "heap_end (try_merge_with_next b s) = heap_end s"
  "total_allocated (try_merge_with_next b s) = total_allocated s"
  "total_free (try_merge_with_next b s) = total_free s"
  by (simp_all add: try_merge_with_next_def Let_def)

text \<open>
  One pass of \<^verbatim>\<open>coalesce\<close> on the block list: a free block absorbs its successor if that is free too,
  and the pass goes on behind the absorbed block.
\<close>

fun coal :: "block list \<Rightarrow> block list" where
  "coal [] = []"
| "coal ((a, n, False) # bs) = (a, n, False) # coal bs"
| "coal [(a, n, True)] = [(a, n, True)]"
| "coal ((a, n, True) # (b, m, False) # bs) = (a, n, True) # coal ((b, m, False) # bs)"
| "coal ((a, n, True) # (b, m, True) # bs) = (a, n + 32 + m, True) # coal bs"

lemma next_free:
  assumes shape: "heap_shape s (xs @ (a, n, True) # ys)"
  shows "bnext (hdr s a) = hd (free_addrs ys @ [0])"
proof -
  obtain x y where "y = hd (free_addrs ys @ [0])" "links s (x # [a] @ [y])"
    using free_list_around [OF shape, of "free_addrs xs" "[a]" "free_addrs ys"] by auto
  then show ?thesis using heap_shape_block(5) [OF shape, of a n True] by (auto simp: nxt_def)
qed

lemma try_merge_apart:
  assumes shape: "heap_shape s (xs @ (a, n, True) # ys)" and ys: "\<And>b m zs. ys \<noteq> (b, m, True) # zs"
  shows "try_merge_with_next a s = s"
proof -
  let ?B = "free_addrs ys"
  define y where y0: "y = hd (?B @ [0])"
  have y: "y = hd (?B @ [0])" "y = 0 \<or> y \<in> set ?B" "bnext (hdr s a) = y"
    using next_free [OF shape] by (cases ?B; simp add: y0)+
  note blk = heap_shape_block [OF shape, of a n True, simplified]
  have "y \<noteq> a + 32 + n" if "y \<noteq> 0"
  proof (cases ys)
    case (Cons c cs)
    obtain b m f where c: "c = (b, m, f)" by (cases c)
    have "\<not> f" using ys Cons c by (cases f) auto
    then have "y \<in> set (free_addrs cs)" using y(2) that Cons c by simp
    moreover have "tiles (a + 32 + n) ((b, m, f) # cs) (heap_end s)"
      using heap_shape_tiles(2) [OF shape] unfolding Cons c .
    then have "b = a + 32 + n" "tiles (b + 32 + m) cs (heap_end s)" unfolding tiles.simps by blast+
    ultimately show ?thesis using tiles_free_addrs [of "b + 32 + m" cs "heap_end s" y] by auto
  qed (use y that in simp)
  moreover have "w64 (a + 32 + n) = a + 32 + n" using blk(6) by (simp add: wrap)
  ultimately show ?thesis by (auto simp: try_merge_with_next_def y(3) blk(7) heap_consts)
qed

definition same_frame :: "heap \<Rightarrow> heap \<Rightarrow> bool" where
  "same_frame s t \<longleftrightarrow> mem t = mem s \<and> ftr t = ftr s \<and> heap_size t = heap_size s \<and> heap_start t = heap_start s \<and>
     heap_end t = heap_end s \<and> total_allocated t = total_allocated s \<and> total_free t = total_free s"

lemma coalesce_loop_coal:
  assumes "heap_shape s (xs @ bs)" and "cur = hd (free_addrs bs @ [0])"
    and "visited + length (free_addrs bs) \<le> maxb"
  shows "\<exists>t. coalesce_loop maxb visited cur s = Done t \<and> heap_shape t (xs @ coal bs) \<and> same_frame s t"
  using assms
proof (induction bs arbitrary: xs s cur visited rule: coal.induct)
  case 1
  then show ?case by (simp add: coalesce_loop.simps same_frame_def)
next
  case (2 a n bs)
  then show ?case using "2.IH" [of s "xs @ [(a, n, False)]" cur visited] by simp
next
  case (3 a n)
  have "try_merge_with_next a s = s" by (rule try_merge_apart [OF "3.prems"(1)]) simp
  moreover have "bnext (hdr s a) = 0" using next_free [OF "3.prems"(1)] by simp
  moreover have "validate_block_fast a s" "a \<noteq> 0"
    using heap_shape_valid(1) [OF "3.prems"(1), of a n True] heap_shape_block(5) [OF "3.prems"(1), of a n True] by auto
  ultimately have "coalesce_loop maxb visited cur s = Done s"
    using "3.prems"(2,3) by (subst coalesce_loop.simps) (simp add: Let_def coalesce_loop.simps)
  then show ?case using "3.prems"(1) by (auto simp: same_frame_def)
next
  case (4 a n b m bs)
  have mg: "try_merge_with_next a s = s" by (rule try_merge_apart [OF "4.prems"(1)]) simp
  have nx: "bnext (hdr s a) = hd (free_addrs ((b, m, False) # bs) @ [0])" by (rule next_free [OF "4.prems"(1)])
  have "validate_block_fast a s" "a \<noteq> 0"
    using heap_shape_valid(1) [OF "4.prems"(1), of a n True] heap_shape_block(5) [OF "4.prems"(1), of a n True] by auto
  then have step: "coalesce_loop maxb visited cur s = coalesce_loop maxb (visited + 1) (bnext (hdr s a)) s"
    using "4.prems"(2,3) mg by (subst coalesce_loop.simps) (simp add: Let_def)
  show ?case
    using "4.IH" [of s "xs @ [(a, n, True)]" _ "visited + 1", OF _ nx] "4.prems"
    unfolding step by simp
next
  case (5 a n b m bs)
  let ?s = "try_merge_with_next a s"
  note merged = heap_shape_merge(1) [OF "5.prems"(1)]
  have nx: "bnext (hdr ?s a) = hd (free_addrs bs @ [0])" by (rule next_free [OF merged])
  have "validate_block_fast a s" "a \<noteq> 0"
    using heap_shape_valid(1) [OF "5.prems"(1), of a n True] heap_shape_block(5) [OF "5.prems"(1), of a n True] by auto
  then have step: "coalesce_loop maxb visited cur s = coalesce_loop maxb (visited + 1) (bnext (hdr ?s a)) ?s"
    using "5.prems"(2,3) by (subst coalesce_loop.simps) (simp add: Let_def)
  obtain t where "coalesce_loop maxb (visited + 1) (bnext (hdr ?s a)) ?s = Done t"
    "heap_shape t ((xs @ [(a, n + 32 + m, True)]) @ coal bs)" "same_frame ?s t"
    using "5.IH" [of ?s "xs @ [(a, n + 32 + m, True)]" _ "visited + 1", OF _ nx] merged "5.prems"(3) by auto
  then show ?case unfolding step by (auto simp: same_frame_def try_merge_keeps)
qed

lemma coalesce_coal:
  assumes "heap_shape s bs"
  shows "\<exists>t. coalesce s = Done t \<and> heap_shape t (coal bs) \<and> same_frame s t"
proof -
  have "links s (0 # [] @ [] @ free_addrs bs @ [0])" using assms by (simp add: heap_shape_def dll_def)
  from links_middle [OF this] have "free_list_head s = hd (free_addrs bs @ [0])"
    by (simp add: nxt_def)
  then show ?thesis
    using coalesce_loop_coal [of s "[]" bs "free_list_head s" 0 "max_blocks s"] assms heap_shape_free_bound [OF assms]
    by (simp add: coalesce_def)
qed

lemma coal_allocated: "allocated (coal bs) = allocated bs"
  by (induction bs rule: coal.induct) auto

lemma coal_live: "(a, n, False) \<in> set (coal bs) \<longleftrightarrow> (a, n, False) \<in> set bs"
  by (induction bs rule: coal.induct) auto

end
