(* ===== verification/Allocator_Spec.thy ===== *)
theory Allocator_Spec
  imports Allocator_Inv
begin

text \<open>
  The heap as its clients see it: a map from the pointers handed out to their usable sizes. The
  block list of a state is recovered by walking the headers; allocation, freeing and resizing are
  shown to change the map the way \<^verbatim>\<open>malloc\<close> and \<^verbatim>\<open>free\<close> should, through one interface locale.
\<close>

section \<open>The block list and the live map of a state\<close>

function heap_walk :: "heap \<Rightarrow> nat \<Rightarrow> block list" where
  "heap_walk s a =
     (if a < heap_end s
      then (a, bsize (hdr s a), bfree (hdr s a)) # heap_walk s (a + 32 + bsize (hdr s a)) else [])"
  by pat_completeness auto
termination
  by (relation "measure (\<lambda>(s, a). heap_end s - a)") auto

declare heap_walk.simps [simp del]

definition heap_blocks :: "heap \<Rightarrow> block list" where
  "heap_blocks s = heap_walk s (heap_start s)"

definition live_of :: "block list \<Rightarrow> nat \<Rightarrow> nat option" where
  "live_of bs = map_of [(a + 32, n - 4). (a, n, f) \<leftarrow> bs, \<not> f]"

definition live :: "heap \<Rightarrow> nat \<Rightarrow> nat option" where
  "live s = live_of (heap_blocks s)"

definition guards :: "heap \<Rightarrow> block list \<Rightarrow> bool" where
  "guards s bs \<longleftrightarrow> (\<forall>(a, n, f) \<in> set bs. ftr s (a + 28 + n) = FOOTER_MAGIC)"

text \<open>The invariant: the tiling with its free list, the accounting, and intact footers.\<close>

definition heap_inv :: "heap \<Rightarrow> bool" where
  "heap_inv s \<longleftrightarrow> heap_rel s (heap_blocks s) \<and> guards s (heap_blocks s)"

definition request_ok :: "nat \<Rightarrow> bool" where
  "request_ok sz \<longleftrightarrow> 0 < sz \<and> sz + 19 < 2 ^ 64"

lemma guardsD: "guards s bs \<Longrightarrow> (a, n, f) \<in> set bs \<Longrightarrow> ftr s (a + 28 + n) = FOOTER_MAGIC"
  unfolding guards_def by fast

lemma heap_shape_cong:
  assumes "hdr t = hdr s" and "ftr t = ftr s" and "free_list_head t = free_list_head s"
    and "heap_start t = heap_start s" and "heap_end t = heap_end s" and "heap_size t = heap_size s"
  shows "heap_shape t bs = heap_shape s bs"
proof -
  have "nxt t = nxt s" by (rule ext) (simp add: nxt_def assms)
  then have l: "links t L = links s L" for L by (induction L rule: induct_list012) (simp_all add: assms)
  have b: "block_ok t = block_ok s" by (rule ext) (simp add: block_ok_def assms)
  show ?thesis by (simp add: heap_shape_def heap_region_def dll_def l b assms)
qed

lemma heap_walk_tiles:
  assumes "tiles lo bs (heap_end s)" and "\<forall>b \<in> set bs. block_ok s b"
  shows "heap_walk s lo = bs"
  using assms
proof (induction bs arbitrary: lo)
  case Nil
  then show ?case by (simp add: heap_walk.simps)
next
  case (Cons b bs)
  obtain a n f where b: "b = (a, n, f)" by (cases b)
  then have "a = lo" "lo + 32 + n \<le> heap_end s" "32 \<le> n" "bsize (hdr s a) = n" "bfree (hdr s a) = f"
    "heap_walk s (a + 32 + n) = bs"
    using Cons tiles_count [of "a + 32 + n" bs "heap_end s"] by (auto simp: block_ok_def)
  then show ?case by (subst heap_walk.simps) (simp add: b)
qed

lemma heap_blocks_eq: "heap_shape s bs \<Longrightarrow> heap_blocks s = bs"
  unfolding heap_blocks_def heap_shape_def by (blast intro: heap_walk_tiles)

lemma heap_inv_intro: "heap_rel s bs \<Longrightarrow> guards s bs \<Longrightarrow> heap_inv s \<and> heap_blocks s = bs"
  using heap_blocks_eq [of s bs] by (auto simp: heap_inv_def heap_rel_def)

lemma live_of_simps [simp]:
  "live_of [] = Map.empty"
  "live_of ((a, n, f) # bs) = (if f then live_of bs else (live_of bs)(a + 32 \<mapsto> n - 4))"
  by (simp_all add: live_of_def)

lemma live_of_append: "live_of (xs @ ys) = live_of ys ++ live_of xs"
  by (simp add: live_of_def)

lemma live_of_coal: "live_of (coal bs) = live_of bs"
  by (induction bs rule: coal.induct) auto

lemma live_of_SomeD: "live_of bs p = Some u \<Longrightarrow> \<exists>a n. (a, n, False) \<in> set bs \<and> p = a + 32 \<and> u = n - 4"
  by (force simp: live_of_def dest!: map_of_SomeD)

lemma live_of_bounds:
  assumes "tiles lo bs hi" and "live_of bs p = Some u"
  shows "lo + 32 \<le> p" and "p + u < hi"
  using live_of_SomeD [OF assms(2)] tiles_mem [OF assms(1)] by fastforce+

lemma live_of_outside: "tiles lo bs hi \<Longrightarrow> p < lo + 32 \<or> hi \<le> p \<Longrightarrow> live_of bs p = None"
  using live_of_bounds [of lo bs hi p] by (cases "live_of bs p") force+

lemma live_middle:
  assumes t: "tiles lo (xs @ (a, n, f) # ys) hi"
  shows "live_of (xs @ (a, n, f) # ys) (a + 32) = (if f then None else Some (n - 4))"
    and "q \<noteq> a + 32 \<Longrightarrow> live_of (xs @ (a, n, f) # ys) q = (live_of ys ++ live_of xs) q"
    and "(live_of ys ++ live_of xs) (a + 32) = None"
proof -
  have "tiles lo xs a" "tiles (a + 32 + n) ys hi" "32 \<le> n" using tiles_middle [OF t] by auto
  then have none: "live_of xs (a + 32) = None" "live_of ys (a + 32) = None"
    by (auto intro: live_of_outside)
  then show "live_of (xs @ (a, n, f) # ys) (a + 32) = (if f then None else Some (n - 4))"
    by (auto simp: live_of_append map_add_def)
  show "(live_of ys ++ live_of xs) (a + 32) = None" using none by simp
  show "q \<noteq> a + 32 \<Longrightarrow> live_of (xs @ (a, n, f) # ys) q = (live_of ys ++ live_of xs) q"
    by (auto simp: live_of_append map_add_def split: option.splits)
qed

section \<open>Allocation\<close>

lemma ALIGN_eq: "n + 15 < 2 ^ 64 \<Longrightarrow> ALIGN n = (n + 15) - (n + 15) mod 16"
  by (simp add: ALIGN_def heap_consts wrap Let_def)

lemma payload_size_ok:
  assumes "request_ok sz"
  shows "16 dvd payload_size sz" and "48 \<le> payload_size sz" and "sz + 4 \<le> payload_size sz"
    and "payload_size sz \<le> sz + 51"
proof -
  let ?u = "if sz < 32 then 32 else sz"
  have p: "payload_size sz = (?u + 19) - (?u + 19) mod 16"
    using assms by (cases "sz < 32") (simp_all add: payload_size_def heap_consts ALIGN_eq wrap request_ok_def add.commute)
  have d: "payload_size sz = 16 * ((?u + 19) div 16)" unfolding p by (metis minus_mod_eq_mult_div)
  show "16 dvd payload_size sz" unfolding d by simp
  have "51 div 16 \<le> (?u + 19) div 16" by (rule div_le_mono) simp
  then show "48 \<le> payload_size sz" unfolding d by simp
  have "?u + 19 = payload_size sz + (?u + 19) mod 16" unfolding d by simp
  moreover have "(?u + 19) mod 16 < 16" by simp
  ultimately show "sz + 4 \<le> payload_size sz" "payload_size sz \<le> sz + 51" by (auto split: if_splits)
qed

text \<open>The block list after block \<open>(a, n)\<close> was taken for \<open>need\<close> bytes.\<close>

definition taken_size :: "nat \<Rightarrow> nat \<Rightarrow> nat" where
  "taken_size n need = (if need + 64 \<le> n then need else n)"

definition take_block :: "block list \<Rightarrow> nat \<Rightarrow> nat \<Rightarrow> block list \<Rightarrow> nat \<Rightarrow> block list" where
  "take_block xs a n ys need =
     xs @ (a, taken_size n need, False) # (if need + 64 \<le> n then [(a + 32 + need, n - need - 32, True)] else []) @ ys"

lemma tiles_allocated: "tiles lo bs hi \<Longrightarrow> lo + allocated bs + 32 * length bs \<le> hi"
  by (induction lo bs hi rule: tiles.induct) auto

lemma split_and_use_take:
  assumes shape: "heap_shape s (xs @ (a, n, True) # ys)" and guard: "guards s (xs @ (a, n, True) # ys)"
    and need: "need \<le> n" "32 \<le> need" "16 dvd need" and t: "t = split_and_use a need s"
  shows "heap_shape t (take_block xs a n ys need)" and "guards t (take_block xs a n ys need)"
    and "bsize (hdr t a) = taken_size n need"
    and "mem t = mem s" and "total_allocated t = total_allocated s" and "total_free t = total_free s"
    and "heap_size t = heap_size s"
proof -
  note blk = heap_shape_block [OF shape, of a n True, simplified]
  have sub: "sub64 (bsize (hdr s a)) need = n - need" using blk(6,7) need by (simp add: wrap)
  show shape': "heap_shape t (take_block xs a n ys need)"
    using heap_shape_split [OF shape _ need(2,3)] heap_shape_use_whole [OF shape] need(1)
      split_and_use_whole [OF sub [symmetric]] t by (auto simp: take_block_def taken_size_def)
  have "(a, taken_size n need, False) \<in> set (take_block xs a n ys need)" by (simp add: take_block_def)
  from heap_shape_block(7) [OF shape' this] show "bsize (hdr t a) = taken_size n need" .
  have frame: "mem t = mem s \<and> total_allocated t = total_allocated s \<and> total_free t = total_free s \<and>
      heap_size t = heap_size s \<and> ftr t (a + 28 + taken_size n need) = FOOTER_MAGIC \<and>
      (\<forall>z. ftr s z = FOOTER_MAGIC \<longrightarrow> ftr t z = FOOTER_MAGIC)"
  proof (cases "need + 64 \<le> n")
    case True
    let ?A = "free_addrs xs" and ?B = "free_addrs ys"
    have f: "free_addrs (xs @ (a, n, True) # ys) = ?A @ [a] @ ?B" by simp
    obtain x y where x: "x = 0 \<or> x \<in> set ?A" and y: "y = 0 \<or> y \<in> set ?B"
      and l: "links s (x # [a] @ [y])" and d: "distinct (0 # ?A @ [a] @ ?B)"
      by (rule free_list_around [OF shape f])
    have xy1: "x = bprev (hdr s a)" "y = bnext (hdr s a)" using l blk(5) by (simp_all add: nxt_def)
    have xy2: "x \<noteq> a" "y \<noteq> a" using x y d blk(5) by auto
    have xy3: "x \<noteq> a + 32 + need" "y \<noteq> a + 32 + need"
      using x y free_addrs_apart [OF shape, of "a + 32 + need"] True by fastforce+
    note xy = xy1 xy2 xy3
    have pre: "a + 32 + bsize (hdr s a) < 2 ^ 64" "need + 64 \<le> bsize (hdr s a)" using blk True by simp_all
    note sp = split_and_use_split [OF pre xy(1,2) refl xy(3,5,4,6) t]
    show ?thesis using True by (simp add: sp(2,6-9) taken_size_def)
  next
    case False
    have "block_footer a (remove_free_block a s) = a + 28 + n"
      using heap_shape_valid(3) [OF shape, of a n True] by (simp add: block_footer_def)
    then show ?thesis using False t split_and_use_whole [OF sub [symmetric]] by (simp add: taken_size_def)
  qed
  then show "mem t = mem s" "total_allocated t = total_allocated s" "total_free t = total_free s"
    "heap_size t = heap_size s" by auto
  have "ftr t (a' + 28 + n') = FOOTER_MAGIC" if m: "(a', n', f') \<in> set (take_block xs a n ys need)" for a' n' f'
  proof -
    consider "f'" | "(a', n') = (a, taken_size n need)" | "(a', n', f') \<in> set xs \<union> set ys"
      using m by (auto simp: take_block_def split: if_splits)
    then show ?thesis
    proof cases
      case 1
      then show ?thesis using heap_shape_block(10) [OF shape' m] by simp
    next
      case 3
      then show ?thesis using guardsD [OF guard, of a' n' f'] frame by auto
    qed (use frame in auto)
  qed
  then show "guards t (take_block xs a n ys need)" unfolding guards_def by fast
qed

text \<open>What \<^verbatim>\<open>alloc_locked\<close> does on a well-formed heap.\<close>

lemma allocated_take:
  "allocated (take_block xs a n ys need) = allocated (xs @ (a, n, True) # ys) + taken_size n need"
  by (simp add: take_block_def taken_size_def)

lemma alloc_locked_spec:
  assumes rel: "heap_rel s bs" and guard: "guards s bs" and need: "32 \<le> need" "16 dvd need"
  shows "(alloc_locked need s = Done (0, s) \<and> (\<forall>(a, n, f) \<in> set bs. f \<longrightarrow> n < need)) \<or>
    (\<exists>xs a n ys t. bs = xs @ (a, n, True) # ys \<and> need \<le> n \<and> (\<forall>(a, n, f) \<in> set xs. f \<longrightarrow> n < need) \<and>
       alloc_locked need s = Done (a + 32, t) \<and> heap_rel t (take_block xs a n ys need) \<and>
       guards t (take_block xs a n ys need) \<and> mem t = mem s \<and> bsize (hdr t a) = taken_size n need)"
proof -
  have shape: "heap_shape s bs" using rel by (simp add: heap_rel_def)
  from alloc_find_heap [OF shape, of need] show ?thesis
  proof
    assume "\<exists>xs a n ys. alloc_find need (max_blocks s) 0 (free_list_head s) s = Done a \<and> bs = xs @ (a, n, True) # ys \<and>
       need \<le> n \<and> (\<forall>(a, n, f) \<in> set xs. f \<longrightarrow> n < need)"
    then obtain xs a n ys where f: "alloc_find need (max_blocks s) 0 (free_list_head s) s = Done a"
      "bs = xs @ (a, n, True) # ys" "need \<le> n" "\<forall>(a, n, f) \<in> set xs. f \<longrightarrow> n < need" by blast
    let ?t = "split_and_use a need s" and ?bs = "take_block xs a n ys need" and ?n = "taken_size n need"
    note sh = shape [unfolded f(2)] and sp = split_and_use_take [OF shape [unfolded f(2)] guard [unfolded f(2)] f(3) need refl]
    have a: "0 < a" "a + 32 < 2 ^ 64" using heap_shape_block(5,6) [OF sh, of a n True] by auto
    have all: "allocated ?bs = allocated bs + ?n" using allocated_take f(2) by simp
    have "heap_start ?t + allocated ?bs + 32 * length ?bs \<le> heap_end ?t"
      using tiles_allocated sp(1) by (auto simp: heap_shape_def)
    moreover have region: "heap_end ?t = heap_start ?t + heap_size ?t" "heap_end ?t < 2 ^ 64"
      using sp(1) by (auto simp: heap_shape_def heap_region_def)
    moreover have "0 < length ?bs" by (simp add: take_block_def)
    ultimately have le: "allocated bs + ?n + 32 \<le> heap_size s" "heap_size s < 2 ^ 64" using all sp(7) by linarith+
    have acct: "total_allocated s = allocated bs" "total_free s + total_allocated s = heap_size s - 32"
      using rel by (auto simp: heap_rel_def heap_acct_def)
    define t2 where "t2 = ?t\<lparr>total_allocated := allocated bs + ?n, total_free := total_free s - ?n\<rparr>"
    define t3 where "t3 = upd_stats (alloc_count_update (\<lambda>c. w64 (c + 1)))
      (if peak_usage t2 < total_allocated t2 then t2\<lparr>peak_usage := total_allocated t2\<rparr> else t2)"
    have w: "w64 (total_allocated ?t + ?n) = allocated bs + ?n" "sub64 (total_free ?t) ?n = total_free s - ?n"
      "w64 (a + HEADER_SIZE) = a + 32"
      using le acct a by (simp_all add: sp(5,6) wrap heap_consts)
    have res: "alloc_locked need s = Done (a + 32, t3)"
      using a f(1) w by (simp add: alloc_locked_def Let_def sp(3) t3_def t2_def)
    have fields: "hdr t3 = hdr ?t" "ftr t3 = ftr ?t" "mem t3 = mem ?t" "free_list_head t3 = free_list_head ?t"
      "heap_start t3 = heap_start ?t" "heap_end t3 = heap_end ?t" "heap_size t3 = heap_size ?t"
      "total_allocated t3 = allocated bs + ?n" "total_free t3 = total_free s - ?n"
      by (simp_all add: t3_def t2_def)
    have "heap_shape t3 ?bs" using sp(1) heap_shape_cong [of t3 ?t] fields by simp
    moreover have "heap_acct t3 ?bs" using acct le all by (simp add: heap_acct_def fields sp(7))
    moreover have "guards t3 ?bs" using sp(2) by (simp add: guards_def fields)
    ultimately show ?thesis using f res sp(3,4) fields by (auto simp: heap_rel_def)
  qed (simp add: alloc_locked_def)
qed

lemma heap_inv_facts:
  assumes "heap_inv s"
  shows "heap_rel s (heap_blocks s)" and "guards s (heap_blocks s)" and "heap_shape s (heap_blocks s)"
    and "tiles (heap_start s) (heap_blocks s) (heap_end s)"
  using assms by (auto simp: heap_inv_def heap_rel_def heap_shape_def)

lemma heap_inv_cong:
  assumes "hdr t = hdr s" and "ftr t = ftr s" and "free_list_head t = free_list_head s"
    and "heap_start t = heap_start s" and "heap_end t = heap_end s" and "heap_size t = heap_size s"
    and "total_allocated t = total_allocated s" and "total_free t = total_free s"
  shows "heap_inv s \<Longrightarrow> heap_inv t \<and> heap_blocks t = heap_blocks s"
proof (rule heap_inv_intro)
  assume inv: "heap_inv s"
  then show "heap_rel t (heap_blocks s)"
    using heap_shape_cong [of t s] assms by (simp add: heap_inv_def heap_rel_def heap_acct_def)
  show "guards t (heap_blocks s)" using inv assms by (simp add: heap_inv_def guards_def)
qed

lemma alloc_locked_inv:
  assumes inv: "heap_inv s" and req: "request_ok sz" and need: "need = payload_size sz"
  shows "(alloc_locked need s = Done (0, s) \<and> (\<forall>(a, n, f) \<in> set (heap_blocks s). f \<longrightarrow> n < need)) \<or>
    (\<exists>xs a n ys t. heap_blocks s = xs @ (a, n, True) # ys \<and> need \<le> n \<and> (\<forall>(a, n, f) \<in> set xs. f \<longrightarrow> n < need) \<and>
       alloc_locked need s = Done (a + 32, t) \<and> heap_inv t \<and> heap_blocks t = take_block xs a n ys need \<and>
       mem t = mem s \<and> bsize (hdr t a) = taken_size n need)"
proof -
  have "32 \<le> need" "16 dvd need" using payload_size_ok [OF req] need by auto
  from alloc_locked_spec [OF heap_inv_facts(1,2) [OF inv] this] show ?thesis
  proof
    assume "\<exists>xs a n ys t. heap_blocks s = xs @ (a, n, True) # ys \<and> need \<le> n \<and> (\<forall>(a, n, f) \<in> set xs. f \<longrightarrow> n < need) \<and>
       alloc_locked need s = Done (a + 32, t) \<and> heap_rel t (take_block xs a n ys need) \<and>
       guards t (take_block xs a n ys need) \<and> mem t = mem s \<and> bsize (hdr t a) = taken_size n need"
    then obtain xs a n ys t where r: "heap_blocks s = xs @ (a, n, True) # ys" "need \<le> n"
       "\<forall>(a, n, f) \<in> set xs. f \<longrightarrow> n < need" "alloc_locked need s = Done (a + 32, t)"
       "heap_rel t (take_block xs a n ys need)" "guards t (take_block xs a n ys need)" "mem t = mem s"
       "bsize (hdr t a) = taken_size n need" by blast
    then show ?thesis using heap_inv_intro [OF r(5,6)] by blast
  qed blast
qed

text \<open>Both allocation functions, on a well-formed heap.\<close>

definition alloc_outcome :: "(nat \<Rightarrow> nat \<Rightarrow> heap \<Rightarrow> nat \<Rightarrow> u8) \<Rightarrow> nat \<Rightarrow> heap \<Rightarrow> (nat \<times> heap) outcome \<Rightarrow> bool" where
  "alloc_outcome newmem sz s res \<longleftrightarrow>
     (\<exists>t. res = Done (0, t) \<and> heap_inv t \<and> heap_blocks t = heap_blocks s \<and> mem t = mem s \<and>
        (\<forall>(a, n, f) \<in> set (heap_blocks s). f \<longrightarrow> n < payload_size sz)) \<or>
     (\<exists>xs a n ys t. heap_blocks s = xs @ (a, n, True) # ys \<and> payload_size sz \<le> n \<and>
        (\<forall>(a, n, f) \<in> set xs. f \<longrightarrow> n < payload_size sz) \<and>
        res = Done (a + 32, t) \<and> heap_inv t \<and> heap_blocks t = take_block xs a n ys (payload_size sz) \<and>
        mem t = newmem (a + 32) (taken_size n (payload_size sz) - 4) s)"

lemma alloc_both:
  assumes inv: "heap_inv s" and req: "request_ok sz"
  shows "alloc_outcome (\<lambda>p u s. memset p 0 u (mem s)) sz s (alloc sz s)"
    and "alloc_outcome (\<lambda>p u s. mem s) sz s (alloc_unzeroed sz s)"
proof -
  let ?need = "payload_size sz"
  have sz: "sz \<noteq> 0" using req by (simp add: request_ok_def)
  let ?f = "upd_stats (failed_allocs_update (\<lambda>c. w64 (c + 1))) s"
  have f: "heap_inv ?f \<and> heap_blocks ?f = heap_blocks s" using heap_inv_cong [OF _ _ _ _ _ _ _ _ inv, of ?f] by simp
  from alloc_locked_inv [OF inv req refl]
  have "alloc_outcome (\<lambda>p u s. memset p 0 u (mem s)) sz s (alloc sz s) \<and>
    alloc_outcome (\<lambda>p u s. mem s) sz s (alloc_unzeroed sz s)"
  proof
    assume "alloc_locked ?need s = Done (0, s) \<and> (\<forall>(a, n, f) \<in> set (heap_blocks s). f \<longrightarrow> n < ?need)"
    then show ?thesis using sz f unfolding alloc_outcome_def alloc_def alloc_unzeroed_def by auto
  next
    assume "\<exists>xs a n ys t. heap_blocks s = xs @ (a, n, True) # ys \<and> ?need \<le> n \<and> (\<forall>(a, n, f) \<in> set xs. f \<longrightarrow> n < ?need) \<and>
       alloc_locked ?need s = Done (a + 32, t) \<and> heap_inv t \<and> heap_blocks t = take_block xs a n ys ?need \<and>
       mem t = mem s \<and> bsize (hdr t a) = taken_size n ?need"
    then obtain xs a n ys t where r: "heap_blocks s = xs @ (a, n, True) # ys" "?need \<le> n"
       "\<forall>(a, n, f) \<in> set xs. f \<longrightarrow> n < ?need" "alloc_locked ?need s = Done (a + 32, t)"
       "heap_inv t" "heap_blocks t = take_block xs a n ys ?need" "mem t = mem s"
       "bsize (hdr t a) = taken_size n ?need" by blast
    have m: "(a, taken_size n ?need, False) \<in> set (heap_blocks t)" unfolding r(6) by (simp add: take_block_def)
    note b = heap_shape_block [OF heap_inv_facts(3) [OF r(5)] m]
    have w: "sub64 (a + 32) HEADER_SIZE = a" "sub64 (taken_size n ?need) FOOTER_SIZE = taken_size n ?need - 4"
      using b(3,6) by (simp_all add: wrap heap_consts)
    let ?t = "t\<lparr>mem := memset (a + 32) 0 (taken_size n ?need - 4) (mem t)\<rparr>"
    have t: "heap_inv ?t \<and> heap_blocks ?t = heap_blocks t" using heap_inv_cong [OF _ _ _ _ _ _ _ _ r(5), of ?t] by simp
    have e: "alloc sz s = Done (a + 32, ?t)" "alloc_unzeroed sz s = Done (a + 32, t)"
      using sz r(4,8) w by (simp_all add: alloc_def alloc_unzeroed_def Let_def)
    have "alloc_outcome (\<lambda>p u s. memset p 0 u (mem s)) sz s (alloc sz s)"
      unfolding alloc_outcome_def e using r(1-3,6,7) t
      by (intro disjI2 exI [of _ xs] exI [of _ a] exI [of _ n] exI [of _ ys] exI [of _ ?t]) simp
    moreover have "alloc_outcome (\<lambda>p u s. mem s) sz s (alloc_unzeroed sz s)"
      unfolding alloc_outcome_def e using r(1-3,5-7)
      by (intro disjI2 exI [of _ xs] exI [of _ a] exI [of _ n] exI [of _ ys] exI [of _ t]) simp
    ultimately show ?thesis ..
  qed
  then show "alloc_outcome (\<lambda>p u s. memset p 0 u (mem s)) sz s (alloc sz s)"
    "alloc_outcome (\<lambda>p u s. mem s) sz s (alloc_unzeroed sz s)" by auto
qed

section \<open>Freeing\<close>

lemma free_mem_live:
  assumes inv: "heap_inv s" and blocks: "heap_blocks s = xs @ (a, n, False) # ys"
  shows "\<exists>t. free_mem (a + 32) s = Done t \<and> heap_inv t \<and> heap_blocks t = coal (xs @ (a, n, True) # ys) \<and>
    mem t = memset (a + 32) 0xCC (n - 4) (mem s)"
proof -
  note facts = heap_inv_facts [OF inv, unfolded blocks]
  have m: "(a, n, False) \<in> set (xs @ (a, n, False) # ys)" by simp
  note b = heap_shape_block [OF facts(3) m]
  have foot: "ftr s (a + 28 + n) = FOOTER_MAGIC" by (rule guardsD [OF facts(2) m])
  have w: "sub64 (a + 32) HEADER_SIZE = a" "sub64 n FOOTER_SIZE = n - 4" using b(3,6) by (simp_all add: wrap heap_consts)
  have acct: "total_allocated s = allocated (xs @ (a, n, False) # ys)" "total_free s + total_allocated s = heap_size s - 32"
    "heap_size s < 2 ^ 64"
    using facts(1) by (auto simp: heap_rel_def heap_acct_def heap_shape_def heap_region_def)
  then have w2: "sub64 (total_allocated s) n = total_allocated s - n" "w64 (total_free s + n) = total_free s + n"
    by (simp_all add: wrap)
  define t1 where "t1 = upd_stats (free_count_update (\<lambda>c. w64 (c + 1)))
    (s\<lparr>mem := memset (a + 32) 0xCC (n - 4) (mem s), total_allocated := total_allocated s - n,
       total_free := total_free s + n\<rparr>)"
  have sh1: "heap_shape t1 (xs @ (a, n, False) # ys)" using facts(3) heap_shape_cong [of t1 s] by (simp add: t1_def)
  have "ftr t1 (a + 28 + n) = FOOTER_MAGIC" using foot by (simp add: t1_def)
  from heap_shape_insert [OF sh1 this] obtain t2 x y where t2: "insert_free_block a t1 = Done t2"
    "linked_in x a y t1 t2" "heap_shape t2 (xs @ (a, n, True) # ys)" by blast
  from coalesce_coal [OF t2(3)] obtain t where t: "coalesce t2 = Done t" "heap_shape t (coal (xs @ (a, n, True) # ys))"
    "same_frame t2 t" by blast
  have "validate_block_full a s" "check_footer a s" using heap_shape_valid(2,3) [OF facts(3) m] foot
    by (simp_all add: check_footer_def)
  moreover have "\<not> (a + 32 < heap_start s \<or> heap_end s \<le> a + 32)" using b(1,2,3) by simp
  ultimately have run: "free_mem (a + 32) s = Done t"
    using b(7,8) t(1) t2(1) w w2 by (simp add: free_mem_def Let_def t1_def)
  have f: "mem t = mem t1" "ftr t = ftr s" "total_allocated t = total_allocated t1" "total_free t = total_free t1"
    "heap_size t = heap_size s" "mem t1 = memset (a + 32) 0xCC (n - 4) (mem s)"
    using t(3) t2(2) by (simp_all add: same_frame_def linked_in_def t1_def)
  have "heap_acct t (coal (xs @ (a, n, True) # ys))"
    using acct by (simp add: heap_acct_def f t1_def coal_allocated)
  then have rel: "heap_rel t (coal (xs @ (a, n, True) # ys))" using t(2) by (simp add: heap_rel_def)
  have "ftr t (a' + 28 + n') = FOOTER_MAGIC" if m': "(a', n', f') \<in> set (coal (xs @ (a, n, True) # ys))" for a' n' f'
  proof (cases f')
    case True
    then show ?thesis using heap_shape_block(10) [OF t(2) m'] by simp
  next
    case False
    then have "(a', n', False) \<in> set (xs @ (a, n, False) # ys)" using m' coal_live by auto
    then show ?thesis using guardsD [OF facts(2)] f(2) by metis
  qed
  then have "guards t (coal (xs @ (a, n, True) # ys))" unfolding guards_def by fast
  then show ?thesis using heap_inv_intro [OF rel] run f(1,6) by auto
qed

lemma tiles_apart:
  assumes "tiles lo bs hi" and "(a, n, f) \<in> set bs" and "(a', n', f') \<in> set bs" and "a \<noteq> a'"
  shows "a + 32 + n \<le> a' \<or> a' + 32 + n' \<le> a"
proof -
  obtain xs ys where bs: "bs = xs @ (a, n, f) # ys" using assms(2) by (metis split_list)
  have t: "tiles lo xs a" "tiles (a + 32 + n) ys hi" using tiles_middle assms(1) unfolding bs by blast+
  have "(a', n', f') \<in> set xs \<or> (a', n', f') \<in> set ys" using assms(3,4) bs by auto
  then show ?thesis using tiles_mem [OF t(1)] tiles_mem [OF t(2)] by blast
qed

lemma live_apart:
  assumes "tiles lo bs hi" and "live_of bs p = Some u" and "live_of bs q = Some v" and "p \<noteq> q"
  shows "p + u + 36 \<le> q \<or> q + v + 36 \<le> p"
proof -
  obtain a n where a: "(a, n, False) \<in> set bs" "p = a + 32" "u = n - 4" using live_of_SomeD [OF assms(2)] by blast
  obtain b m where b: "(b, m, False) \<in> set bs" "q = b + 32" "v = m - 4" using live_of_SomeD [OF assms(3)] by blast
  have "32 \<le> n" "32 \<le> m" using tiles_mem [OF assms(1)] a(1) b(1) by blast+
  then show ?thesis using tiles_apart [OF assms(1) a(1) b(1)] assms(4) a b by auto
qed

lemma live_take:
  assumes "tiles lo (xs @ (a, n, True) # ys) hi"
  shows "live_of (take_block xs a n ys need) = (live_of (xs @ (a, n, True) # ys))(a + 32 \<mapsto> taken_size n need - 4)"
    and "live_of (xs @ (a, n, True) # ys) (a + 32) = None"
proof -
  have none: "live_of xs (a + 32) = None" using tiles_middle [OF assms] live_of_outside [of lo xs a "a + 32"] by simp
  then have "(live_of ys)(a + 32 \<mapsto> k) ++ live_of xs = (live_of ys ++ live_of xs)(a + 32 \<mapsto> k)" for k
    by (intro map_add_upd_left) (simp add: domIff)
  then show "live_of (take_block xs a n ys need) = (live_of (xs @ (a, n, True) # ys))(a + 32 \<mapsto> taken_size n need - 4)"
    by (simp add: take_block_def live_of_append)
  show "live_of (xs @ (a, n, True) # ys) (a + 32) = None" using live_middle(1) [OF assms] by simp
qed

lemma live_release:
  assumes "tiles lo (xs @ (a, n, False) # ys) hi"
  shows "live_of (coal (xs @ (a, n, True) # ys)) = (live_of (xs @ (a, n, False) # ys))(a + 32 := None)"
proof
  fix q
  have t: "tiles lo (xs @ (a, n, True) # ys) hi" using assms by (auto simp: tiles_append)
  show "live_of (coal (xs @ (a, n, True) # ys)) q = ((live_of (xs @ (a, n, False) # ys))(a + 32 := None)) q"
    using live_middle [OF t] live_middle [OF assms] unfolding live_of_coal by (cases "q = a + 32") auto
qed

section \<open>Interface\<close>

text \<open>
  The contract of a heap: allocation returns NULL or a fresh region of at least the requested
  size, a region in use can be given back, regions in use never overlap, and neither operation
  touches the bytes of a region somebody else holds.
\<close>

locale memory_allocator =
  fixes allocate :: "nat \<Rightarrow> 's \<Rightarrow> (nat \<times> 's) outcome"
    and release :: "nat \<Rightarrow> 's \<Rightarrow> 's outcome"
    and inv :: "'s \<Rightarrow> bool"
    and regions :: "'s \<Rightarrow> nat \<Rightarrow> nat option"
    and content :: "'s \<Rightarrow> nat \<Rightarrow> u8"
    and admissible :: "nat \<Rightarrow> bool"
  assumes allocate_returns: "inv s \<Longrightarrow> admissible n \<Longrightarrow> \<exists>p s'. allocate n s = Done (p, s') \<and> inv s'"
    and allocate_regions: "inv s \<Longrightarrow> admissible n \<Longrightarrow> allocate n s = Done (p, s') \<Longrightarrow>
      (p = 0 \<and> regions s' = regions s) \<or>
      (0 < p \<and> regions s p = None \<and> (\<exists>u \<ge> n. regions s' = (regions s)(p \<mapsto> u)))"
    and allocate_content: "inv s \<Longrightarrow> admissible n \<Longrightarrow> allocate n s = Done (p, s') \<Longrightarrow>
      regions s q = Some u \<Longrightarrow> q \<le> a \<Longrightarrow> a < q + u \<Longrightarrow> content s' a = content s a"
    and release_returns: "inv s \<Longrightarrow> regions s p \<noteq> None \<Longrightarrow> \<exists>s'. release p s = Done s' \<and> inv s'"
    and release_regions: "inv s \<Longrightarrow> regions s p \<noteq> None \<Longrightarrow> release p s = Done s' \<Longrightarrow>
      regions s' = (regions s)(p := None)"
    and release_content: "inv s \<Longrightarrow> regions s p \<noteq> None \<Longrightarrow> release p s = Done s' \<Longrightarrow>
      regions s q = Some u \<Longrightarrow> q \<noteq> p \<Longrightarrow> q \<le> a \<Longrightarrow> a < q + u \<Longrightarrow> content s' a = content s a"
    and separated: "inv s \<Longrightarrow> regions s p = Some u \<Longrightarrow> regions s q = Some v \<Longrightarrow> p \<noteq> q \<Longrightarrow>
      p + u \<le> q \<or> q + v \<le> p"
begin

text \<open>What the holder of one region can count on across somebody else's step.\<close>

definition keeps :: "nat \<Rightarrow> nat \<Rightarrow> 's \<Rightarrow> 's \<Rightarrow> bool" where
  "keeps q u s s' \<longleftrightarrow> inv s' \<and> regions s' q = Some u \<and> (\<forall>a. q \<le> a \<and> a < q + u \<longrightarrow> content s' a = content s a)"

lemma allocate_keeps:
  assumes "inv s" and "admissible n" and "regions s q = Some u"
  shows "\<exists>p s'. allocate n s = Done (p, s') \<and> keeps q u s s'"
proof -
  obtain p s' where r: "allocate n s = Done (p, s')" "inv s'" using allocate_returns [OF assms(1,2)] by blast
  have "regions s' q = Some u" using allocate_regions [OF assms(1,2) r(1)] assms(3) by auto
  then show ?thesis using r allocate_content [OF assms(1,2) r(1) assms(3)] by (auto simp: keeps_def)
qed

lemma release_keeps:
  assumes "inv s" and "regions s p \<noteq> None" and "p \<noteq> q" and "regions s q = Some u"
  shows "\<exists>s'. release p s = Done s' \<and> keeps q u s s'"
proof -
  obtain s' where r: "release p s = Done s'" "inv s'" using release_returns [OF assms(1,2)] by blast
  then show ?thesis
    using release_regions [OF assms(1,2) r(1)] release_content [OF assms(1,2) r(1) assms(4)] assms(3,4)
    by (auto simp: keeps_def)
qed

lemma keeps_trans: "keeps q u s s' \<Longrightarrow> keeps q u s' s'' \<Longrightarrow> keeps q u s s''"
  by (simp add: keeps_def)

lemma allocate_fresh:
  assumes "inv s" and "admissible n" and "allocate n s = Done (p, s')" and "0 < p" and "regions s q = Some v"
  shows "p + n \<le> q \<or> q + v \<le> p"
proof -
  obtain u where u: "regions s p = None" "n \<le> u" "regions s' = (regions s)(p \<mapsto> u)"
    using allocate_regions [OF assms(1-3)] assms(4) by auto
  have "inv s'" using allocate_returns [OF assms(1,2)] assms(3) by auto
  moreover have "p \<noteq> q" using u(1) assms(5) by auto
  ultimately show ?thesis using separated [of s' p u q v] u assms(5) by force
qed

end

lemma alloc_laws:
  assumes inv: "heap_inv s" and req: "request_ok sz" and res: "alloc_outcome newmem sz s (Done (p, t))"
    and new: "\<And>p u a. \<not> (p \<le> a \<and> a < p + u) \<Longrightarrow> newmem p u s a = mem s a"
  shows "heap_inv t"
    and "p = 0 \<and> live t = live s \<or> 0 < p \<and> live s p = None \<and> (\<exists>u \<ge> sz. live t = (live s)(p \<mapsto> u))"
    and "live s q = Some u \<Longrightarrow> q \<le> x \<Longrightarrow> x < q + u \<Longrightarrow> mem t x = mem s x"
proof -
  note t0 = heap_inv_facts(4) [OF inv]
  from res consider "p = 0" "heap_inv t" "heap_blocks t = heap_blocks s" "mem t = mem s"
    | xs a n ys where "heap_blocks s = xs @ (a, n, True) # ys" "payload_size sz \<le> n" "p = a + 32" "heap_inv t"
      "heap_blocks t = take_block xs a n ys (payload_size sz)"
      "mem t = newmem (a + 32) (taken_size n (payload_size sz) - 4) s"
    unfolding alloc_outcome_def by blast
  then have "heap_inv t \<and>
      (p = 0 \<and> live t = live s \<or> 0 < p \<and> live s p = None \<and> (\<exists>u \<ge> sz. live t = (live s)(p \<mapsto> u))) \<and>
      (live s q = Some u \<longrightarrow> q \<le> x \<longrightarrow> x < q + u \<longrightarrow> mem t x = mem s x)"
  proof cases
    case (2 xs a n ys)
    let ?m = "taken_size n (payload_size sz)"
    have le: "sz + 4 \<le> ?m" "?m \<le> n" using payload_size_ok(3) [OF req] 2(2) by (auto simp: taken_size_def)
    have "live t = (live s)(a + 32 \<mapsto> ?m - 4)" "live s (a + 32) = None"
      using live_take [of _ xs a n ys] t0 unfolding live_def 2(1,5) by auto
    moreover have "mem t x = mem s x" if h: "live s q = Some u" "q \<le> x" "x < q + u"
    proof -
      obtain b m where b: "(b, m, False) \<in> set (heap_blocks s)" "q = b + 32" "u = m - 4"
        using live_of_SomeD h(1) unfolding live_def by blast
      have a: "(a, n, True) \<in> set (heap_blocks s)" using 2(1) by simp
      have "a \<noteq> b"
        using heap_shape_block(8) [OF heap_inv_facts(3) [OF inv] a] heap_shape_block(8) [OF heap_inv_facts(3) [OF inv] b(1)] by auto
      then have "\<not> (a + 32 \<le> x \<and> x < a + 32 + (?m - 4))"
        using tiles_apart [OF t0 a b(1)] h(2,3) b(2,3) le by auto
      then show ?thesis using new 2(6) by simp
    qed
    ultimately show ?thesis using 2(3,4) le by (auto intro!: exI [of _ "?m - 4"])
  qed (auto simp: live_def)
  then show "heap_inv t"
    "p = 0 \<and> live t = live s \<or> 0 < p \<and> live s p = None \<and> (\<exists>u \<ge> sz. live t = (live s)(p \<mapsto> u))"
    "live s q = Some u \<Longrightarrow> q \<le> x \<Longrightarrow> x < q + u \<Longrightarrow> mem t x = mem s x" by blast+
qed

lemma free_laws:
  assumes inv: "heap_inv s" and p: "live s p \<noteq> None"
  shows "\<exists>t. free_mem p s = Done t \<and> heap_inv t \<and> live t = (live s)(p := None) \<and>
    (\<forall>q u x. live s q = Some u \<and> q \<noteq> p \<and> q \<le> x \<and> x < q + u \<longrightarrow> mem t x = mem s x)"
proof -
  obtain u where u: "live_of (heap_blocks s) p = Some u" using p by (auto simp: live_def)
  obtain a n where a: "(a, n, False) \<in> set (heap_blocks s)" "p = a + 32" "u = n - 4" using live_of_SomeD [OF u] by blast
  obtain xs ys where xs: "heap_blocks s = xs @ (a, n, False) # ys" using a(1) by (metis split_list)
  note t0 = heap_inv_facts(4) [OF inv]
  obtain t where t: "free_mem (a + 32) s = Done t" "heap_inv t" "heap_blocks t = coal (xs @ (a, n, True) # ys)"
    "mem t = memset (a + 32) 0xCC (n - 4) (mem s)"
    using free_mem_live [OF inv xs] by blast
  have "live t = (live s)(p := None)"
    using live_release [OF t0 [unfolded xs]] unfolding live_def t(3) xs a(2) .
  moreover have "mem t x = mem s x" if "live s q = Some v" "q \<noteq> p" "q \<le> x" "x < q + v" for q v x
    using live_apart [OF t0 u that(1) [unfolded live_def]] that(2-4) a(2,3) by (auto simp: t(4) memset_def)
  ultimately show ?thesis using t(1,2) a(2) by blast
qed

lemma heap_separated:
  "heap_inv s \<Longrightarrow> live s p = Some u \<Longrightarrow> live s q = Some v \<Longrightarrow> p \<noteq> q \<Longrightarrow> p + u \<le> q \<or> q + v \<le> p"
  using live_apart [OF heap_inv_facts(4)] unfolding live_def by fastforce

lemma alloc_outcome_done: "alloc_outcome newmem sz s res \<Longrightarrow> \<exists>p t. res = Done (p, t) \<and> heap_inv t"
  unfolding alloc_outcome_def by blast

lemma memset_outside: "\<not> (p \<le> a \<and> a < p + u) \<Longrightarrow> memset p v u m a = m a"
  by (auto simp: memset_def)

lemma allocator_contract:
  assumes f: "\<And>s n. heap_inv s \<Longrightarrow> request_ok n \<Longrightarrow> alloc_outcome newmem n s (f n s)"
    and new: "\<And>p u s a. \<not> (p \<le> a \<and> a < p + u) \<Longrightarrow> newmem p u s a = mem s a"
  shows "memory_allocator f free_mem heap_inv live mem request_ok"
proof
  fix s n
  assume inv: "heap_inv s" and req: "request_ok n"
  show "\<exists>p s'. f n s = Done (p, s') \<and> heap_inv s'" using alloc_outcome_done [OF f [OF inv req]] by blast
  fix p s'
  assume "f n s = Done (p, s')"
  then have o: "alloc_outcome newmem n s (Done (p, s'))" using f [OF inv req] by simp
  note laws = alloc_laws [OF inv req o new]
  show "p = 0 \<and> live s' = live s \<or> 0 < p \<and> live s p = None \<and> (\<exists>u \<ge> n. live s' = (live s)(p \<mapsto> u))"
    by (rule laws(2))
  show "mem s' a = mem s a" if "live s q = Some u" "q \<le> a" "a < q + u" for q u a
    by (rule laws(3) [OF _ that])
next
  fix s p
  assume inv: "heap_inv s" and p: "live s p \<noteq> None"
  note laws = free_laws [OF inv p]
  show "\<exists>s'. free_mem p s = Done s' \<and> heap_inv s'" using laws by blast
  fix s'
  assume r: "free_mem p s = Done s'"
  show "live s' = (live s)(p := None)" using laws r by auto
  show "mem s' a = mem s a" if "live s q = Some u" "q \<noteq> p" "q \<le> a" "a < q + u" for q u a
    using laws r that by auto
next
  show "p + u \<le> q \<or> q + v \<le> p"
    if "heap_inv s" "live s p = Some u" "live s q = Some v" "p \<noteq> q" for s p u q v
    using heap_separated that by blast
qed

interpretation zeroed: memory_allocator alloc free_mem heap_inv live mem request_ok
  by (rule allocator_contract [OF alloc_both(1)]) (simp_all add: memset_outside)

interpretation raw: memory_allocator alloc_unzeroed free_mem heap_inv live mem request_ok
  by (rule allocator_contract [OF alloc_both(2)]) simp_all

section \<open>Initialisation\<close>

lemma allocator_init_inv:
  assumes "0 < m" and "m + sz < 2 ^ 64" and "128 \<le> sz"
  shows "\<exists>t. allocator_init m sz s = Done t \<and> heap_inv t \<and> live t = Map.empty \<and>
    heap_start t = (m + 15) div 16 * 16 \<and> m \<le> heap_start t \<and> heap_end t \<le> m + sz \<and> m + sz < heap_end t + 16"
proof -
  define a where "a = (m + 15) div 16 * 16"
  define z where "z = (sz - (a - m)) div 16 * 16"
  have al: "ALIGN m = a" using assms ALIGN_eq [of m] by (simp add: minus_mod_eq_div_mult a_def)
  have a: "m \<le> a" "a < m + 16" "16 dvd a" unfolding a_def by (simp, linarith, simp)
  have zeq: "(sz - (a - m)) - (sz - (a - m)) mod 16 = z" by (simp add: minus_mod_eq_div_mult z_def)
  have zb: "96 \<le> z" "z \<le> sz - (a - m)" "sz - (a - m) < z + 16" "16 dvd z"
    unfolding z_def using a(1,2) assms(3) by (linarith, linarith, linarith, simp)
  have lost: "sub64 a m = a - m" "\<not> sz < a - m" using a(1,2) assms by (simp_all add: wrap)
  have az: "a + z < 2 ^ 64" using a(1,2) zb(2) assms(2,3) by linarith
  have e: "w64 (a + z) = a + z" "sub64 z 32 = z - 32" using az zb(1) by (simp_all add: wrap)
  let ?h = "\<lparr>bsize = z - 32, bnext = 0, bprev = 0, bfree = True, bmagic = BLOCK_MAGIC\<rparr>"
  define t1 where "t1 = upd_hdr a (\<lambda>h. ?h) (s\<lparr>heap_start := a, heap_end := a + z, heap_size := z,
     total_allocated := 0, total_free := 0, peak_usage := 0, free_list_head := a\<rparr>)"
  have foot: "block_footer a t1 = a + 28 + (z - 32)"
    using zb(1) az by (simp add: block_footer_def t1_def heap_consts wrap)
  define t where "t = t1\<lparr>ftr := (ftr t1)(a + 28 + (z - 32) := FOOTER_MAGIC), total_free := z - 32\<rparr>"
  have "write_footer a t1 = t1\<lparr>ftr := (ftr t1)(a + 28 + (z - 32) := FOOTER_MAGIC)\<rparr>"
    unfolding write_footer_def foot ..
  moreover have "bsize (hdr t1 a) = z - 32" by (simp add: t1_def)
  ultimately have run: "allocator_init m sz s = Done t"
    using assms lost(2) unfolding allocator_init_def Let_def al lost(1) ALIGNMENT_def zeq HEADER_SIZE_def e
      t1_def [symmetric] by (simp add: heap_consts t_def)
  let ?bs = "[(a, z - 32, True)] :: block list"
  have f: "heap_start t = a" "heap_end t = a + z" "heap_size t = z" "hdr t a = ?h" "free_list_head t = a"
    "ftr t (a + 28 + (z - 32)) = FOOTER_MAGIC" "total_allocated t = 0" "total_free t = z - 32"
    by (simp_all add: t_def t1_def)
  have "heap_shape t ?bs"
    using a zb az assms(1) f(4-6) by (simp add: heap_shape_def heap_region_def block_ok_def dll_def nxt_def f(1-3) dvd_diff_nat)
  then have "heap_rel t ?bs" by (simp add: heap_rel_def heap_acct_def f)
  moreover have "guards t ?bs" using f(6) by (simp add: guards_def)
  ultimately have "heap_inv t \<and> heap_blocks t = ?bs" by (rule heap_inv_intro)
  then show ?thesis using run a(1) zb(2,3) lost(2) by (auto simp: live_def f(1,2) a_def [symmetric])
qed

section \<open>Client steps\<close>

datatype heap_op = Heap_Alloc nat | Heap_Alloc_Unzeroed nat | Heap_Free nat

definition heap_step :: "heap_op \<Rightarrow> heap \<Rightarrow> heap outcome" where
  "heap_step opn s =
     (case opn of
        Heap_Alloc n \<Rightarrow> (case alloc n s of Done (p, s') \<Rightarrow> Done s' | Panic \<Rightarrow> Panic | Hang \<Rightarrow> Hang)
      | Heap_Alloc_Unzeroed n \<Rightarrow> (case alloc_unzeroed n s of Done (p, s') \<Rightarrow> Done s' | Panic \<Rightarrow> Panic | Hang \<Rightarrow> Hang)
      | Heap_Free p \<Rightarrow> free_mem p s)"

fun heap_run :: "heap_op list \<Rightarrow> heap \<Rightarrow> heap outcome" where
  "heap_run [] s = Done s"
| "heap_run (x # xs) s = (case heap_step x s of Done s' \<Rightarrow> heap_run xs s' | Panic \<Rightarrow> Panic | Hang \<Rightarrow> Hang)"

text \<open>Steps of clients that do not own \<open>q\<close> and free only what is in use.\<close>

definition client_step :: "nat \<Rightarrow> heap_op \<Rightarrow> heap \<Rightarrow> bool" where
  "client_step q opn s =
     (case opn of
        Heap_Alloc n \<Rightarrow> request_ok n
      | Heap_Alloc_Unzeroed n \<Rightarrow> request_ok n
      | Heap_Free p \<Rightarrow> p \<noteq> q \<and> live s p \<noteq> None)"

fun client_run :: "nat \<Rightarrow> heap_op list \<Rightarrow> heap \<Rightarrow> bool" where
  "client_run q [] s = True"
| "client_run q (x # xs) s \<longleftrightarrow> client_step q x s \<and>
     (case heap_step x s of Done s' \<Rightarrow> client_run q xs s' | Panic \<Rightarrow> True | Hang \<Rightarrow> True)"

lemma heap_step_keeps:
  assumes "heap_inv s" and "client_step q x s" and "live s q = Some u"
  shows "\<exists>s'. heap_step x s = Done s' \<and> zeroed.keeps q u s s'"
proof (cases x)
  case (Heap_Alloc n)
  then show ?thesis using zeroed.allocate_keeps [OF assms(1) _ assms(3), of n] assms(2)
    by (auto simp: heap_step_def client_step_def)
next
  case (Heap_Alloc_Unzeroed n)
  then show ?thesis using raw.allocate_keeps [OF assms(1) _ assms(3), of n] assms(2)
    by (auto simp: heap_step_def client_step_def raw.keeps_def zeroed.keeps_def)
next
  case (Heap_Free p)
  then show ?thesis using zeroed.release_keeps [OF assms(1) _ _ assms(3), of p] assms(2)
    by (auto simp: heap_step_def client_step_def)
qed

lemma heap_run_keeps:
  assumes "heap_inv s" and "client_run q xs s" and "live s q = Some u"
  shows "\<exists>s'. heap_run xs s = Done s' \<and> zeroed.keeps q u s s'"
  using assms
proof (induction xs arbitrary: s)
  case Nil
  then show ?case by (simp add: zeroed.keeps_def)
next
  case (Cons x xs)
  obtain s1 where s1: "heap_step x s = Done s1" "zeroed.keeps q u s s1"
    using heap_step_keeps [OF Cons.prems(1) _ Cons.prems(3)] Cons.prems(2) by auto
  then obtain s2 where "heap_run xs s1 = Done s2" "zeroed.keeps q u s1 s2"
    using Cons.IH [of s1] Cons.prems(2) by (auto simp: zeroed.keeps_def)
  then show ?case using s1 zeroed.keeps_trans by auto
qed

section \<open>Properties\<close>

text \<open>
  C3. Isolation of heap allocations: whatever other clients allocate and free (as long as they free
  only what is in use and is not this block), the heap keeps answering without panicking or looping,
  the invariant holds, and a block in use stays in use with every byte unchanged and disjoint from
  every other block in use.
\<close>

theorem heap_isolation:
  assumes "heap_inv s" and "client_run q ops s" and "live s q = Some u"
  shows "\<exists>s'. heap_run ops s = Done s' \<and> heap_inv s' \<and> live s' q = Some u \<and>
    (\<forall>a. q \<le> a \<and> a < q + u \<longrightarrow> mem s' a = mem s a) \<and>
    (\<forall>p v. live s' p = Some v \<and> p \<noteq> q \<longrightarrow> p + v \<le> q \<or> q + u \<le> p)"
proof -
  obtain s' where s': "heap_run ops s = Done s'" "zeroed.keeps q u s s'" using heap_run_keeps [OF assms] by blast
  then show ?thesis using zeroed.separated by (fastforce simp: zeroed.keeps_def)
qed

definition heap_blank :: heap where
  "heap_blank = \<lparr>free_list_head = 0, heap_start = 0, heap_end = 0, heap_size = 0, total_allocated = 0,
     total_free = 0, peak_usage = 0,
     stats = \<lparr>alloc_count = 0, free_count = 0, split_count = 0, coalesce_count = 0, failed_allocs = 0, resize_count = 0\<rparr>,
     hdr = \<lambda>_. \<lparr>bsize = 0, bnext = 0, bprev = 0, bfree = False, bmagic = 0\<rparr>, ftr = \<lambda>_. 0, mem = \<lambda>_. 7\<rparr>"

text \<open>A heap of 512 bytes with two blocks in use and one free.\<close>

definition heap_demo :: heap where
  "heap_demo = heap_blank\<lparr>free_list_head := 0x10A0, heap_start := 0x1000, heap_end := 0x1200, heap_size := 512,
     total_allocated := 96, total_free := 384, peak_usage := 96,
     hdr := (\<lambda>a. if a = 0x1000 \<or> a = 0x1050
                  then \<lparr>bsize = 48, bnext = 0, bprev = 0, bfree = False, bmagic = BLOCK_MAGIC\<rparr>
                  else \<lparr>bsize = 320, bnext = 0, bprev = 0, bfree = True, bmagic = BLOCK_MAGIC\<rparr>),
     ftr := (\<lambda>a. if a = 0x104C \<or> a = 0x109C \<or> a = 0x11FC then FOOTER_MAGIC else 0)\<rparr>"

lemma heap_demo_blocks:
  "heap_blocks heap_demo = [(0x1000, 48, False), (0x1050, 48, False), (0x10A0, 320, True)]"
  by code_simp

lemma heap_demo_inv: "heap_inv heap_demo"
  by code_simp

lemma heap_demo_live: "live heap_demo 0x1020 = Some 44" "live heap_demo 0x1070 = Some 44"
  by (simp_all add: live_def heap_demo_blocks)

lemma heap_demo_run: "client_run 0x1020 [Heap_Free 0x1070, Heap_Alloc 30, Heap_Alloc_Unzeroed 50] heap_demo"
  by (auto simp: client_step_def heap_demo_live request_ok_def split: outcome.splits)

theorem heap_isolation_witness:
  "\<exists>s'. heap_run [Heap_Free 0x1070, Heap_Alloc 30, Heap_Alloc_Unzeroed 50] heap_demo = Done s' \<and>
     live s' 0x1020 = Some 44 \<and> mem s' 0x1021 = 7"
proof -
  have "mem heap_demo 0x1021 = 7" by code_simp
  then show ?thesis
    using heap_isolation [of heap_demo "0x1020" "[Heap_Free 0x1070, Heap_Alloc 30, Heap_Alloc_Unzeroed 50]" 44]
      heap_demo_inv heap_demo_live heap_demo_run by auto
qed

text \<open>
  Initialisation: \<^verbatim>\<open>allocator_init\<close> on any region of at least 128 bytes that does not wrap around
  succeeds, establishes the invariant with nothing allocated, and the heap lies inside the region and
  leaves out less than 16 bytes at each side.
\<close>

theorem allocator_init_ok:
  assumes "0 < m" and "m + sz < 2 ^ 64" and "128 \<le> sz"
  shows "\<exists>t. allocator_init m sz s = Done t \<and> heap_inv t \<and> live t = Map.empty \<and>
    m \<le> heap_start t \<and> heap_start t < m + 16 \<and> heap_end t \<le> m + sz \<and> m + sz < heap_end t + 16"
proof -
  have "(m + 15) div 16 * 16 < m + 16" by linarith
  then show ?thesis using allocator_init_inv [OF assms, of s] by auto
qed

theorem allocator_init_ok_witness:
  "\<exists>t. allocator_init 0x1005 512 heap_blank = Done t \<and> heap_inv t \<and> live t = Map.empty"
  using allocator_init_ok [of "0x1005" 512 heap_blank] by auto

lemma tiles_aligned: "tiles lo bs hi \<Longrightarrow> 16 dvd lo \<Longrightarrow> (a, n, f) \<in> set bs \<Longrightarrow> 16 dvd a"
proof (induction lo bs hi rule: tiles.induct)
  case (2 lo a' n' f' bs hi)
  then have "16 dvd lo + 32 + n'" by (auto intro!: dvd_add)
  then show ?case using 2 by auto
qed simp

text \<open>The first block, in address order, that is free and large enough.\<close>

definition first_fit :: "block list \<Rightarrow> nat \<Rightarrow> nat option" where
  "first_fit bs need = map_option fst (find (\<lambda>(a, n, f). f \<and> need \<le> n) bs)"

lemma first_fit_none: "\<forall>(a, n, f) \<in> set bs. f \<longrightarrow> n < need \<Longrightarrow> first_fit bs need = None"
  by (force simp: first_fit_def find_None_iff)

lemma first_fit_some:
  "\<forall>(a, n, f) \<in> set xs. f \<longrightarrow> n < need \<Longrightarrow> need \<le> n \<Longrightarrow> first_fit (xs @ (a, n, True) # ys) need = Some a"
  by (induction xs) (auto simp: first_fit_def)

text \<open>
  C31. First fit: on a well-formed heap \<^verbatim>\<open>alloc\<close> always returns. If a free block can hold the rounded
  request, the lowest such block is used: the pointer is 16-byte aligned, fresh, has at least the
  requested size, is zeroed over its whole usable size, and no other byte changes. Otherwise the
  result is NULL and nothing in use changes.
\<close>

theorem alloc_first_fit:
  assumes "heap_inv s" and "request_ok sz"
  shows "\<exists>p t. alloc sz s = Done (p, t) \<and> heap_inv t \<and>
    (case first_fit (heap_blocks s) (payload_size sz) of
       None \<Rightarrow> p = 0 \<and> live t = live s \<and> mem t = mem s
     | Some a \<Rightarrow> p = a + 32 \<and> 16 dvd p \<and> live s p = None \<and>
         (\<exists>u \<ge> sz. live t = (live s)(p \<mapsto> u) \<and>
            mem t = (\<lambda>x. if p \<le> x \<and> x < p + u then 0 else mem s x)))"
proof -
  let ?N = "payload_size sz"
  note t0 = heap_inv_facts(4) [OF assms(1)]
  from alloc_both(1) [OF assms] show ?thesis unfolding alloc_outcome_def
  proof (elim disjE exE conjE)
    fix t
    assume "alloc sz s = Done (0, t)" "heap_inv t" "heap_blocks t = heap_blocks s" "mem t = mem s"
      "\<forall>(a, n, f) \<in> set (heap_blocks s). f \<longrightarrow> n < ?N"
    then show ?thesis by (intro exI [of _ 0] exI [of _ t]) (simp add: live_def first_fit_none)
  next
    fix xs a n ys t
    assume r: "heap_blocks s = xs @ (a, n, True) # ys" "?N \<le> n" "\<forall>(a, n, f) \<in> set xs. f \<longrightarrow> n < ?N"
      "alloc sz s = Done (a + 32, t)" "heap_inv t" "heap_blocks t = take_block xs a n ys ?N"
      "mem t = memset (a + 32) 0 (taken_size n ?N - 4) (mem s)"
    have m: "(a, n, True) \<in> set (heap_blocks s)" using r(1) by simp
    have "16 dvd heap_start s" using heap_inv_facts(3) [OF assms(1)] by (simp add: heap_shape_def heap_region_def)
    from tiles_aligned [OF t0 this m] have al: "16 dvd a + 32" by (auto intro: dvd_add)
    have sz: "sz \<le> taken_size n ?N - 4" using payload_size_ok(3) [OF assms(2)] r(2) by (auto simp: taken_size_def)
    have lv: "live t = (live s)(a + 32 \<mapsto> taken_size n ?N - 4)" "live s (a + 32) = None"
      using live_take [OF t0 [unfolded r(1)]] unfolding live_def r(1,6) by auto
    have "first_fit (heap_blocks s) ?N = Some a" unfolding r(1) by (rule first_fit_some [OF r(3,2)])
    then show ?thesis
      using r(4,5,7) al sz lv
      by (intro exI [of _ "a + 32"] exI [of _ t]) (auto simp: memset_def intro!: exI [of _ "taken_size n ?N - 4"])
  qed
qed

theorem alloc_first_fit_witness:
  "\<exists>t. alloc 100 heap_demo = Done (0x10C0, t) \<and> mem t 0x1123 = 0 \<and> mem t 0x10BF = 7"
proof -
  have "request_ok 100" by (simp add: request_ok_def)
  moreover have "first_fit (heap_blocks heap_demo) (payload_size 100) = Some 0x10A0"
    unfolding heap_demo_blocks by (simp add: first_fit_def payload_size_def ALIGN_def heap_consts w64_def)
  moreover have "mem heap_demo 0x10BF = 7" by code_simp
  ultimately show ?thesis using alloc_first_fit [OF heap_demo_inv, of 100] by auto
qed

end
