(* ===== verification/Allocator_Extra.thy ===== *)
theory Allocator_Extra
  imports Allocator_Spec
begin

text \<open>
  What rests on the heap contract: accounting and the consistency check, the error paths of
  \<^verbatim>\<open>free_mem\<close>, resizing, aligned allocation and its inverse, and the request sizes near the end
  of the \<^verbatim>\<open>size_t\<close> range that the rounding wraps around.
\<close>

section \<open>Accounting and diagnostics\<close>

definition free_bytes :: "block list \<Rightarrow> nat" where
  "free_bytes bs = sum_list (map (\<lambda>(a, n, f). if f then n else 0) bs)"

lemma tiles_bytes: "tiles lo bs hi \<Longrightarrow> hi = lo + allocated bs + free_bytes bs + 32 * length bs"
  by (induction lo bs hi rule: tiles.induct) (auto simp: free_bytes_def)

lemma check_loop_true:
  assumes "\<forall>(a, n, f) \<in> set bs. f \<longrightarrow> validate_block_fast a s \<and> check_footer a s \<and> a \<noteq> 0"
    and "links s (x # free_addrs bs @ [0])" and "cur = nxt s x"
    and "visited + length (free_addrs bs) \<le> maxb"
  shows "check_loop maxb visited cur s"
  using assms
proof (induction bs arbitrary: x cur visited)
  case Nil
  then show ?case by (simp add: check_loop.simps)
next
  case (Cons b bs)
  obtain a n f where b: "b = (a, n, f)" by (cases b)
  show ?case
  proof (cases f)
    case True
    then have "cur = a" "validate_block_fast a s" "check_footer a s" "a \<noteq> 0" using Cons.prems b by auto
    moreover have "check_loop maxb (visited + 1) (nxt s a) s"
      by (rule Cons.IH [of a]) (use Cons.prems b True in auto)
    ultimately show ?thesis using Cons.prems(4) b True
      by (subst check_loop.simps) (simp add: nxt_def)
  next
    case False
    show ?thesis by (rule Cons.IH [of x]) (use Cons.prems b False in auto)
  qed
qed

text \<open>
  Accounting: on a well-formed heap the used counter is the total size of the blocks in use, the
  free counter is the total size of the free blocks plus one header for every block beyond the first,
  the blocks tile the heap exactly, and \<^verbatim>\<open>allocator_check\<close> reports no damage.
\<close>

theorem heap_accounting:
  assumes "heap_inv s"
  shows "allocator_used_bytes s = allocated (heap_blocks s) \<and>
    allocator_free_bytes s = free_bytes (heap_blocks s) + 32 * (length (heap_blocks s) - 1) \<and>
    heap_end s = heap_start s + allocated (heap_blocks s) + free_bytes (heap_blocks s) + 32 * length (heap_blocks s) \<and>
    allocator_check s"
proof -
  let ?bs = "heap_blocks s"
  note f = heap_inv_facts [OF assms]
  note t = tiles_bytes [OF f(4)]
  have region: "heap_end s = heap_start s + heap_size s" using f(3) by (simp add: heap_shape_def heap_region_def)
  have acct: "total_allocated s = allocated ?bs" "total_free s + total_allocated s = heap_size s - 32"
    using f(1) by (auto simp: heap_rel_def heap_acct_def)
  have "allocator_check s" unfolding allocator_check_def
  proof (rule check_loop_true)
    show "\<forall>(a, n, f) \<in> set ?bs. f \<longrightarrow> validate_block_fast a s \<and> check_footer a s \<and> a \<noteq> 0"
      using heap_shape_valid(1,3) [OF f(3)] heap_shape_block(5,10) [OF f(3)]
      by (fastforce simp: check_footer_def)
    show "links s (0 # free_addrs ?bs @ [0])" using f(3) by (simp add: heap_shape_def dll_def)
  qed (simp_all add: nxt_def heap_shape_free_bound [OF f(3)])
  moreover have "total_free s = free_bytes ?bs + 32 * (length ?bs - 1)"
    using acct t region by (cases ?bs) (auto simp: free_bytes_def)
  ultimately show ?thesis using acct t by (simp add: allocator_used_bytes_def allocator_free_bytes_def)
qed

theorem heap_accounting_witness:
  "allocator_used_bytes heap_demo = 96 \<and> allocator_free_bytes heap_demo = 320 + 64 \<and> allocator_check heap_demo"
  using heap_accounting [OF heap_demo_inv] by (simp add: heap_demo_blocks free_bytes_def)

section \<open>Error paths of freeing\<close>

text \<open>
  C35. Misuse of \<^verbatim>\<open>free_mem\<close> is caught: NULL, any address outside the heap and a block that is already
  free leave the heap as it is, and a block in use whose footer guard was overwritten stops the kernel.
\<close>

theorem free_mem_misuse:
  assumes "heap_shape s (heap_blocks s)"
  shows "free_mem 0 s = Done s \<and>
    (\<forall>p. p < heap_start s \<or> heap_end s \<le> p \<longrightarrow> free_mem p s = Done s) \<and>
    (\<forall>a n. (a, n, True) \<in> set (heap_blocks s) \<longrightarrow> free_mem (a + 32) s = Done s) \<and>
    (\<forall>a n. (a, n, False) \<in> set (heap_blocks s) \<and> ftr s (a + 28 + n) \<noteq> FOOTER_MAGIC \<longrightarrow>
       free_mem (a + 32) s = Panic)"
proof (intro conjI allI impI)
  fix a n
  have w: "sub64 (a + 32) HEADER_SIZE = a \<and> \<not> (a + 32 < heap_start s \<or> heap_end s \<le> a + 32)"
    if m: "(a, n, f) \<in> set (heap_blocks s)" for f
    using heap_shape_block(1,2,3,6) [OF assms m] by (simp add: wrap heap_consts)
  show "free_mem (a + 32) s = Done s" if m: "(a, n, True) \<in> set (heap_blocks s)"
    using w [OF m] heap_shape_valid(2) [OF assms m] heap_shape_block(8) [OF assms m]
    by (auto simp: free_mem_def)
  show "free_mem (a + 32) s = Panic"
    if m: "(a, n, False) \<in> set (heap_blocks s) \<and> ftr s (a + 28 + n) \<noteq> FOOTER_MAGIC"
    using w [OF conjunct1 [OF m]] heap_shape_valid(2,3) [OF assms conjunct1 [OF m]] m
      heap_shape_block(8) [OF assms conjunct1 [OF m]]
    by (auto simp: free_mem_def check_footer_def)
qed (auto simp: free_mem_def)

theorem free_mem_misuse_witness:
  "free_mem 0x10C0 heap_demo = Done heap_demo \<and> free_mem 0x5000 heap_demo = Done heap_demo"
proof -
  have "(0x10A0, 320, True) \<in> set (heap_blocks heap_demo)" by (simp add: heap_demo_blocks)
  moreover have "heap_end heap_demo = 0x1200" by (simp add: heap_demo_def)
  ultimately show ?thesis using free_mem_misuse [OF heap_inv_facts(3) [OF heap_demo_inv]] by force
qed

section \<open>Writing into memory\<close>

lemma heap_inv_mem: "heap_inv s \<Longrightarrow> heap_inv (s\<lparr>mem := m\<rparr>) \<and> live (s\<lparr>mem := m\<rparr>) = live s"
  using heap_inv_cong [of "s\<lparr>mem := m\<rparr>" s] by (simp add: live_def)

lemma heap_inv_stats: "heap_inv s \<Longrightarrow> heap_inv (upd_stats g s) \<and> live (upd_stats g s) = live s"
  using heap_inv_cong [of "upd_stats g s" s] by (simp add: live_def)

lemma store_bytes_at [simp]: "i < length bs \<Longrightarrow> store_bytes p bs m (p + i) = bs ! i"
  by (simp add: store_bytes_def)

lemma store_bytes_outside: "x < p \<or> p + length bs \<le> x \<Longrightarrow> store_bytes p bs m x = m x"
  by (auto simp: store_bytes_def)

lemma length_load_bytes [simp]: "length (load_bytes p n m) = n"
  by (simp add: load_bytes_def)

lemma nth_load_bytes [simp]: "i < n \<Longrightarrow> load_bytes p n m ! i = m (p + i)"
  by (simp add: load_bytes_def)

lemma load_store_bytes: "length bs = n \<Longrightarrow> load_bytes p n (store_bytes p bs m) = bs"
  by (rule nth_equalityI) simp_all

lemma live_header:
  assumes "heap_inv s" and "live s p = Some u"
  shows "validate_block_full (sub64 p HEADER_SIZE) s" and "bsize (hdr s (sub64 p HEADER_SIZE)) = u + 4"
    and "0 < p" and "p + u + 4 < 2 ^ 64"
proof -
  obtain a n where a: "(a, n, False) \<in> set (heap_blocks s)" "p = a + 32" "u = n - 4"
    using live_of_SomeD assms(2) unfolding live_def by blast
  note b = heap_shape_block [OF heap_inv_facts(3) [OF assms(1)] a(1)]
  have e: "sub64 p HEADER_SIZE = a" using b(6) a(2) by (simp add: wrap heap_consts)
  show "validate_block_full (sub64 p HEADER_SIZE) s"
    unfolding e by (rule heap_shape_valid(2) [OF heap_inv_facts(3) [OF assms(1)] a(1)])
  show "bsize (hdr s (sub64 p HEADER_SIZE)) = u + 4" "0 < p" "p + u + 4 < 2 ^ 64" using b(3,6,7) a(2,3) e by simp_all
qed

section \<open>Resizing\<close>

text \<open>
  C32. Resizing keeps the data: \<^verbatim>\<open>alloc_resize\<close> of a block in use returns; on success the result has at
  least the new size and starts with the old contents (up to the smaller of the two sizes), on failure
  the old block is still there; in both cases every other block in use keeps its bytes.
\<close>

theorem alloc_resize_content:
  assumes inv: "heap_inv s" and p: "live s p = Some u" and req: "request_ok n"
  shows "\<exists>q t. alloc_resize p n s = Done (q, t) \<and> heap_inv t \<and>
    (if q = 0 then live t = live s \<and> (\<forall>x. p \<le> x \<and> x < p + u \<longrightarrow> mem t x = mem s x)
     else (\<exists>v \<ge> n. live t q = Some v) \<and> (\<forall>i. i < u \<and> i < n \<longrightarrow> mem t (q + i) = mem s (p + i))) \<and>
    (\<forall>r v. r \<noteq> p \<and> live s r = Some v \<longrightarrow>
       live t r = Some v \<and> (\<forall>x. r \<le> x \<and> x < r + v \<longrightarrow> mem t x = mem s x))"
proof -
  note h = live_header [OF inv p]
  have nz: "n \<noteq> 0" using req by (simp add: request_ok_def)
  have old: "sub64 (u + 4) FOOTER_SIZE = u" using h(4) by (simp add: wrap heap_consts)
  show ?thesis
  proof (cases "n \<le> u")
    case True
    then have "alloc_resize p n s = Done (p, s)" using h nz old by (simp add: alloc_resize_def Let_def)
    then show ?thesis using True inv p h(3) by (intro exI [of _ p] exI [of _ s]) auto
  next
    case False
    obtain q s1 where a: "alloc n s = Done (q, s1)" "heap_inv s1" using zeroed.allocate_returns [OF inv req] by blast
    note reg = zeroed.allocate_regions [OF inv req a(1)]
      and cont = zeroed.allocate_content [OF inv req a(1)]
    show ?thesis
    proof (cases "q = 0")
      case True
      then have "alloc_resize p n s = Done (0, s1)" using a h nz old False by (simp add: alloc_resize_def Let_def)
      then show ?thesis using True a(2) reg cont p by (intro exI [of _ 0] exI [of _ s1]) auto
    next
      case q: False
      then obtain v where v: "live s q = None" "n \<le> v" "live s1 = (live s)(q \<mapsto> v)" using reg by auto
      have pq: "p \<noteq> q" using v(1) p by auto
      define s2 where "s2 = s1\<lparr>mem := store_bytes q (load_bytes p u (mem s1)) (mem s1)\<rparr>"
      have s2: "heap_inv s2" "live s2 = (live s)(q \<mapsto> v)" using heap_inv_mem [OF a(2)] v(3) by (simp_all add: s2_def)
      have p2: "live s2 p \<noteq> None" using p pq s2(2) by simp
      obtain t where t: "free_mem p s2 = Done t" "heap_inv t" "live t = (live s2)(p := None)"
        "\<And>r w x. live s2 r = Some w \<Longrightarrow> r \<noteq> p \<Longrightarrow> r \<le> x \<Longrightarrow> x < r + w \<Longrightarrow> mem t x = mem s2 x"
        using free_laws [OF s2(1) p2] by blast
      let ?t = "upd_stats (resize_count_update (\<lambda>c. w64 (c + 1))) t"
      have run: "alloc_resize p n s = Done (q, ?t)"
        using a h nz old False q t(1) by (simp add: alloc_resize_def Let_def s2_def)
      have "mem t (q + i) = mem s (p + i)" if "i < u" for i
      proof -
        have "mem t (q + i) = mem s2 (q + i)" using t(4) [of q v "q + i"] s2(2) pq that v(2) False by simp
        also have "\<dots> = mem s1 (p + i)" using that by (simp add: s2_def)
        finally show ?thesis using cont [OF p, of "p + i"] that by simp
      qed
      moreover have "live t r = Some w \<and> (\<forall>x. r \<le> x \<and> x < r + w \<longrightarrow> mem t x = mem s x)"
        if r: "r \<noteq> p" "live s r = Some w" for r w
      proof -
        have rq: "r \<noteq> q" using r(2) v(1) by auto
        have "q + v \<le> r \<or> r + w \<le> q" using zeroed.separated [OF a(2), of q v r w] v(3) r rq by auto
        then have "mem s2 x = mem s1 x" if "r \<le> x" "x < r + w" for x
          unfolding s2_def using that v(2) False by (auto simp: store_bytes_def)
        then show ?thesis using r rq t(3) t(4) [of r w] s2(2) cont [OF r(2)] by auto
      qed
      ultimately show ?thesis
        using run q t(2,3) heap_inv_stats [OF t(2)] pq s2(2) v(2)
        by (intro exI [of _ q] exI [of _ ?t]) auto
    qed
  qed
qed

theorem alloc_resize_content_witness:
  "\<exists>q t. alloc_resize 0x1020 100 heap_demo = Done (q, t) \<and> (q = 0 \<or> mem t (q + 43) = 7) \<and> mem t 0x1070 = 7"
proof -
  have "request_ok 100" by (simp add: request_ok_def)
  moreover have "mem heap_demo x = 7" for x by (simp add: heap_demo_def heap_blank_def)
  moreover obtain q t where r: "alloc_resize 0x1020 100 heap_demo = Done (q, t)"
    "if q = 0 then live t = live heap_demo \<and> (\<forall>x. 0x1020 \<le> x \<and> x < 0x1020 + 44 \<longrightarrow> mem t x = mem heap_demo x)
     else (\<exists>v \<ge> 100. live t q = Some v) \<and> (\<forall>i. i < 44 \<and> i < 100 \<longrightarrow> mem t (q + i) = mem heap_demo (0x1020 + i))"
    "\<forall>r v. r \<noteq> 0x1020 \<and> live heap_demo r = Some v \<longrightarrow>
       live t r = Some v \<and> (\<forall>x. r \<le> x \<and> x < r + v \<longrightarrow> mem t x = mem heap_demo x)"
    using alloc_resize_content [OF heap_demo_inv heap_demo_live(1) calculation(1)] by blast
  moreover have "mem t 0x1070 = mem heap_demo 0x1070"
    using spec [OF spec [OF r(3), of "0x1070"], of 44] heap_demo_live(2) by simp
  ultimately show ?thesis by (intro exI [of _ q] exI [of _ t]) (auto split: if_splits)
qed

section \<open>Aligned allocation\<close>

lemma and_pred_zero_pow2: "0 < (x::nat) \<Longrightarrow> x AND (x - 1) = 0 \<Longrightarrow> \<exists>k. x = 2 ^ k"
proof (induction x rule: less_induct)
  case (less x)
  show ?case
  proof (cases "even x")
    case True
    then obtain y where y: "x = 2 * y" by blast
    then have y0: "0 < y" using less.prems by simp
    have "x - 1 = 2 * (y - 1) + 1" using y y0 by simp
    then have "x AND (x - 1) = 2 * (y AND (y - 1))"
      using y by (simp add: and_rec [of "2 * y"])
    then have "y AND (y - 1) = 0" using less.prems(2) by simp
    then obtain k where "y = 2 ^ k" using less.IH [of y] y y0 by auto
    then have "x = 2 ^ Suc k" using y by simp
    then show ?thesis by blast
  next
    case False
    then obtain y where y: "x = 2 * y + 1" using oddE by blast
    then have "x AND (x - 1) = 2 * y" by (simp add: and_rec [of "Suc (2 * y)"])
    then have "x = 2 ^ 0" using less.prems(2) y by simp
    then show ?thesis by blast
  qed
qed

lemma is_pow2_power: "is_pow2 x \<Longrightarrow> \<exists>k. x = 2 ^ k"
  using and_pred_zero_pow2 [of x] by (simp add: is_pow2_def)

lemma word_and_not_mask:
  fixes w :: u64
  assumes "k < 64"
  shows "unat (w AND NOT (of_nat (2 ^ k - 1))) = unat w div 2 ^ k * 2 ^ k"
proof -
  have "(of_nat (2 ^ k - 1) :: u64) = mask k" by (simp add: mask_eq_exp_minus_1 of_nat_diff)
  then have "w AND NOT (of_nat (2 ^ k - 1)) = push_bit k (drop_bit k w)"
    by (simp add: bit_eq_iff bit_simps) auto
  moreover have "unat (push_bit k (drop_bit k w)) = unat w div 2 ^ k * 2 ^ k"
  proof -
    have "unat w div 2 ^ k * 2 ^ k \<le> unat w" by simp
    moreover have w: "unat w < 2 ^ 64" using unsigned_less [of w] by simp
    ultimately have "unat w div 2 ^ k * 2 ^ k < 2 ^ 64" by (rule le_less_trans)
    then show ?thesis using w unfolding unsigned_push_bit_eq unsigned_drop_bit_eq
      by (simp add: take_bit_eq_mod push_bit_eq_mult drop_bit_eq_div)
  qed
  ultimately show ?thesis by simp
qed

lemma align_up_pow2:
  assumes "a = 2 ^ k" and "v + a < 2 ^ 64"
  shows "a dvd align_up v a" and "v \<le> align_up v a" and "align_up v a < v + a"
proof -
  have a: "0 < a" using assms(1) by simp
  have k: "k < 64"
  proof (rule ccontr)
    assume "\<not> k < 64"
    then have "(2::nat) ^ 64 \<le> 2 ^ k" by (intro power_increasing) auto
    then show False using assms by simp
  qed
  have "sub64 (w64 (v + a)) 1 = v + a - 1" using assms(2) a by (simp add: wrap)
  moreover have "unat (of_nat (v + a - 1) :: u64) = v + a - 1"
    using assms(2) by (simp add: unat_of_nat)
  ultimately have e: "align_up v a = (v + a - 1) div a * a"
    unfolding align_up_def using word_and_not_mask [OF k, of "of_nat (v + a - 1)"] assms(1) by simp
  show "a dvd align_up v a" by (simp add: e)
  have "(v + a - 1) mod a < a" using a by simp
  moreover have "(v + a - 1) div a * a + (v + a - 1) mod a = v + a - 1" by simp
  ultimately show "v \<le> align_up v a" "align_up v a < v + a" unfolding e using a by linarith+
qed

text \<open>
  Aligned allocation: for a power of two of at least 16, \<^verbatim>\<open>kmalloc_aligned\<close> returns NULL with
  nothing changed, or a zeroed range of the requested size that starts at a multiple of the alignment
  inside one fresh block, and \<^verbatim>\<open>kfree_aligned\<close> of that pointer gives exactly that block back.
\<close>

theorem kmalloc_aligned_roundtrip:
  assumes inv: "heap_inv s" and al: "is_pow2 al" "16 \<le> al" and sz: "0 < sz" "sz + al + 27 < 2 ^ 64"
  shows "\<exists>r t. kmalloc_aligned sz al s = Done (r, t) \<and> heap_inv t \<and>
    (if r = 0 then live t = live s
     else al dvd r \<and> (\<forall>x. r \<le> x \<and> x < r + sz \<longrightarrow> mem t x = 0) \<and>
       (\<exists>raw u. live s raw = None \<and> live t = (live s)(raw \<mapsto> u) \<and> raw + 8 \<le> r \<and> r + sz \<le> raw + u) \<and>
       (\<exists>t'. kfree_aligned r t = Done t' \<and> heap_inv t' \<and> live t' = live s))"
proof -
  have req: "request_ok (sz + al + 8)" and w: "w64 (sz + al + 8) = sz + al + 8"
    using sz by (simp_all add: request_ok_def wrap)
  obtain raw s1 where a: "alloc_unzeroed (sz + al + 8) s = Done (raw, s1)" "heap_inv s1"
    using raw.allocate_returns [OF inv req] by blast
  note reg = raw.allocate_regions [OF inv req a(1)]
  have k: "kmalloc_aligned sz al s = (if raw = 0 then Done (0, s1) else
      let r = align_up (w64 (raw + 8)) al in
      Done (r, s1\<lparr>mem := memset r 0 sz (store_bytes (sub64 r 8) (le_bytes 8 raw) (mem s1))\<rparr>))"
    using al sz w a(1) by (simp add: kmalloc_aligned_def ALIGNMENT_def Let_def)
  show ?thesis
  proof (cases "raw = 0")
    case True
    then show ?thesis using k reg a(2) by (intro exI [of _ 0] exI [of _ s1]) auto
  next
    case False
    then obtain u where u: "live s raw = None" "sz + al + 8 \<le> u" "live s1 = (live s)(raw \<mapsto> u)" using reg by auto
    have b: "raw + u + 4 < 2 ^ 64" using live_header(4) [OF a(2), of raw u] u(3) by simp
    define r where "r = align_up (w64 (raw + 8)) al"
    obtain j where j: "al = 2 ^ j" using is_pow2_power [OF al(1)] by blast
    have "w64 (raw + 8) = raw + 8" "raw + 8 + al < 2 ^ 64" using b u(2) by (simp_all add: wrap)
    then have r: "al dvd r" "raw + 8 \<le> r" "r < raw + 8 + al"
      unfolding r_def using align_up_pow2 [OF j, of "raw + 8"] by simp_all
    define t where "t = s1\<lparr>mem := memset r 0 sz (store_bytes (r - 8) (le_bytes 8 raw) (mem s1))\<rparr>"
    have r8: "sub64 r 8 = r - 8" using r b u(2) by (simp add: wrap)
    have run: "kmalloc_aligned sz al s = Done (r, t)" using k False r8 by (simp add: Let_def r_def t_def)
    have t: "heap_inv t" "live t = (live s)(raw \<mapsto> u)" using heap_inv_mem [OF a(2)] u(3) by (simp_all add: t_def)
    have "load_bytes (r - 8) 8 (mem t) = load_bytes (r - 8) 8 (store_bytes (r - 8) (le_bytes 8 raw) (mem s1))"
      using r(2) by (intro nth_equalityI) (auto simp: t_def memset_def)
    then have "le_value (load_bytes (sub64 r 8) 8 (mem t)) = raw"
      using b unfolding r8 by (simp add: load_store_bytes le_value_bytes)
    moreover obtain t' where "free_mem raw t = Done t'" "heap_inv t'" "live t' = (live t)(raw := None)"
      using free_laws [OF t(1), of raw] t(2) by auto
    ultimately have "kfree_aligned r t = Done t'" "heap_inv t'" "live t' = live s"
      using r(2) t(2) u(1) by (auto simp: kfree_aligned_def)
    moreover have "\<forall>x. r \<le> x \<and> x < r + sz \<longrightarrow> mem t x = 0" by (simp add: t_def memset_def)
    moreover have "r + sz \<le> raw + u" using r(3) u(2) by simp
    ultimately show ?thesis using run t r u(1) by (intro exI [of _ r] exI [of _ t]) auto
  qed
qed

theorem kmalloc_aligned_roundtrip_witness:
  "\<exists>r t. kmalloc_aligned 10 64 heap_demo = Done (r, t) \<and> 64 dvd r \<and>
     (r = 0 \<or> (\<exists>t'. kfree_aligned r t = Done t' \<and> live t' = live heap_demo))"
proof -
  have "is_pow2 64" by (simp add: is_pow2_def)
  from kmalloc_aligned_roundtrip [OF heap_demo_inv this, of 10] obtain r t where
    "kmalloc_aligned 10 64 heap_demo = Done (r, t)"
    "if r = 0 then live t = live heap_demo
     else 64 dvd r \<and> (\<forall>x. r \<le> x \<and> x < r + 10 \<longrightarrow> mem t x = 0) \<and>
       (\<exists>raw u. live heap_demo raw = None \<and> live t = (live heap_demo)(raw \<mapsto> u) \<and> raw + 8 \<le> r \<and> r + 10 \<le> raw + u) \<and>
       (\<exists>t'. kfree_aligned r t = Done t' \<and> heap_inv t' \<and> live t' = live heap_demo)" by auto
  then show ?thesis by (intro exI [of _ r] exI [of _ t]) (auto split: if_splits)
qed

section \<open>Requests near the end of the address space\<close>

text \<open>
  Rounding wraps around: a request in the last four bytes of the \<^verbatim>\<open>size_t\<close> range is rounded to at
  most 16 bytes, so \<^verbatim>\<open>alloc_unzeroed\<close> answers it with a non-NULL pointer whenever the heap has any
  free block, instead of failing.
\<close>

theorem payload_size_wraps:
  assumes inv: "heap_inv s" and free: "free_list_head s \<noteq> 0" and sz: "2 ^ 64 - 4 \<le> sz" "sz < 2 ^ 64"
  shows "payload_size sz \<le> 16 \<and> (\<exists>p t. alloc_unzeroed sz s = Done (p, t) \<and> p \<noteq> 0)"
proof -
  define k where "k = sz + 4 - 2 ^ 64"
  have k: "sz + 4 = k + 2 ^ 64" "k < 4" using sz by (simp_all add: k_def)
  have "w64 (sz + 4) = k" unfolding w64_def k(1) using k(2) by simp
  then have pay: "payload_size sz = (k + 15) div 16 * 16"
    using sz k(2) by (simp add: payload_size_def ALIGN_eq heap_consts minus_mod_eq_div_mult)
  then have small: "payload_size sz \<le> 16" using k(2) by simp
  let ?N = "payload_size sz"
  note shape = heap_inv_facts(3) [OF inv]
  obtain a where fa: "alloc_find ?N (max_blocks s) 0 (free_list_head s) s = Done a" "0 < a" "a + 32 < 2 ^ 64"
  proof -
    have "links s (0 # [] @ [] @ free_addrs (heap_blocks s) @ [0])" using shape by (simp add: heap_shape_def dll_def)
    from links_middle [OF this] have h: "free_list_head s = hd (free_addrs (heap_blocks s) @ [0])" by (simp add: nxt_def)
    then have "free_addrs (heap_blocks s) \<noteq> []" using free by auto
    then obtain b n where m: "(b, n, True) \<in> set (heap_blocks s)"
      using free_addrs_mem [of "hd (free_addrs (heap_blocks s))" "heap_blocks s"] by auto
    then have "\<not> n < ?N" using heap_shape_block(3) [OF shape m] small by simp
    then have "\<not> (\<forall>(a, n, f) \<in> set (heap_blocks s). f \<longrightarrow> n < ?N)" using m by fast
    then obtain xs a n ys where r: "alloc_find ?N (max_blocks s) 0 (free_list_head s) s = Done a"
      "heap_blocks s = xs @ (a, n, True) # ys"
      using alloc_find_heap [OF shape, of ?N] by blast
    have "(a, n, True) \<in> set (heap_blocks s)" using r(2) by simp
    from heap_shape_block(5,6) [OF shape this] show ?thesis using that r(1) by simp
  qed
  have "w64 (a + HEADER_SIZE) = a + 32" using fa(3) by (simp add: wrap heap_consts)
  then have "\<exists>t. alloc_locked ?N s = Done (a + 32, t)" using fa by (simp add: alloc_locked_def Let_def)
  moreover have "sz \<noteq> 0" using sz by simp
  ultimately show ?thesis using small by (auto simp: alloc_unzeroed_def)
qed

theorem payload_size_wraps_witness:
  "payload_size (2 ^ 64 - 1) \<le> 16 \<and> (\<exists>p t. alloc_unzeroed (2 ^ 64 - 1) heap_demo = Done (p, t) \<and> p \<noteq> 0)"
  using payload_size_wraps [OF heap_demo_inv, of "2 ^ 64 - 1"] by (simp add: heap_demo_def)

end
