(* ===== verification/CString.thy ===== *)
theory CString
  imports Prelude
begin

text \<open>
  The kernel's string library, \<^verbatim>\<open>src/impl/string.c\<close>. The functions of the C string interface work on
  a byte memory and addresses; a loop that runs until a terminator may not return on memory that has
  none, so it is a partial function whose result is \<^const>\<open>None\<close> then. Addresses are natural numbers and
  address \<open>0\<close> is NULL. Number formatting, the managed \<^verbatim>\<open>string_t\<close> and \<^verbatim>\<open>snprintf\<close> work on byte lists:
  a C string is the list of its characters, a buffer the list of its bytes.
\<close>

type_synonym memory = "nat \<Rightarrow> u8"

section \<open>C strings in memory\<close>

partial_function (option) strlen_loop :: "memory \<Rightarrow> nat \<Rightarrow> nat \<Rightarrow> nat option" where
  "strlen_loop m str len = (if m (str + len) \<noteq> 0 then strlen_loop m str (len + 1) else Some len)"

definition strlen :: "memory \<Rightarrow> nat \<Rightarrow> nat option" where
  "strlen m str = strlen_loop m str 0"

definition byte_diff :: "u8 \<Rightarrow> u8 \<Rightarrow> int" where
  "byte_diff a b = int (unat a) - int (unat b)"

partial_function (option) strcmp :: "memory \<Rightarrow> nat \<Rightarrow> nat \<Rightarrow> int option" where
  "strcmp m s1 s2 =
     (if m s1 \<noteq> 0 \<and> m s1 = m s2 then strcmp m (s1 + 1) (s2 + 1) else Some (byte_diff (m s1) (m s2)))"

fun strncmp :: "memory \<Rightarrow> nat \<Rightarrow> nat \<Rightarrow> nat \<Rightarrow> int" where
  "strncmp m s1 s2 0 = 0"
| "strncmp m s1 s2 (Suc n) =
     (if m s1 \<noteq> 0 \<and> m s1 = m s2 then strncmp m (s1 + 1) (s2 + 1) n else byte_diff (m s1) (m s2))"

partial_function (option) strcpy :: "memory \<Rightarrow> nat \<Rightarrow> nat \<Rightarrow> memory option" where
  "strcpy m dest src =
     (let c = m src; m' = m(dest := c) in
      if c \<noteq> 0 then strcpy m' (dest + 1) (src + 1) else Some m')"

fun strncpy_pad :: "memory \<Rightarrow> nat \<Rightarrow> nat \<Rightarrow> memory" where
  "strncpy_pad m dest 0 = m"
| "strncpy_pad m dest (Suc n) = strncpy_pad (m(dest := 0)) (dest + 1) n"

fun strncpy :: "memory \<Rightarrow> nat \<Rightarrow> nat \<Rightarrow> nat \<Rightarrow> memory" where
  "strncpy m dest src 0 = m"
| "strncpy m dest src (Suc n) =
     (if m src \<noteq> 0 then strncpy (m(dest := m src)) (dest + 1) (src + 1) n
      else strncpy_pad m dest (Suc n))"

definition strcat :: "memory \<Rightarrow> nat \<Rightarrow> nat \<Rightarrow> memory option" where
  "strcat m dest src =
     (case strlen m dest of None \<Rightarrow> None | Some len \<Rightarrow> strcpy m (dest + len) src)"

partial_function (option) strchr :: "memory \<Rightarrow> nat \<Rightarrow> u8 \<Rightarrow> nat option" where
  "strchr m s c =
     (if m s \<noteq> 0 then (if m s = c then Some s else strchr m (s + 1) c) else Some 0)"

partial_function (option) strrchr_loop :: "memory \<Rightarrow> nat \<Rightarrow> u8 \<Rightarrow> nat \<Rightarrow> nat option" where
  "strrchr_loop m s c last_hit =
     (if m s \<noteq> 0 then strrchr_loop m (s + 1) c (if m s = c then s else last_hit) else Some last_hit)"

definition strrchr :: "memory \<Rightarrow> nat \<Rightarrow> u8 \<Rightarrow> nat option" where
  "strrchr m s c = strrchr_loop m s c 0"

text \<open>The inner loop of \<^verbatim>\<open>strstr\<close> gives the place where the needle stopped matching.\<close>

partial_function (option) strstr_match :: "memory \<Rightarrow> nat \<Rightarrow> nat \<Rightarrow> nat option" where
  "strstr_match m h n =
     (if m h \<noteq> 0 \<and> m n \<noteq> 0 \<and> m h = m n then strstr_match m (h + 1) (n + 1) else Some n)"

partial_function (option) strstr_loop :: "memory \<Rightarrow> nat \<Rightarrow> nat \<Rightarrow> nat option" where
  "strstr_loop m haystack needle =
     (if m haystack \<noteq> 0 then
        (case strstr_match m haystack needle of
           None \<Rightarrow> None
         | Some n \<Rightarrow> if m n = 0 then Some haystack else strstr_loop m (haystack + 1) needle)
      else Some 0)"

definition strstr :: "memory \<Rightarrow> nat \<Rightarrow> nat \<Rightarrow> nat option" where
  "strstr m haystack needle = (if m needle = 0 then Some haystack else strstr_loop m haystack needle)"

section \<open>Memory blocks\<close>

text \<open>\<^verbatim>\<open>rep stosq\<close> stores the eight bytes of a pattern, lowest first, \<open>q\<close> times.\<close>

fun rep_stosq :: "memory \<Rightarrow> nat \<Rightarrow> u64 \<Rightarrow> nat \<Rightarrow> memory" where
  "rep_stosq m p v 0 = m"
| "rep_stosq m p v (Suc q) =
     rep_stosq (\<lambda>a. if p \<le> a \<and> a < p + 8 then ucast (drop_bit (8 * (a - p)) v) else m a) (p + 8) v q"

fun rep_stosb :: "memory \<Rightarrow> nat \<Rightarrow> u64 \<Rightarrow> nat \<Rightarrow> memory" where
  "rep_stosb m p v 0 = m"
| "rep_stosb m p v (Suc n) = rep_stosb (m(p := ucast v)) (p + 1) v n"

definition memset_rep :: "memory \<Rightarrow> nat \<Rightarrow> u8 \<Rightarrow> nat \<Rightarrow> memory" where
  "memset_rep m s c n =
     (let pattern = 0x0101010101010101 * ucast c; qwords = n div 8; tail = n AND 7
      in rep_stosb (rep_stosq m s pattern qwords) (s + 8 * qwords) pattern tail)"

fun rep_movsq :: "memory \<Rightarrow> nat \<Rightarrow> nat \<Rightarrow> nat \<Rightarrow> memory" where
  "rep_movsq m d s 0 = m"
| "rep_movsq m d s (Suc q) =
     rep_movsq (\<lambda>a. if d \<le> a \<and> a < d + 8 then m (s + (a - d)) else m a) (d + 8) (s + 8) q"

fun rep_movsb :: "memory \<Rightarrow> nat \<Rightarrow> nat \<Rightarrow> nat \<Rightarrow> memory" where
  "rep_movsb m d s 0 = m"
| "rep_movsb m d s (Suc n) = rep_movsb (m(d := m s)) (d + 1) (s + 1) n"

definition memcpy_rep :: "memory \<Rightarrow> nat \<Rightarrow> nat \<Rightarrow> nat \<Rightarrow> memory" where
  "memcpy_rep m dest src n =
     (let qwords = n div 8; tail = n AND 7
      in rep_movsb (rep_movsq m dest src qwords) (dest + 8 * qwords) (src + 8 * qwords) tail)"

fun memmove_up :: "memory \<Rightarrow> nat \<Rightarrow> nat \<Rightarrow> nat \<Rightarrow> memory" where
  "memmove_up m d s 0 = m"
| "memmove_up m d s (Suc n) = memmove_up (m(d := m s)) (d + 1) (s + 1) n"

text \<open>The downward loop: \<open>d\<close> and \<open>s\<close> are the starts, the last of \<open>Suc n\<close> bytes goes first.\<close>

fun memmove_down :: "memory \<Rightarrow> nat \<Rightarrow> nat \<Rightarrow> nat \<Rightarrow> memory" where
  "memmove_down m d s 0 = m"
| "memmove_down m d s (Suc n) = memmove_down (m(d + n := m (s + n))) d s n"

definition memmove :: "memory \<Rightarrow> nat \<Rightarrow> nat \<Rightarrow> nat \<Rightarrow> memory" where
  "memmove m dest src n = (if dest < src then memmove_up m dest src n else memmove_down m dest src n)"

fun memcmp :: "memory \<Rightarrow> nat \<Rightarrow> nat \<Rightarrow> nat \<Rightarrow> int" where
  "memcmp m p1 p2 0 = 0"
| "memcmp m p1 p2 (Suc n) =
     (if m p1 \<noteq> m p2 then byte_diff (m p1) (m p2) else memcmp m (p1 + 1) (p2 + 1) n)"

section \<open>Tokens\<close>

text \<open>
  \<^verbatim>\<open>strtok\<close> keeps its position in a static variable: \<open>nxt\<close> is that variable, \<open>0\<close> initially. Its two
  loops skip delimiters and token characters; the result is the token, the memory with the delimiter
  behind it overwritten, and the new position.
\<close>

partial_function (option) strtok_skip :: "memory \<Rightarrow> nat \<Rightarrow> nat \<Rightarrow> nat option" where
  "strtok_skip m p delim =
     (if m p \<noteq> 0 then
        (case strchr m delim (m p) of
           None \<Rightarrow> None
         | Some hit \<Rightarrow> if hit \<noteq> 0 then strtok_skip m (p + 1) delim else Some p)
      else Some p)"

partial_function (option) strtok_span :: "memory \<Rightarrow> nat \<Rightarrow> nat \<Rightarrow> nat option" where
  "strtok_span m p delim =
     (if m p \<noteq> 0 then
        (case strchr m delim (m p) of
           None \<Rightarrow> None
         | Some hit \<Rightarrow> if hit = 0 then strtok_span m (p + 1) delim else Some p)
      else Some p)"

definition strtok :: "memory \<Rightarrow> nat \<Rightarrow> nat \<Rightarrow> nat \<Rightarrow> (nat \<times> memory \<times> nat) option" where
  "strtok m nxt str delim =
     (let nxt1 = (if str \<noteq> 0 then str else nxt) in
      if nxt1 = 0 \<or> m nxt1 = 0 then Some (0, m, nxt1)
      else case strtok_skip m nxt1 delim of
        None \<Rightarrow> None
      | Some start \<Rightarrow>
          if m start = 0 then Some (0, m, start)
          else case strtok_span m start delim of
            None \<Rightarrow> None
          | Some stop \<Rightarrow>
              if m stop \<noteq> 0 then Some (start, m(stop := 0), stop + 1)
              else Some (start, m, stop))"

section \<open>Characters\<close>

definition char_byte :: "char \<Rightarrow> u8" where
  "char_byte c = of_nat (of_char c)"

definition is_digit :: "u8 \<Rightarrow> bool" where
  "is_digit c = (48 \<le> c \<and> c \<le> 57)"

definition is_upper :: "u8 \<Rightarrow> bool" where
  "is_upper c = (65 \<le> c \<and> c \<le> 90)"

definition is_lower :: "u8 \<Rightarrow> bool" where
  "is_lower c = (97 \<le> c \<and> c \<le> 122)"

definition is_alpha :: "u8 \<Rightarrow> bool" where
  "is_alpha c = ((97 \<le> c \<and> c \<le> 122) \<or> (65 \<le> c \<and> c \<le> 90))"

definition is_alnum :: "u8 \<Rightarrow> bool" where
  "is_alnum c = (is_alpha c \<or> is_digit c)"

definition is_space :: "u8 \<Rightarrow> bool" where
  "is_space c = (c = 32 \<or> c = 9 \<or> c = 10 \<or> c = 13)"

definition to_upper :: "u8 \<Rightarrow> u8" where
  "to_upper c = (if is_lower c then c - 32 else c)"

definition to_lower :: "u8 \<Rightarrow> u8" where
  "to_lower c = (if is_upper c then c + 32 else c)"

section \<open>Numbers\<close>

text \<open>
  Each conversion collects digits from the lowest and then writes them reversed; \<open>tmp\<close> is the scratch
  array filled so far. The result is the string written to \<^verbatim>\<open>out\<close>, without its terminator.
\<close>

definition hex_digits :: bytes where
  "hex_digits = map char_byte ''0123456789ABCDEF''"

fun hex_loop :: "nat \<Rightarrow> nat \<Rightarrow> bytes \<Rightarrow> bytes" where
  "hex_loop 0 v tmp = tmp"
| "hex_loop (Suc room) v tmp =
     (if v = 0 then tmp else hex_loop room (v div 16) (tmp @ [hex_digits ! (v AND 15)]))"

definition hex_to_str :: "nat \<Rightarrow> bytes" where
  "hex_to_str v = (if v = 0 then [48] else rev (hex_loop 16 v []))"

fun uint_loop :: "nat \<Rightarrow> bytes \<Rightarrow> bytes" where
  "uint_loop v tmp = (if v = 0 then tmp else uint_loop (v div 10) (tmp @ [of_nat (48 + v mod 10)]))"

declare uint_loop.simps [simp del]

definition uint_to_str :: "nat \<Rightarrow> bytes" where
  "uint_to_str v = (if v = 0 then [48] else rev (uint_loop v []))"

text \<open>The negation is taken modulo \<open>2 ^ 64\<close>, as the machine computes it.\<close>

definition int_to_str :: "int \<Rightarrow> bytes" where
  "int_to_str v = (if v < 0 then 45 # uint_to_str (nat ((- v) mod 2 ^ 64)) else uint_to_str (nat v))"

fun bin_loop :: "nat \<Rightarrow> bytes \<Rightarrow> bytes" where
  "bin_loop v tmp =
     (if v = 0 then tmp else bin_loop (v div 2) (tmp @ [if v AND 1 \<noteq> 0 then 49 else 48]))"

declare bin_loop.simps [simp del]

definition bin_to_str :: "nat \<Rightarrow> bytes" where
  "bin_to_str v = (if v = 0 then [48] else rev (bin_loop v []))"

text \<open>Wrap-around of signed 64-bit arithmetic.\<close>

definition s64 :: "int \<Rightarrow> int" where
  "s64 x = (x + 2 ^ 63) mod 2 ^ 64 - 2 ^ 63"

fun skip_spaces :: "bytes \<Rightarrow> bytes" where
  "skip_spaces [] = []"
| "skip_spaces (c # cs) = (if is_space c then skip_spaces cs else c # cs)"

fun digits_value :: "int \<Rightarrow> bytes \<Rightarrow> int" where
  "digits_value r [] = r"
| "digits_value r (c # cs) =
     (if is_digit c then digits_value (s64 (r * 10 + (int (unat c) - 48))) cs else r)"

definition int_from_cstr :: "bytes option \<Rightarrow> int" where
  "int_from_cstr str =
     (case str of
        None \<Rightarrow> 0
      | Some cs \<Rightarrow>
          (case skip_spaces cs of
             [] \<Rightarrow> 0
           | c # cs' \<Rightarrow>
               if c = 45 then s64 (- digits_value 0 cs')
               else if c = 43 then digits_value 0 cs'
               else digits_value 0 (c # cs')))"

text \<open>
  \<^verbatim>\<open>itoa\<close>: C division truncates towards zero, so the remainders of a negative value are negative;
  the character arithmetic is done in bytes.
\<close>

definition itoa_digit :: "int \<Rightarrow> u8" where
  "itoa_digit r = (if r < 10 then of_int (r + 48) else of_int (r - 10 + 97))"

partial_function (option) itoa_loop :: "int \<Rightarrow> int \<Rightarrow> bytes \<Rightarrow> bytes option" where
  "itoa_loop v base acc =
     (if v = 0 then Some acc
      else if base = 0 then None
      else itoa_loop (sgn v * (\<bar>v\<bar> div base)) base (acc @ [itoa_digit (sgn v * (\<bar>v\<bar> mod base))]))"

text \<open>Base \<open>0\<close> traps in the division and base \<open>1\<close> never ends: both are \<^const>\<open>None\<close>.\<close>

definition itoa :: "int \<Rightarrow> int \<Rightarrow> bytes option" where
  "itoa v base = (if v = 0 then Some [48] else map_option rev (itoa_loop v base []))"

section \<open>Meaning of the string functions\<close>

text \<open>\<open>cstr_at m p cs\<close>: the characters \<open>cs\<close> and a terminator are stored at \<open>p\<close>.\<close>

fun cstr_at :: "memory \<Rightarrow> nat \<Rightarrow> bytes \<Rightarrow> bool" where
  "cstr_at m p [] = (m p = 0)"
| "cstr_at m p (c # cs) = (m p = c \<and> c \<noteq> 0 \<and> cstr_at m (p + 1) cs)"

fun cmp_bytes :: "bytes \<Rightarrow> bytes \<Rightarrow> int" where
  "cmp_bytes [] [] = 0"
| "cmp_bytes [] (d # ds) = byte_diff 0 d"
| "cmp_bytes (c # cs) [] = byte_diff c 0"
| "cmp_bytes (c # cs) (d # ds) = (if c = d then cmp_bytes cs ds else byte_diff c d)"

text \<open>The first place where \<open>ds\<close> occurs in \<open>cs\<close>.\<close>

fun find_sub :: "bytes \<Rightarrow> bytes \<Rightarrow> nat option" where
  "find_sub [] ds = (if ds = [] then Some 0 else None)"
| "find_sub (c # cs) ds =
     (if take (length ds) (c # cs) = ds then Some 0 else map_option Suc (find_sub cs ds))"

fun find_byte :: "bytes \<Rightarrow> u8 \<Rightarrow> nat option" where
  "find_byte [] b = None"
| "find_byte (c # cs) b = (if c = b then Some 0 else map_option Suc (find_byte cs b))"

lemma byte_diff_0 [simp]: "byte_diff a b = 0 \<longleftrightarrow> a = b"
  unfolding byte_diff_def by (metis diff_self eq_iff_diff_eq_0 of_nat_eq_iff unsigned_word_eqI)

lemma cmp_bytes_eq: "0 \<notin> set cs \<Longrightarrow> 0 \<notin> set ds \<Longrightarrow> cmp_bytes cs ds = 0 \<longleftrightarrow> cs = ds"
  by (induction cs ds rule: cmp_bytes.induct) auto

lemma cmp_bytes_swap: "cmp_bytes ds cs = - cmp_bytes cs ds"
  by (induction cs ds rule: cmp_bytes.induct) (auto simp: byte_diff_def)

lemma cstr_at_nonzero: "cstr_at m p cs \<Longrightarrow> 0 \<notin> set cs"
  by (induction cs arbitrary: p) auto

lemma cstr_at_nth: "cstr_at m p cs \<Longrightarrow> i < length cs \<Longrightarrow> m (p + i) = cs ! i"
proof (induction cs arbitrary: p i)
  case (Cons c cs)
  then show ?case by (cases i) (auto dest: Cons.IH)
qed simp

lemma cstr_at_end: "cstr_at m p cs \<Longrightarrow> m (p + length cs) = 0"
  by (induction cs arbitrary: p) fastforce+

lemma cstr_at_drop: "cstr_at m p cs \<Longrightarrow> i \<le> length cs \<Longrightarrow> cstr_at m (p + i) (drop i cs)"
proof (induction cs arbitrary: p i)
  case (Cons c cs)
  then show ?case by (cases i) (auto dest: Cons.IH)
qed simp

lemma cstr_at_cong:
  "cstr_at m p cs \<Longrightarrow> (\<And>a. p \<le> a \<Longrightarrow> a \<le> p + length cs \<Longrightarrow> m' a = m a) \<Longrightarrow> cstr_at m' p cs"
proof (induction cs arbitrary: p)
  case (Cons c cs)
  have "cstr_at m' (p + 1) cs" by (rule Cons.IH) (use Cons.prems in auto)
  with Cons.prems show ?case by simp
qed simp

lemma cstr_atI:
  "\<lbrakk>\<And>i. i < length cs \<Longrightarrow> m (p + i) = cs ! i; m (p + length cs) = 0; 0 \<notin> set cs\<rbrakk> \<Longrightarrow> cstr_at m p cs"
proof (induction cs arbitrary: p)
  case (Cons c cs)
  have "cstr_at m (p + 1) cs"
  proof (rule Cons.IH)
    show "m (p + 1 + i) = cs ! i" if "i < length cs" for i
      using Cons.prems(1)[of "Suc i"] that by simp
  qed (use Cons.prems in auto)
  moreover have "m p = c" using Cons.prems(1)[of 0] by simp
  ultimately show ?case using Cons.prems(3) by auto
qed simp

lemma strlen_loop_cstr: "cstr_at m (str + len) cs \<Longrightarrow> strlen_loop m str len = Some (len + length cs)"
proof (induction cs arbitrary: len)
  case Nil
  then show ?case by (subst strlen_loop.simps) simp
next
  case (Cons c cs)
  then show ?case by (subst strlen_loop.simps) simp
qed

lemma strlen_cstr: "cstr_at m p cs \<Longrightarrow> strlen m p = Some (length cs)"
  by (simp add: strlen_def strlen_loop_cstr)

lemma strcmp_cstr: "cstr_at m p cs \<Longrightarrow> cstr_at m q ds \<Longrightarrow> strcmp m p q = Some (cmp_bytes cs ds)"
proof (induction cs ds arbitrary: p q rule: cmp_bytes.induct)
  case 1
  then show ?case by (subst strcmp.simps) simp
next
  case (2 d ds)
  then show ?case by (subst strcmp.simps) auto
next
  case (3 c cs)
  then show ?case by (subst strcmp.simps) auto
next
  case (4 c cs d ds)
  then show ?case by (subst strcmp.simps) auto
qed

lemma strncmp_cstr:
  "cstr_at m p cs \<Longrightarrow> cstr_at m q ds \<Longrightarrow> strncmp m p q n = cmp_bytes (take n cs) (take n ds)"
proof (induction cs ds arbitrary: p q n rule: cmp_bytes.induct)
  case 1
  then show ?case by (cases n) auto
next
  case (2 d ds)
  then show ?case by (cases n) auto
next
  case (3 c cs)
  then show ?case by (cases n) auto
next
  case (4 c cs d ds)
  then show ?case by (cases n) auto
qed

lemma strchr_cstr:
  "cstr_at m p cs \<Longrightarrow> strchr m p c = Some (case find_byte cs c of None \<Rightarrow> 0 | Some i \<Rightarrow> p + i)"
proof (induction cs arbitrary: p)
  case Nil
  then show ?case by (subst strchr.simps) simp
next
  case (Cons d cs)
  then show ?case by (subst strchr.simps) (auto split: option.splits)
qed

lemma find_byte_Some: "find_byte cs b = Some i \<Longrightarrow> i < length cs \<and> cs ! i = b \<and> b \<notin> set (take i cs)"
proof (induction cs arbitrary: i)
  case (Cons c cs)
  then show ?case by (cases i) (auto split: if_splits)
qed simp

lemma find_byte_None: "find_byte cs b = None \<longleftrightarrow> b \<notin> set cs"
  by (induction cs) auto

lemma strrchr_loop_cstr:
  "cstr_at m p cs \<Longrightarrow> strrchr_loop m p c l =
     Some (case find_byte (rev cs) c of None \<Rightarrow> l | Some i \<Rightarrow> p + (length cs - 1 - i))"
proof (induction cs arbitrary: p l)
  case Nil
  then show ?case by (subst strrchr_loop.simps) simp
next
  case (Cons d cs)
  have app: "find_byte (xs @ [y]) c =
      (case find_byte xs c of Some i \<Rightarrow> Some i | None \<Rightarrow> if y = c then Some (length xs) else None)" for xs y
    by (induction xs) (auto split: option.splits)
  have "i < length cs" if "find_byte (rev cs) c = Some i" for i
    using find_byte_Some[OF that] by simp
  then show ?case using Cons
    by (subst strrchr_loop.simps) (auto simp: app split: option.splits)
qed

text \<open>\<^verbatim>\<open>strcpy\<close> runs upwards, so the destination may also lie below the source and overlap it.\<close>

lemma strcpy_cstr:
  "\<lbrakk>cstr_at m s cs; d \<le> s \<or> s + length cs < d\<rbrakk> \<Longrightarrow>
   strcpy m d s = Some (\<lambda>a. if d \<le> a \<and> a \<le> d + length cs then (cs @ [0]) ! (a - d) else m a)"
proof (induction cs arbitrary: m d s)
  case Nil
  then show ?case by (subst strcpy.simps) (auto simp: Let_def fun_eq_iff)
next
  case (Cons c cs)
  let ?m = "m(d := c)"
  have "cstr_at ?m (s + 1) cs"
    by (rule cstr_at_cong[of m]) (use Cons.prems in auto)
  moreover have "d + 1 \<le> s + 1 \<or> s + 1 + length cs < d + 1" using Cons.prems(2) by auto
  ultimately have IH: "strcpy ?m (d + 1) (s + 1) = Some (\<lambda>a. if d + 1 \<le> a \<and> a \<le> d + 1 + length cs
      then (cs @ [0]) ! (a - (d + 1)) else ?m a)" by (rule Cons.IH)
  have "m s = c" "c \<noteq> 0" using Cons.prems(1) by auto
  then show ?case
    using IH by (subst strcpy.simps) (auto simp: Let_def fun_eq_iff nth_Cons')
qed

lemma strstr_match_cstr:
  "cstr_at m p cs \<Longrightarrow> cstr_at m q ds \<Longrightarrow>
   \<exists>i. strstr_match m p q = Some (q + i) \<and> i \<le> length ds \<and> (i = length ds \<longleftrightarrow> take (length ds) cs = ds)"
proof (induction cs ds arbitrary: p q rule: cmp_bytes.induct)
  case 1
  then show ?case by (subst strstr_match.simps) simp
next
  case (2 d ds)
  then show ?case by (subst strstr_match.simps) auto
next
  case (3 c cs)
  then show ?case by (subst strstr_match.simps) auto
next
  case (4 c cs d ds)
  show ?case
  proof (cases "c = d")
    case True
    then obtain i where "strstr_match m (p + 1) (q + 1) = Some (q + 1 + i)" "i \<le> length ds"
      "i = length ds \<longleftrightarrow> take (length ds) cs = ds" using 4 by fastforce
    then show ?thesis using 4 True by (subst strstr_match.simps) (auto intro!: exI[of _ "Suc i"])
  next
    case False
    then show ?thesis using 4 by (subst strstr_match.simps) auto
  qed
qed

lemma strstr_loop_cstr:
  assumes "cstr_at m q ds" "ds \<noteq> []"
  shows "cstr_at m p cs \<Longrightarrow>
    strstr_loop m p q = Some (case find_sub cs ds of None \<Rightarrow> 0 | Some i \<Rightarrow> p + i)"
proof (induction cs arbitrary: p)
  case Nil
  then show ?case using assms by (subst strstr_loop.simps) simp
next
  case (Cons c cs)
  obtain i where i: "strstr_match m p q = Some (q + i)" "i \<le> length ds"
    "i = length ds \<longleftrightarrow> take (length ds) (c # cs) = ds"
    using strstr_match_cstr[OF Cons.prems assms(1)] by blast
  have z: "m (q + i) = 0 \<longleftrightarrow> i = length ds"
    using cstr_at_nth[OF assms(1), of i] cstr_at_end[OF assms(1)] cstr_at_nonzero[OF assms(1)] i(2)
    by (metis le_neq_implies_less nth_mem)
  show ?case
    using Cons.prems Cons.IH[of "p + 1"] i z
    by (subst strstr_loop.simps) (auto split: option.splits)
qed

lemma find_sub_Some:
  "find_sub cs ds = Some i \<Longrightarrow>
     i \<le> length cs \<and> take (length ds) (drop i cs) = ds \<and> (\<forall>j<i. take (length ds) (drop j cs) \<noteq> ds)"
proof (induction cs arbitrary: i)
  case (Cons c cs)
  show ?case
  proof (cases "take (length ds) (c # cs) = ds")
    case False
    then obtain k where k: "find_sub cs ds = Some k" "i = Suc k" using Cons.prems by auto
    have "take (length ds) (drop j (c # cs)) \<noteq> ds" if "j < Suc k" for j
      using that False Cons.IH[OF k(1)] by (cases j) auto
    then show ?thesis using Cons.IH[OF k(1)] k(2) by auto
  qed (use Cons.prems in auto)
qed (auto split: if_splits)

lemma find_sub_None: "find_sub cs ds = None \<Longrightarrow> take (length ds) (drop j cs) \<noteq> ds"
proof (induction cs arbitrary: j)
  case (Cons c cs)
  then show ?case by (cases j) (auto split: if_splits)
qed (auto split: if_splits)

section \<open>Memory blocks are handled byte by byte\<close>

lemma and_7_mod [simp]: "(n::nat) AND 7 = n mod 8"
  using take_bit_eq_mask[of 3 n] by (simp add: mask_eq_exp_minus_1 take_bit_eq_mod)

lemma unat_ucast_u8_u64 [simp]: "unat (ucast (b :: u8) :: u64) = unat b"
  using unat_u8_less[of b] by (simp add: unsigned_ucast_eq take_bit_nat_eq_self_iff del: unat_u8_less)

lemma pattern_split:
  "(x::nat) < 256 \<Longrightarrow> 255 * r < k \<Longrightarrow> ((1 + 256 * q) * k + r) * x div k mod 256 = x"
proof -
  assume x: "x < 256" and r: "255 * r < k"
  have "r * x \<le> r * 255" using x by (intro mult_le_mono2) simp
  with r have "r * x < k" by (metis le_less_trans mult.commute)
  then have "r * x div k = 0" by simp
  moreover have "((1 + 256 * q) * k + r) * x = r * x + k * (x + 256 * (q * x))" by (simp add: algebra_simps)
  moreover have "(x + 256 * (q * x)) mod 256 = x" using x by simp
  ultimately show ?thesis using r by simp
qed

lemma pattern_nat: "x < 256 \<Longrightarrow> i < 8 \<Longrightarrow> 0x0101010101010101 * x div 2 ^ (8 * i) mod 256 = (x::nat)"
proof -
  assume x: "x < 256" and "i < 8"
  then consider "i = 0" | "i = 1" | "i = 2" | "i = 3" | "i = 4" | "i = 5" | "i = 6" | "i = 7" by linarith
  then show ?thesis
  proof cases
    case 1
    then show ?thesis using pattern_split[OF x, of "0" "1" "0x01010101010101"] by simp
  next
    case 2
    then show ?thesis using pattern_split[OF x, of "1" "2 ^ 8" "0x010101010101"] by simp
  next
    case 3
    then show ?thesis using pattern_split[OF x, of "0x0101" "2 ^ 16" "0x0101010101"] by simp
  next
    case 4
    then show ?thesis using pattern_split[OF x, of "0x010101" "2 ^ 24" "0x01010101"] by simp
  next
    case 5
    then show ?thesis using pattern_split[OF x, of "0x01010101" "2 ^ 32" "0x010101"] by simp
  next
    case 6
    then show ?thesis using pattern_split[OF x, of "0x0101010101" "2 ^ 40" "0x0101"] by simp
  next
    case 7
    then show ?thesis using pattern_split[OF x, of "0x010101010101" "2 ^ 48" "1"] by simp
  next
    case 8
    then show ?thesis using pattern_split[OF x, of "0x01010101010101" "2 ^ 56" "0"] by simp
  qed
qed

lemma pattern_byte: "i < 8 \<Longrightarrow> (ucast (drop_bit (8 * i) (0x0101010101010101 * ucast c :: u64)) :: u8) = c"
proof -
  assume "i < 8"
  moreover have "unat (0x0101010101010101 * ucast c :: u64) = 0x0101010101010101 * unat c"
    using unat_u8_less[of c] by (simp add: unat_word_ariths del: unat_u8_less)
  ultimately have "unat (ucast (drop_bit (8 * i) (0x0101010101010101 * ucast c :: u64)) :: u8) = unat c"
    using pattern_nat[of "unat c" i]
    by (simp add: unsigned_ucast_eq unsigned_drop_bit_eq take_bit_eq_mod nat_drop_bit)
  then show ?thesis by (rule unsigned_word_eqI)
qed

text \<open>The reference: all bytes are read before any is written.\<close>

definition copied :: "memory \<Rightarrow> nat \<Rightarrow> nat \<Rightarrow> nat \<Rightarrow> memory" where
  "copied m d s n = (\<lambda>a. if d \<le> a \<and> a < d + n then m (s + (a - d)) else m a)"

lemma memset_append: "memset (p + j) c k (memset p c j m) = memset p c (j + k) m"
  by (auto simp: memset_def fun_eq_iff)

lemma memset_one: "m(p := c) = memset p c 1 m"
  by (auto simp: memset_def fun_eq_iff)

lemma rep_stosb_memset: "rep_stosb m p v n = memset p (ucast v) n m"
proof (induction n arbitrary: m p)
  case 0
  then show ?case by (auto simp: memset_def fun_eq_iff)
next
  case (Suc n)
  then show ?case
    using memset_append[of p 1 "ucast v" n m] by (simp del: fun_upd_apply add: memset_one)
qed

lemma rep_stosq_memset: "rep_stosq m p (0x0101010101010101 * ucast c) q = memset p c (8 * q) m"
proof (induction q arbitrary: m p)
  case 0
  then show ?case by (auto simp: memset_def fun_eq_iff)
next
  case (Suc q)
  have "(\<lambda>a. if p \<le> a \<and> a < p + 8 then ucast (drop_bit (8 * (a - p)) (0x0101010101010101 * ucast c :: u64))
      else m a) = memset p c 8 m"
    by (auto simp: memset_def fun_eq_iff pattern_byte)
  then show ?case using memset_append[of p 8 c "8 * q" m] Suc by simp
qed

lemma copied_append:
  "d \<le> s \<or> s + (j + k) \<le> d \<Longrightarrow> copied (copied m d s j) (d + j) (s + j) k = copied m d s (j + k)"
  by (auto simp: copied_def fun_eq_iff)

lemma copied_one: "m(d := m s) = copied m d s 1"
  by (auto simp: copied_def fun_eq_iff)

lemma rep_movsb_copied: "d \<le> s \<or> s + n \<le> d \<Longrightarrow> rep_movsb m d s n = copied m d s n"
proof (induction n arbitrary: m d s)
  case 0
  then show ?case by (auto simp: copied_def fun_eq_iff)
next
  case (Suc n)
  then have "rep_movsb (copied m d s 1) (d + 1) (s + 1) n = copied (copied m d s 1) (d + 1) (s + 1) n"
    by (intro Suc.IH) auto
  then show ?case using copied_append[of d s 1 n m] Suc.prems
    by (simp del: fun_upd_apply add: copied_one)
qed

lemma rep_movsq_copied: "d \<le> s \<or> s + 8 * q \<le> d \<Longrightarrow> rep_movsq m d s q = copied m d s (8 * q)"
proof (induction q arbitrary: m d s)
  case 0
  then show ?case by (auto simp: copied_def fun_eq_iff)
next
  case (Suc q)
  then have "rep_movsq (copied m d s 8) (d + 8) (s + 8) q = copied (copied m d s 8) (d + 8) (s + 8) (8 * q)"
    by (intro Suc.IH) auto
  then show ?case using copied_append[of d s 8 "8 * q" m] Suc.prems by (simp add: copied_def)
qed

lemma memmove_up_rep: "memmove_up m d s n = rep_movsb m d s n"
  by (induction n arbitrary: m d s) (simp_all del: fun_upd_apply)

lemma memmove_down_copied: "s \<le> d \<Longrightarrow> memmove_down m d s n = copied m d s n"
proof (induction n arbitrary: m)
  case (Suc n)
  then show ?case by (auto simp: copied_def fun_eq_iff)
qed (auto simp: copied_def fun_eq_iff)

lemma memset_rep_eq: "memset_rep m s c n = memset s c n m"
proof -
  have "ucast (0x0101010101010101 * ucast c :: u64) = c" using pattern_byte[of 0 c] by simp
  then show ?thesis
    using memset_append[of s "8 * (n div 8)" c "n mod 8" m]
    by (simp add: memset_rep_def Let_def rep_stosq_memset rep_stosb_memset)
qed

lemma memcpy_rep_eq: "d \<le> s \<or> s + n \<le> d \<Longrightarrow> memcpy_rep m d s n = copied m d s n"
proof -
  let ?j = "8 * (n div 8)" and ?k = "n mod 8"
  assume a: "d \<le> s \<or> s + n \<le> d"
  have n: "?j + ?k = n" by simp
  have "rep_movsq m d s (n div 8) = copied m d s ?j" by (rule rep_movsq_copied) (use a n in linarith)
  moreover have "rep_movsb m' (d + ?j) (s + ?j) ?k = copied m' (d + ?j) (s + ?j) ?k" for m'
    by (rule rep_movsb_copied) (use a n in linarith)
  moreover have "copied (copied m d s ?j) (d + ?j) (s + ?j) ?k = copied m d s (?j + ?k)"
    by (rule copied_append) (use a n in linarith)
  ultimately show ?thesis by (simp add: memcpy_rep_def Let_def)
qed

lemma memmove_eq: "memmove m d s n = copied m d s n"
  by (simp add: memmove_def memmove_up_rep rep_movsb_copied memmove_down_copied)

lemma memcmp_prefix:
  "memcmp m p q n = 0 \<longleftrightarrow> (\<forall>i<n. m (p + i) = m (q + i))"
proof (induction n arbitrary: p q)
  case (Suc n)
  show ?case using Suc[of "p + 1" "q + 1"] by (auto simp: less_Suc_eq_0_disj)
qed simp

section \<open>Numbers and their digits\<close>

text \<open>The value of a digit string, and its digits from the lowest.\<close>

fun low_digits :: "nat \<Rightarrow> nat list" where
  "low_digits v = (if v = 0 then [] else v mod 10 # low_digits (v div 10))"

declare low_digits.simps [simp del]

lemma low_digits_0 [simp]: "low_digits 0 = []"
  by (simp add: low_digits.simps)

lemma uint_loop_digits: "uint_loop v tmp = tmp @ map (\<lambda>d. of_nat (48 + d)) (low_digits v)"
proof (induction v tmp rule: uint_loop.induct)
  case (1 v tmp)
  then show ?case by (subst uint_loop.simps, subst low_digits.simps) auto
qed

lemma low_digits_less: "d \<in> set (low_digits v) \<Longrightarrow> d < 10"
proof (induction v rule: low_digits.induct)
  case (1 v)
  then show ?case by (subst (asm) (2) low_digits.simps) (auto split: if_splits)
qed

lemma low_digits_length: "0 < k \<Longrightarrow> v < 10 ^ k \<Longrightarrow> length (low_digits v) \<le> k"
proof (induction v arbitrary: k rule: low_digits.induct)
  case (1 v)
  show ?case
  proof (cases "v = 0")
    case False
    obtain j where k: "k = Suc j" using 1(2) by (cases k) auto
    show ?thesis
    proof (cases "j = 0")
      case True
      then have "v div 10 = 0" using 1(3) k by auto
      then have "low_digits v = [v mod 10]" using False by (subst low_digits.simps) simp
      then show ?thesis using k by simp
    next
      case j: False
      have "v div 10 < 10 ^ j" using 1(3) k by (simp add: less_mult_imp_div_less mult.commute)
      then have "length (low_digits (v div 10)) \<le> j" using 1(1)[OF False] j by simp
      then show ?thesis using k False by (subst low_digits.simps) simp
    qed
  qed simp
qed

lemma uint_to_str_digits:
  "uint_to_str v = (if v = 0 then [48] else map (\<lambda>d. of_nat (48 + d)) (rev (low_digits v)))"
  by (simp add: uint_to_str_def uint_loop_digits rev_map)

lemma digit_byte: "d < 10 \<Longrightarrow> is_digit (of_nat (48 + d)) \<and> unat (of_nat (48 + d) :: u8) = 48 + d"
  by (simp add: is_digit_def word_le_nat_alt unat_of_nat_u8 del: of_nat_add)

lemma uint_to_str_is_digit: "c \<in> set (uint_to_str v) \<Longrightarrow> is_digit c"
  using low_digits_less digit_byte
  by (auto simp: uint_to_str_digits is_digit_def[of 48] simp del: of_nat_add split: if_splits)

lemma uint_to_str_ne [simp]: "uint_to_str v \<noteq> []"
  by (subst uint_to_str_digits, subst low_digits.simps) simp

lemma uint_to_str_length: "v < 2 ^ 64 \<Longrightarrow> length (uint_to_str v) \<le> 20"
  using low_digits_length[of 20 v] by (auto simp: uint_to_str_digits)

lemma s64_id: "- (2 ^ 63) \<le> x \<Longrightarrow> x < 2 ^ 63 \<Longrightarrow> s64 x = x"
  by (simp add: s64_def)

lemma digits_value_append:
  assumes "\<And>c. c \<in> set xs \<Longrightarrow> is_digit c"
  shows "digits_value r (xs @ ys) = digits_value (digits_value r xs) ys"
  using assms by (induction xs arbitrary: r) auto

lemma digits_value_low:
  "int v < 2 ^ 63 \<Longrightarrow> digits_value 0 (map (\<lambda>d. of_nat (48 + d)) (rev (low_digits v))) = int v"
proof (induction v rule: low_digits.induct)
  case (1 v)
  show ?case
  proof (cases "v = 0")
    case False
    let ?c = "of_nat (48 + v mod 10) :: u8"
    have c: "is_digit ?c" "unat ?c = 48 + v mod 10" using digit_byte[of "v mod 10"] by auto
    let ?xs = "map (\<lambda>d. of_nat (48 + d)) (rev (low_digits (v div 10))) :: bytes"
    have IH: "digits_value 0 ?xs = int (v div 10)" using 1 False by linarith
    have L: "low_digits v = v mod 10 # low_digits (v div 10)"
      using False by (subst low_digits.simps) simp
    have D: "is_digit x" if "x \<in> set ?xs" for x
      using that low_digits_less digit_byte by (auto simp del: of_nat_add)
    have "digits_value 0 (map (\<lambda>d. of_nat (48 + d)) (rev (low_digits v))) = digits_value 0 (?xs @ [?c])"
      unfolding L by simp
    also have "\<dots> = digits_value (digits_value 0 ?xs) [?c]"
      by (rule digits_value_append) (rule D)
    also have "\<dots> = s64 (int (v div 10) * 10 + int (v mod 10))"
      unfolding IH using c by simp
    also have "\<dots> = s64 (int v)"
      by (metis add.commute mod_mult_div_eq mult.commute of_nat_add of_nat_mult of_nat_numeral)
    finally show ?thesis using 1(2) by (simp add: s64_id)
  qed simp
qed

lemma digits_value_uint: "int v < 2 ^ 63 \<Longrightarrow> digits_value 0 (uint_to_str v) = int v"
  using digits_value_low[of v] by (auto simp: uint_to_str_digits is_digit_def s64_id)

lemma skip_spaces_digit: "is_digit c \<Longrightarrow> skip_spaces (c # cs) = c # cs"
  by (auto simp: is_digit_def is_space_def)

section \<open>Tokens of a string\<close>

lemma strchr_hit:
  assumes "cstr_at m d ds" "d \<noteq> 0"
  shows "\<exists>r. strchr m d c = Some r \<and> (r \<noteq> 0 \<longleftrightarrow> c \<in> set ds)"
  using strchr_cstr[OF assms(1), of c] assms(2) find_byte_None[of ds c] by (auto split: option.splits)

lemma strtok_skip_cstr:
  assumes "cstr_at m d ds" "d \<noteq> 0"
  shows "cstr_at m p cs \<Longrightarrow> strtok_skip m p d = Some (p + length (takeWhile (\<lambda>c. c \<in> set ds) cs))"
proof (induction cs arbitrary: p)
  case Nil
  then show ?case by (subst strtok_skip.simps) simp
next
  case (Cons c cs)
  obtain r where "strchr m d c = Some r" "r \<noteq> 0 \<longleftrightarrow> c \<in> set ds" using strchr_hit[OF assms] by blast
  then show ?case using Cons by (subst strtok_skip.simps) auto
qed

lemma strtok_span_cstr:
  assumes "cstr_at m d ds" "d \<noteq> 0"
  shows "cstr_at m p cs \<Longrightarrow> strtok_span m p d = Some (p + length (takeWhile (\<lambda>c. c \<notin> set ds) cs))"
proof (induction cs arbitrary: p)
  case Nil
  then show ?case by (subst strtok_span.simps) simp
next
  case (Cons c cs)
  obtain r where "strchr m d c = Some r" "r \<noteq> 0 \<longleftrightarrow> c \<in> set ds" using strchr_hit[OF assms] by blast
  then show ?case using Cons by (subst strtok_span.simps) auto
qed

lemma cstr_at_cut:
  assumes "cstr_at m p (xs @ ys)"
  shows "cstr_at (m(p + length xs := 0)) p xs"
proof (rule cstr_atI)
  fix i assume "i < length xs"
  then show "(m(p + length xs := 0)) (p + i) = xs ! i" using cstr_at_nth[OF assms, of i] by (simp add: nth_append)
qed (use cstr_at_nonzero[OF assms] in auto)

lemma cstr_at_suffix: "cstr_at m p (xs @ ys) \<Longrightarrow> cstr_at m (p + length xs) ys"
  using cstr_at_drop[of m p "xs @ ys" "length xs"] by simp

section \<open>Properties\<close>

text \<open>
  C24. The block operations written with \<^verbatim>\<open>rep stosq\<close>, \<^verbatim>\<open>rep movsq\<close> and their byte tails compute what
  the byte-wise reference does: \<^verbatim>\<open>memset\<close> for every size and fill byte, \<^verbatim>\<open>memmove\<close> for every overlap of
  the two ranges, and \<^verbatim>\<open>memcpy\<close> whenever the ranges are apart or the destination lies below.
\<close>

theorem block_ops_equiv:
  "memset_rep m p c n = memset p c n m \<and>
   memmove m d s n = copied m d s n \<and>
   (d \<le> s \<or> s + n \<le> d \<longrightarrow> memcpy_rep m d s n = copied m d s n)"
  by (simp add: memset_rep_eq memmove_eq memcpy_rep_eq)

theorem block_ops_equiv_witness:
  "memcpy_rep (\<lambda>a. of_nat a) 100 3 21 117 = 20 \<and> memmove (\<lambda>a. of_nat a) 5 3 20 24 = 22"
  using block_ops_equiv[of "\<lambda>a. of_nat a" 0 0 21 100 3] block_ops_equiv[of "\<lambda>a. of_nat a" 0 0 20 5 3]
  by (simp add: copied_def)

text \<open>
  \<^verbatim>\<open>strcat\<close> on two stored strings returns, leaves their concatenation at the destination and changes
  no byte outside the cells of the appended part, if the source lies apart from those cells;
  \<^verbatim>\<open>strlen\<close> and \<^verbatim>\<open>strcmp\<close> then agree with the list operations.
\<close>

theorem strcat_concatenates:
  assumes "cstr_at m d xs" "cstr_at m s ys"
    and "d + length xs + length ys < s \<or> s + length ys < d + length xs"
  shows "\<exists>m'. strcat m d s = Some m' \<and> cstr_at m' d (xs @ ys) \<and>
    (\<forall>a. a < d + length xs \<or> d + length xs + length ys < a \<longrightarrow> m' a = m a) \<and>
    strlen m' d = Some (length xs + length ys) \<and>
    (\<forall>q zs. cstr_at m' q zs \<longrightarrow> strcmp m' d q = Some (cmp_bytes (xs @ ys) zs) \<and>
      (strcmp m' d q = Some 0 \<longleftrightarrow> xs @ ys = zs))"
proof -
  let ?e = "d + length xs"
  define m' where "m' = (\<lambda>a. if ?e \<le> a \<and> a \<le> ?e + length ys then (ys @ [0]) ! (a - ?e) else m a)"
  have sc: "strcat m d s = Some m'"
    using strcpy_cstr[OF assms(2), of ?e] assms(3)
    by (auto simp: strcat_def strlen_cstr[OF assms(1)] m'_def)
  have c: "cstr_at m' d (xs @ ys)"
  proof (rule cstr_atI)
    fix i assume "i < length (xs @ ys)"
    then show "m' (d + i) = (xs @ ys) ! i"
      using cstr_at_nth[OF assms(1), of i] by (auto simp: nth_append m'_def)
  qed (use cstr_at_nonzero[OF assms(1)] cstr_at_nonzero[OF assms(2)] in \<open>auto simp: nth_append m'_def\<close>)
  have "strcmp m' d q = Some (cmp_bytes (xs @ ys) zs) \<and> (strcmp m' d q = Some 0 \<longleftrightarrow> xs @ ys = zs)"
    if "cstr_at m' q zs" for q zs
    using strcmp_cstr[OF c that] cmp_bytes_eq[OF cstr_at_nonzero[OF c] cstr_at_nonzero[OF that]] by simp
  moreover have "strlen m' d = Some (length xs + length ys)" using strlen_cstr[OF c] by simp
  moreover have "\<forall>a. a < ?e \<or> ?e + length ys < a \<longrightarrow> m' a = m a" by (auto simp: m'_def)
  ultimately show ?thesis using sc c by (intro exI[of _ m']) blast
qed

definition str_demo_memory :: memory where
  "str_demo_memory = (\<lambda>a. if a = 10 then 97 else if a = 11 then 98 else if a = 20 then 99 else 0)"

theorem strcat_concatenates_witness:
  "\<exists>m'. strcat str_demo_memory 10 20 = Some m' \<and> cstr_at m' 10 [97, 98, 99] \<and> strlen m' 10 = Some 3"
  using strcat_concatenates[of str_demo_memory 10 "[97, 98]" 20 "[99]"]
  by (auto simp: str_demo_memory_def)

text \<open>
  \<^verbatim>\<open>strstr\<close> returns on every pair of stored strings: NULL when the needle does not occur, and otherwise
  the address of its first occurrence.
\<close>

theorem strstr_first_occurrence:
  assumes "cstr_at m h cs" "cstr_at m n ds" "h \<noteq> 0"
  shows "\<exists>r. strstr m h n = Some r \<and>
    (r = 0 \<longleftrightarrow> (\<forall>j. take (length ds) (drop j cs) \<noteq> ds)) \<and>
    (r \<noteq> 0 \<longrightarrow> h \<le> r \<and> take (length ds) (drop (r - h) cs) = ds \<and>
      (\<forall>j<r - h. take (length ds) (drop j cs) \<noteq> ds))"
proof (cases "ds = []")
  case True
  then show ?thesis using assms by (simp add: strstr_def)
next
  case False
  then have "m n \<noteq> 0" using assms(2) by (cases ds) auto
  then have "strstr m h n = Some (case find_sub cs ds of None \<Rightarrow> 0 | Some i \<Rightarrow> h + i)"
    using strstr_loop_cstr[OF assms(2) False assms(1)] by (simp add: strstr_def)
  then show ?thesis
    using find_sub_None[of cs ds] find_sub_Some[of cs ds] assms(3) by (cases "find_sub cs ds") auto
qed

theorem strstr_first_occurrence_witness:
  "\<exists>r. strstr str_demo_memory 10 11 = Some r \<and> (r = 0 \<longleftrightarrow> (\<forall>j. take 1 (drop j [97, 98]) \<noteq> [98 :: u8]))"
  using strstr_first_occurrence[of str_demo_memory 10 "[97, 98]" 11 "[98]"]
  by (auto simp: str_demo_memory_def)

text \<open>
  \<^verbatim>\<open>strtok\<close> returns on every stored string and delimiter set. It gives NULL when only delimiters
  remain; otherwise the token is the longest run without a delimiter after the leading delimiters, it is
  terminated in place, and the saved position is where the rest of the string starts.
\<close>

theorem strtok_token:
  assumes "cstr_at m p cs" "cstr_at m d ds" "p \<noteq> 0" "d \<noteq> 0"
    and "skip = takeWhile (\<lambda>c. c \<in> set ds) cs"
    and "tok = takeWhile (\<lambda>c. c \<notin> set ds) (drop (length skip) cs)"
    and "rest = drop (length skip + length tok + 1) cs"
  shows "if tok = [] then \<exists>nxt. strtok m old p d = Some (0, m, nxt) \<and> m nxt = 0
    else \<exists>m' nxt. strtok m old p d = Some (p + length skip, m', nxt) \<and>
      cstr_at m' (p + length skip) tok \<and> cstr_at m' nxt rest \<and>
      (\<forall>a. a \<noteq> p + length skip + length tok \<longrightarrow> m' a = m a)"
proof -
  let ?q = "p + length skip" and ?tl = "drop (length skip + length tok) cs"
  have cs: "cs = skip @ drop (length skip) cs" "drop (length skip) cs = tok @ ?tl"
    using assms(5,6) by (metis takeWhile_dropWhile_id dropWhile_eq_drop, metis append_take_drop_id
        drop_drop add.commute takeWhile_eq_take)
  have q: "cstr_at m ?q (tok @ ?tl)" using cstr_at_suffix[of m p skip] assms(1) cs by metis
  have sk: "strtok_skip m p d = Some ?q" using strtok_skip_cstr[OF assms(2,4,1)] assms(5) by simp
  have "takeWhile (\<lambda>c. c \<notin> set ds) (tok @ ?tl) = tok" unfolding cs(2)[symmetric] by (rule assms(6)[symmetric])
  then have sp: "strtok_span m ?q d = Some (?q + length tok)"
    using strtok_span_cstr[OF assms(2,4) q] by (simp only:)
  have e: "cstr_at m (?q + length tok) ?tl" using cstr_at_suffix[OF q] .
  show ?thesis
  proof (cases "tok = []")
    case True
    have "?tl = []"
    proof (rule ccontr)
      assume "?tl \<noteq> []"
      then obtain x xs where x: "drop (length skip) cs = x # xs" using True by (cases "drop (length skip) cs") auto
      then have "x \<notin> set ds" using assms(5) by (metis dropWhile_eq_Cons_conv dropWhile_eq_drop)
      then show False using True assms(6) unfolding x by simp
    qed
    then have "m ?q = 0" using q True by simp
    then show ?thesis using True sk assms(3) by (auto simp: strtok_def Let_def)
  next
    case False
    then have ne: "m ?q \<noteq> 0" using q by (cases tok) auto
    have p: "m p \<noteq> 0"
    proof (cases cs)
      case Nil
      then show ?thesis using False assms(6) by simp
    qed (use assms(1) in auto)
    show ?thesis
    proof (cases ?tl)
      case Nil
      have "rest = drop 1 ?tl" using assms(7) by (simp add: add.commute)
      then have r: "rest = []" using Nil by simp
      have z: "m (?q + length tok) = 0" using e unfolding Nil by simp
      have "strtok m old p d = Some (?q, m, ?q + length tok)"
        using False p ne sk sp z assms(3) by (simp add: strtok_def Let_def)
      then show ?thesis using False q z r unfolding Nil by simp
    next
      case (Cons x xs)
      let ?m = "m(?q + length tok := 0)"
      have "rest = drop 1 ?tl" using assms(7) by (simp add: add.commute)
      then have xs: "rest = xs" using Cons by simp
      have "cstr_at ?m (?q + length tok + 1) xs"
        by (rule cstr_at_cong[of m]) (use e[unfolded Cons] in auto)
      moreover have "cstr_at ?m ?q tok" using cstr_at_cut[OF q] .
      moreover have "strtok m old p d = Some (?q, ?m, ?q + length tok + 1)"
        using False p ne sk sp e[unfolded Cons] assms(3) by (simp add: strtok_def Let_def)
      ultimately show ?thesis using False unfolding xs by auto
    qed
  qed
qed

theorem strtok_token_witness:
  "\<exists>m' nxt. strtok str_demo_memory 0 10 11 = Some (10, m', nxt) \<and> cstr_at m' 10 [97]"
  using strtok_token[of str_demo_memory 10 "[97, 98]" 11 "[98]" "[]" "[97]" "[]" 0]
  by (auto simp: str_demo_memory_def)

text \<open>
  C29. Decimal round trip: reading back the text that \<^verbatim>\<open>int_to_str\<close> prints gives the number, for every
  64-bit integer except the most negative one, and the text has at most 20 characters, so that it fits
  the scratch buffers of the callers.
\<close>

theorem int_str_roundtrip:
  assumes "- (2 ^ 63) < v" "v < 2 ^ 63"
  shows "int_from_cstr (Some (int_to_str v)) = v \<and> length (int_to_str v) \<le> 20"
proof -
  define u where "u = (if v < 0 then nat ((- v) mod 2 ^ 64) else nat v)"
  have u: "int u = \<bar>v\<bar>" "int u < 2 ^ 63" using assms by (auto simp: u_def)
  obtain c cs where s: "uint_to_str u = c # cs" by (cases "uint_to_str u") auto
  have c: "is_digit c" using uint_to_str_is_digit[of c u] s by simp
  then have c': "c \<noteq> 45" "c \<noteq> 43" by (auto simp: is_digit_def)
  have val: "digits_value 0 (c # cs) = \<bar>v\<bar>" using digits_value_uint[of u] u s by simp
  have "length (uint_to_str u) \<le> 19" using low_digits_length[of 19 u] u(2) by (auto simp: uint_to_str_digits)
  moreover have "s64 (- \<bar>v\<bar>) = - \<bar>v\<bar>" using assms by (intro s64_id) auto
  moreover have "int_to_str v = (if v < 0 then 45 # uint_to_str u else uint_to_str u)"
    by (simp add: int_to_str_def u_def)
  ultimately show ?thesis
    using val c c' s skip_spaces_digit[OF c, of cs]
    by (auto simp: int_from_cstr_def is_space_def simp del: digits_value.simps)
qed

theorem int_str_roundtrip_witness:
  "int_from_cstr (Some (int_to_str (-9007))) = -9007 \<and> length (int_to_str (-9007)) \<le> 20"
  using int_str_roundtrip[of "-9007"] by simp

end
