(* ===== verification/String_T.thy ===== *)
theory String_T
  imports CString
begin

text \<open>
  The managed string \<^verbatim>\<open>string_t\<close> and the formatter \<^verbatim>\<open>snprintf\<close> of \<^verbatim>\<open>src/impl/string.c\<close>. The 256-byte array
  of a \<^verbatim>\<open>string_t\<close> is a byte list; C string arguments are the lists of their characters, \<^const>\<open>None\<close> for NULL.
  Comparison and search call the memory functions of the previous theory on the two arrays laid out one
  after the other. Variadic arguments are a list; a conversion whose argument is missing or of another
  kind, and a format whose last conversion has no letter, read outside what the caller passed and give
  \<^const>\<open>None\<close>.
\<close>

section \<open>Managed strings\<close>

definition STRING_MAX_LENGTH :: nat where
  "STRING_MAX_LENGTH = 256"

record string_t =
  str_data :: bytes
  str_length :: nat
  str_capacity :: nat

text \<open>The characters before the first terminator of an array.\<close>

definition c_chars :: "bytes \<Rightarrow> bytes" where
  "c_chars xs = takeWhile (\<lambda>c. c \<noteq> 0) xs"

text \<open>Two arrays in memory, the first at address \<open>1\<close>, each with a zero byte behind it.\<close>

definition second_at :: "bytes \<Rightarrow> nat" where
  "second_at xs = length xs + 2"

definition two_arrays :: "bytes \<Rightarrow> bytes \<Rightarrow> memory" where
  "two_arrays xs ys =
     (\<lambda>a. if 1 \<le> a \<and> a \<le> length xs then xs ! (a - 1)
          else if second_at xs \<le> a \<and> a < second_at xs + length ys then ys ! (a - second_at xs) else 0)"

definition string_init :: "string_t \<Rightarrow> string_t" where
  "string_init s = s\<lparr>str_data := (str_data s)[0 := 0], str_length := 0, str_capacity := STRING_MAX_LENGTH\<rparr>"

definition string_init_cstr :: "string_t \<Rightarrow> bytes option \<Rightarrow> string_t" where
  "string_init_cstr s cstr =
     (let s = string_init s in
      case cstr of
        None \<Rightarrow> s
      | Some cs \<Rightarrow>
          let len = length cs;
              len = (if len \<ge> STRING_MAX_LENGTH then STRING_MAX_LENGTH - 1 else len)
          in s\<lparr>str_data := (put_bytes (str_data s) 0 (take len cs))[len := 0], str_length := len\<rparr>)"

definition string_clear :: "string_t \<Rightarrow> string_t" where
  "string_clear s = s\<lparr>str_data := (str_data s)[0 := 0], str_length := 0\<rparr>"

definition string_append :: "string_t \<Rightarrow> bytes option \<Rightarrow> string_t" where
  "string_append s cstr =
     (case cstr of
        None \<Rightarrow> s
      | Some cs \<Rightarrow>
          let add_len = length cs;
              available = sub64 (sub64 (str_capacity s) (str_length s)) 1;
              add_len = (if add_len > available then available else add_len);
              n = str_length s + add_len
          in s\<lparr>str_data := (put_bytes (str_data s) (str_length s) (take add_len cs))[n := 0],
               str_length := n\<rparr>)"

definition string_append_char :: "string_t \<Rightarrow> u8 \<Rightarrow> string_t" where
  "string_append_char s c =
     (if str_length s < sub64 (str_capacity s) 1
      then let n = str_length s + 1
           in s\<lparr>str_data := (str_data s)[str_length s := c, n := 0], str_length := n\<rparr>
      else s)"

definition string_append_str :: "string_t \<Rightarrow> string_t \<Rightarrow> string_t" where
  "string_append_str s other = string_append s (Some (c_chars (str_data other)))"

definition string_copy :: "string_t \<Rightarrow> string_t \<Rightarrow> string_t" where
  "string_copy dest src =
     dest\<lparr>str_data := put_bytes (str_data dest) 0 (take (str_length src + 1) (str_data src)),
          str_length := str_length src\<rparr>"

definition string_copy_cstr :: "string_t \<Rightarrow> bytes option \<Rightarrow> string_t" where
  "string_copy_cstr dest cstr = string_append (string_clear dest) cstr"

definition string_compare :: "string_t \<Rightarrow> string_t \<Rightarrow> int option" where
  "string_compare s1 s2 =
     strcmp (two_arrays (str_data s1) (str_data s2)) 1 (second_at (str_data s1))"

definition string_equals :: "string_t \<Rightarrow> string_t \<Rightarrow> bool option" where
  "string_equals s1 s2 =
     map_option (\<lambda>r. r = 0) (strcmp (two_arrays (str_data s1) (str_data s2)) 1 (second_at (str_data s1)))"

definition string_equals_cstr :: "string_t \<Rightarrow> bytes \<Rightarrow> bool option" where
  "string_equals_cstr s cstr =
     map_option (\<lambda>r. r = 0) (strcmp (two_arrays (str_data s) cstr) 1 (second_at (str_data s)))"

definition string_find :: "string_t \<Rightarrow> bytes \<Rightarrow> int option" where
  "string_find s substr =
     map_option (\<lambda>pos. if pos \<noteq> 0 then int pos - 1 else -1)
       (strstr (two_arrays (str_data s) substr) 1 (second_at (str_data s)))"

definition string_find_char :: "string_t \<Rightarrow> u8 \<Rightarrow> int option" where
  "string_find_char s c =
     map_option (\<lambda>pos. if pos \<noteq> 0 then int pos - 1 else -1) (strchr (two_arrays (str_data s) []) 1 c)"

definition string_contains :: "string_t \<Rightarrow> bytes \<Rightarrow> bool option" where
  "string_contains s substr = map_option (\<lambda>r. r \<ge> 0) (string_find s substr)"

definition string_starts_with :: "string_t \<Rightarrow> bytes \<Rightarrow> bool" where
  "string_starts_with s prefix =
     (let prefix_len = length prefix in
      if prefix_len > str_length s then False
      else strncmp (two_arrays (str_data s) prefix) 1 (second_at (str_data s)) prefix_len = 0)"

definition string_ends_with :: "string_t \<Rightarrow> bytes \<Rightarrow> bool option" where
  "string_ends_with s suffix =
     (let suffix_len = length suffix in
      if suffix_len > str_length s then Some False
      else map_option (\<lambda>r. r = 0)
        (strcmp (two_arrays (str_data s) suffix) (1 + str_length s - suffix_len) (second_at (str_data s))))"

definition string_cstr :: "string_t \<Rightarrow> bytes" where
  "string_cstr s = str_data s"

text \<open>A local \<^verbatim>\<open>string_t\<close> on the stack starts with the bytes \<open>junk\<close> that were there.\<close>

definition fresh_string :: "bytes \<Rightarrow> string_t" where
  "fresh_string junk = \<lparr>str_data = junk, str_length = 0, str_capacity = 0\<rparr>"

definition str_from_int :: "bytes \<Rightarrow> int \<Rightarrow> string_t" where
  "str_from_int junk v = string_append (string_init (fresh_string junk)) (Some (int_to_str v))"

definition str_from_uint :: "bytes \<Rightarrow> nat \<Rightarrow> string_t" where
  "str_from_uint junk v = string_append (string_init (fresh_string junk)) (Some (uint_to_str v))"

definition str_from_bool :: "bytes \<Rightarrow> bool \<Rightarrow> string_t" where
  "str_from_bool junk b =
     string_init_cstr (fresh_string junk) (Some (map char_byte (if b then ''true'' else ''false'')))"

definition str_from_char :: "bytes \<Rightarrow> u8 \<Rightarrow> string_t" where
  "str_from_char junk c = string_append_char (string_init (fresh_string junk)) c"

definition str_from_cstr :: "bytes \<Rightarrow> bytes option \<Rightarrow> string_t" where
  "str_from_cstr junk cstr = string_init_cstr (fresh_string junk) cstr"

definition str_from_hex :: "bytes \<Rightarrow> nat \<Rightarrow> string_t" where
  "str_from_hex junk v =
     string_append (string_append (string_init (fresh_string junk)) (Some (map char_byte ''0x'')))
       (Some (hex_to_str v))"

definition int_from_str :: "string_t \<Rightarrow> int" where
  "int_from_str s = int_from_cstr (Some (c_chars (str_data s)))"

definition int_from_bool :: "bool \<Rightarrow> int" where
  "int_from_bool b = (if b then 1 else 0)"

definition int_from_char :: "u8 \<Rightarrow> int" where
  "int_from_char c = sint c"

text \<open>
  The four rotating conversion buffers: the calls write one and return its index. \<^verbatim>\<open>conv_idx\<close> is a signed
  counter that wraps after \<open>2 ^ 31\<close> calls; its remainder is negative then, the index lies before the
  array, and the result is \<^const>\<open>None\<close>.
\<close>

record conv =
  conv_buf :: "bytes list"
  conv_idx :: int

definition s32 :: "int \<Rightarrow> int" where
  "s32 x = (x + 2 ^ 31) mod 2 ^ 32 - 2 ^ 31"

definition conv_put :: "conv \<Rightarrow> bytes \<Rightarrow> (nat \<times> conv) option" where
  "conv_put cv cs =
     (let r = sgn (conv_idx cv) * (\<bar>conv_idx cv\<bar> mod 4); i = nat r
      in if r < 0 then None
         else Some (i, cv\<lparr>conv_buf := (conv_buf cv)[i := put_bytes (conv_buf cv ! i) 0 (cs @ [0])],
                         conv_idx := s32 (conv_idx cv + 1)\<rparr>))"

definition str_int :: "conv \<Rightarrow> int \<Rightarrow> (nat \<times> conv) option" where
  "str_int cv v = conv_put cv (int_to_str v)"

definition str_uint :: "conv \<Rightarrow> nat \<Rightarrow> (nat \<times> conv) option" where
  "str_uint cv v = conv_put cv (uint_to_str v)"

definition str_hex :: "conv \<Rightarrow> nat \<Rightarrow> (nat \<times> conv) option" where
  "str_hex cv v = conv_put cv (hex_to_str v)"

fun int_array_loop :: "string_t \<Rightarrow> int list \<Rightarrow> bool \<Rightarrow> string_t" where
  "int_array_loop s [] later = s"
| "int_array_loop s (v # vs) later =
     (let s = (if later then string_append s (Some [44, 32]) else s)
      in int_array_loop (string_append s (Some (int_to_str v))) vs True)"

definition str_from_int_array :: "string_t \<Rightarrow> int list \<Rightarrow> string_t" where
  "str_from_int_array dest arr =
     string_append (int_array_loop (string_append (string_init dest) (Some [91])) arr False) (Some [93])"

section \<open>Formatted output\<close>

text \<open>The buffer and the write position.\<close>

fun append_to_buffer :: "bytes \<Rightarrow> nat \<Rightarrow> nat \<Rightarrow> bytes \<Rightarrow> bytes \<times> nat" where
  "append_to_buffer buf bufsize pos [] = (buf, pos)"
| "append_to_buffer buf bufsize pos (c # cs) =
     (if pos + 1 < bufsize then append_to_buffer (buf[pos := c]) bufsize (pos + 1) cs else (buf, pos))"

definition append_char_to_buffer :: "bytes \<Rightarrow> nat \<Rightarrow> nat \<Rightarrow> u8 \<Rightarrow> bytes \<times> nat" where
  "append_char_to_buffer buf bufsize pos c =
     (if pos + 1 < bufsize then (buf[pos := c], pos + 1) else (buf, pos))"

fun append_pad :: "bytes \<Rightarrow> nat \<Rightarrow> nat \<Rightarrow> nat \<Rightarrow> u8 \<Rightarrow> bytes \<times> nat" where
  "append_pad buf bufsize pos 0 pad = (buf, pos)"
| "append_pad buf bufsize pos (Suc k) pad =
     (let (buf, pos) = append_char_to_buffer buf bufsize pos pad in append_pad buf bufsize pos k pad)"

definition append_padded_to_buffer :: "bytes \<Rightarrow> nat \<Rightarrow> nat \<Rightarrow> bytes \<Rightarrow> int \<Rightarrow> u8 \<Rightarrow> bytes \<times> nat" where
  "append_padded_to_buffer buf bufsize pos src width pad =
     (let (buf, pos) = append_pad buf bufsize pos (nat (width - int (length src))) pad
      in append_to_buffer buf bufsize pos src)"

datatype va = Str "bytes option" | Val u64

fun arg_str :: "va list \<Rightarrow> (bytes option \<times> va list) option" where
  "arg_str (Str s # args) = Some (s, args)"
| "arg_str args = None"

fun arg_u64 :: "va list \<Rightarrow> (u64 \<times> va list) option" where
  "arg_u64 (Val w # args) = Some (w, args)"
| "arg_u64 args = None"

text \<open>\<^verbatim>\<open>longlong ? va_arg(args, int64_t) : va_arg(args, int)\<close> and its unsigned twin.\<close>

definition signed_arg :: "bool \<Rightarrow> u64 \<Rightarrow> int" where
  "signed_arg longlong w = (if longlong then sint w else sint (ucast w :: u32))"

definition unsigned_arg :: "bool \<Rightarrow> u64 \<Rightarrow> nat" where
  "unsigned_arg longlong w = (if longlong then unat w else unat (ucast w :: u32))"

fun parse_width :: "int \<Rightarrow> bytes \<Rightarrow> int \<times> bytes" where
  "parse_width w [] = (w, [])"
| "parse_width w (c # cs) =
     (if 48 \<le> c \<and> c \<le> 57 then parse_width (s32 (w * 10 + (int (unat c) - 48))) cs else (w, c # cs))"

fun parse_zero :: "bytes \<Rightarrow> bool \<times> bytes" where
  "parse_zero (c # cs) = (if c = 48 then (True, cs) else (False, c # cs))"
| "parse_zero [] = (False, [])"

fun parse_long :: "bytes \<Rightarrow> bool \<times> bytes" where
  "parse_long (c # cs) =
     (if c = 108 then (True, case cs of d # ds \<Rightarrow> if d = 108 then ds else cs | [] \<Rightarrow> [])
      else (False, c # cs))"
| "parse_long [] = (False, [])"

text \<open>The switch on the conversion letter; \<open>st\<close> is the buffer and position.\<close>

definition convert :: "nat \<Rightarrow> bool \<Rightarrow> bool \<Rightarrow> int \<Rightarrow> u8 \<Rightarrow> va list \<Rightarrow> bytes \<times> nat \<Rightarrow> ((bytes \<times> nat) \<times> va list) option" where
  "convert sz zero_pad longlong width c args st =
     (let buf = fst st; pos = snd st in
      if c = 115 then
        map_option (\<lambda>(s, args).
            (append_to_buffer buf sz pos (case s of None \<Rightarrow> map char_byte ''(null)'' | Some cs \<Rightarrow> cs), args))
          (arg_str args)
      else if c = 99 then
        map_option (\<lambda>(w, args). (append_char_to_buffer buf sz pos (ucast w), args)) (arg_u64 args)
      else if c = 100 \<or> c = 105 then
        map_option (\<lambda>(w, args).
            (append_padded_to_buffer buf sz pos (int_to_str (signed_arg longlong w)) width 32, args))
          (arg_u64 args)
      else if c = 117 then
        map_option (\<lambda>(w, args).
            (append_padded_to_buffer buf sz pos (uint_to_str (unsigned_arg longlong w)) width 32, args))
          (arg_u64 args)
      else if c = 120 \<or> c = 88 then
        map_option (\<lambda>(w, args).
            (append_padded_to_buffer buf sz pos (hex_to_str (unsigned_arg longlong w)) width
               (if zero_pad then 48 else 32), args))
          (arg_u64 args)
      else if c = 112 then
        map_option (\<lambda>(w, args).
            (let (buf, pos) = append_to_buffer buf sz pos [48, 120]
             in append_to_buffer buf sz pos (hex_to_str (unat w)), args))
          (arg_u64 args)
      else if c = 37 then Some (append_char_to_buffer buf sz pos 37, args)
      else
        Some (let (buf, pos) = append_char_to_buffer buf sz pos 37
              in append_char_to_buffer buf sz pos c, args))"

lemma parse_width_length: "length (snd (parse_width w cs)) \<le> length cs"
  by (induction w cs rule: parse_width.induct) auto

lemma parse_zero_length: "length (snd (parse_zero cs)) \<le> length cs"
  by (cases cs) auto

lemma parse_long_length: "length (snd (parse_long cs)) \<le> length cs"
  by (cases cs) (auto split: list.splits)

text \<open>The prefix of a conversion: flag, width and length modifier, and what is left of the format.\<close>

definition parse_spec :: "bytes \<Rightarrow> bool \<times> int \<times> bool \<times> bytes" where
  "parse_spec fmt =
     (let (zero_pad, fmt) = parse_zero fmt;
          (width, fmt) = parse_width 0 fmt;
          (longlong, fmt) = parse_long fmt
      in (zero_pad, width, longlong, fmt))"

lemma parse_spec_length: "parse_spec fmt = (z, w, l, rest) \<Longrightarrow> length rest \<le> length fmt"
  using parse_zero_length[of fmt] parse_width_length[of 0 "snd (parse_zero fmt)"]
    parse_long_length[of "snd (parse_width 0 (snd (parse_zero fmt)))"]
  by (auto simp: parse_spec_def Let_def split: prod.splits)

function vsnprintf_loop :: "nat \<Rightarrow> bytes \<Rightarrow> va list \<Rightarrow> bytes \<times> nat \<Rightarrow> (bytes \<times> nat) option" where
  "vsnprintf_loop sz [] args st = Some st"
| "vsnprintf_loop sz (c # fmt) args st =
     (if c = 37 then
        (if fmt = [] then Some st
         else case parse_spec fmt of
           (zero_pad, width, longlong, rest) \<Rightarrow>
             (case rest of
                [] \<Rightarrow> None
              | k # fmt' \<Rightarrow>
                  (case convert sz zero_pad longlong width k args st of
                     None \<Rightarrow> None
                   | Some (st', args') \<Rightarrow> vsnprintf_loop sz fmt' args' st')))
      else vsnprintf_loop sz fmt args (append_char_to_buffer (fst st) sz (snd st) c))"
  by pat_completeness auto
termination
  by (relation "measure (\<lambda>(sz, fmt, args, st). length fmt)") (auto dest!: parse_spec_length[OF sym])

definition vsnprintf_internal :: "bytes \<Rightarrow> nat \<Rightarrow> bytes \<Rightarrow> va list \<Rightarrow> (int \<times> bytes) option" where
  "vsnprintf_internal buffer sz fmt args =
     (case vsnprintf_loop sz fmt args (buffer, 0) of
        None \<Rightarrow> None
      | Some (buf, pos) \<Rightarrow>
          Some (s32 (int pos), if sz > 0 then buf[(if pos < sz then pos else sz - 1) := 0] else buf))"

definition snprintf :: "bytes \<Rightarrow> nat \<Rightarrow> bytes \<Rightarrow> va list \<Rightarrow> (int \<times> bytes) option" where
  "snprintf buffer sz fmt args = vsnprintf_internal buffer sz fmt args"

definition sprintf :: "bytes \<Rightarrow> bytes \<Rightarrow> va list \<Rightarrow> (int \<times> bytes) option" where
  "sprintf buffer fmt args = vsnprintf_internal buffer (2 ^ 64 - 1) fmt args"

definition vsnprintf :: "bytes \<Rightarrow> nat \<Rightarrow> bytes \<Rightarrow> va list \<Rightarrow> (int \<times> bytes) option" where
  "vsnprintf buffer sz fmt args = vsnprintf_internal buffer sz fmt args"

section \<open>Managed strings refine bounded character sequences\<close>

text \<open>The invariant, and the text that a managed string holds.\<close>

definition string_ok :: "string_t \<Rightarrow> bool" where
  "string_ok s \<longleftrightarrow> length (str_data s) = 256 \<and> str_capacity s = 256 \<and> str_length s < 256 \<and>
     str_data s ! str_length s = 0 \<and> 0 \<notin> set (take (str_length s) (str_data s))"

definition contents :: "string_t \<Rightarrow> bytes" where
  "contents s = take (str_length s) (str_data s)"

lemma string_ok_room [simp]: "string_ok s \<Longrightarrow> sub64 (sub64 (str_capacity s) (str_length s)) (Suc 0) = 255 - str_length s"
proof -
  assume a: "string_ok s"
  then have "str_length s < 256" "str_capacity s = 256" by (simp_all add: string_ok_def)
  moreover from this have "sub64 (256 - str_length s) 1 = 256 - str_length s - 1" by (intro sub64_id) auto
  ultimately show ?thesis by (simp add: sub64_id)
qed

lemma contents_length [simp]: "string_ok s \<Longrightarrow> length (contents s) = str_length s"
  by (simp add: string_ok_def contents_def)

lemma take_put_bytes:
  "i + length ys \<le> length xs \<Longrightarrow> take (i + length ys) ((put_bytes xs i ys)[i + length ys := c]) = take i xs @ ys"
  by (cases ys) (auto simp: put_bytes_def min_def)

text \<open>Every writer ends by storing some text and its terminator: the common step.\<close>

lemma string_store:
  assumes "string_ok s" "str_length s + length cs < 256" "0 \<notin> set cs" "n = str_length s + length cs"
  shows "string_ok (s\<lparr>str_data := (put_bytes (str_data s) (str_length s) cs)[n := 0], str_length := n\<rparr>) \<and>
    contents (s\<lparr>str_data := (put_bytes (str_data s) (str_length s) cs)[n := 0], str_length := n\<rparr>) = contents s @ cs"
  using assms take_put_bytes[of "str_length s" cs "str_data s" 0] by (auto simp: string_ok_def contents_def)

lemma string_init_ok:
  "length (str_data s) = 256 \<Longrightarrow> string_ok (string_init s) \<and> contents (string_init s) = []"
  by (cases "str_data s") (auto simp: string_init_def string_ok_def contents_def STRING_MAX_LENGTH_def)

lemma string_clear_ok: "string_ok s \<Longrightarrow> string_ok (string_clear s) \<and> contents (string_clear s) = []"
  by (cases "str_data s") (auto simp: string_clear_def string_ok_def contents_def)

lemma string_append_ok:
  assumes "string_ok s" "0 \<notin> set cs"
  shows "string_ok (string_append s (Some cs)) \<and> contents (string_append s (Some cs)) = take 255 (contents s @ cs)"
proof -
  let ?k = "min (length cs) (255 - str_length s)"
  have l: "str_length s < 256" using assms(1) by (simp add: string_ok_def)
  have eq: "string_append s (Some cs) =
      s\<lparr>str_data := (put_bytes (str_data s) (str_length s) (take ?k cs))[str_length s + ?k := 0],
        str_length := str_length s + ?k\<rparr>"
    using assms(1) by (auto simp: string_append_def Let_def min_def)
  have z: "0 \<notin> set (take ?k cs)" using assms(2) by (meson in_set_takeD)
  have t: "take 255 (contents s @ cs) = contents s @ take ?k cs"
    using assms(1) l by (simp add: min_def)
  have k: "str_length s + length (take ?k cs) < 256" "str_length s + ?k = str_length s + length (take ?k cs)"
    using l by auto
  show ?thesis unfolding eq t by (rule string_store[OF assms(1) k(1) z k(2)])
qed

lemma string_append_char_ok:
  assumes "string_ok s" "c \<noteq> 0"
  shows "string_ok (string_append_char s c) \<and> contents (string_append_char s c) = take 255 (contents s @ [c])"
proof -
  have "sub64 (str_capacity s) 1 = 255" using assms by (simp add: string_ok_def sub64_id)
  moreover have "(str_data s)[str_length s := c] = put_bytes (str_data s) (str_length s) [c]"
    using assms(1) by (simp add: put_bytes_def string_ok_def upd_conv_take_nth_drop)
  ultimately show ?thesis
    using string_store[of s "[c]" "str_length s + 1"] assms contents_length[OF assms(1)]
    by (auto simp: string_append_char_def Let_def string_ok_def)
qed

lemma string_init_cstr_ok:
  assumes "length (str_data s) = 256" "0 \<notin> set cs"
  shows "string_ok (string_init_cstr s (Some cs)) \<and> contents (string_init_cstr s (Some cs)) = take 255 cs"
proof -
  let ?s = "string_init s" and ?n = "min (length cs) 255"
  have i: "string_ok ?s" "contents ?s = []" "str_length ?s = 0"
    using string_init_ok[OF assms(1)] by (auto simp: string_init_def)
  have eq: "string_init_cstr s (Some cs) = ?s\<lparr>str_data := (put_bytes (str_data ?s) 0 (take ?n cs))[?n := 0], str_length := ?n\<rparr>"
    by (auto simp: string_init_cstr_def Let_def STRING_MAX_LENGTH_def min_def)
  have z: "0 \<notin> set (take ?n cs)" using assms(2) by (meson in_set_takeD)
  have t: "take 255 cs = contents ?s @ take ?n cs" using i(2) by (simp add: min_def)
  have k: "str_length ?s + length (take ?n cs) < 256" "?n = str_length ?s + length (take ?n cs)"
    using i(3) by auto
  show ?thesis using string_store[OF i(1) k(1) z k(2)] unfolding eq t i(3) .
qed

lemma c_chars_contents: "string_ok s \<Longrightarrow> c_chars (str_data s) = contents s"
proof -
  assume a: "string_ok s"
  then have d: "str_data s = contents s @ 0 # drop (str_length s + 1) (str_data s)"
    unfolding contents_def string_ok_def by (metis append_take_drop_id drop_Cons_nth Suc_eq_plus1)
  have "0 \<notin> set (contents s)" using a by (simp add: string_ok_def contents_def)
  then have "takeWhile (\<lambda>c. c \<noteq> 0) (contents s @ 0 # xs) = contents s" for xs
    by (subst takeWhile_append2) auto
  then show ?thesis unfolding c_chars_def by (subst d) simp
qed

lemma contents_nonzero: "string_ok s \<Longrightarrow> 0 \<notin> set (contents s)"
  by (simp add: string_ok_def contents_def)

lemma string_copy_ok:
  assumes "string_ok d" "string_ok s"
  shows "string_ok (string_copy d s) \<and> contents (string_copy d s) = contents s"
  using assms by (auto simp: string_copy_def string_ok_def contents_def put_bytes_def nth_append min_def)

section \<open>Queries on managed strings\<close>

lemma two_arrays_first:
  assumes "string_ok s"
  shows "cstr_at (two_arrays (str_data s) ys) 1 (contents s)"
proof (rule cstr_atI)
  show "two_arrays (str_data s) ys (1 + i) = contents s ! i" if "i < length (contents s)" for i
    using that assms by (auto simp: two_arrays_def contents_def string_ok_def)
  show "two_arrays (str_data s) ys (1 + length (contents s)) = 0"
    using assms by (simp add: two_arrays_def string_ok_def)
qed (use contents_nonzero[OF assms] in simp)

lemma two_arrays_second: "cstr_at (two_arrays xs ys) (second_at xs) (c_chars ys)"
proof (rule cstr_atI)
  let ?k = "length (c_chars ys)"
  have k: "?k \<le> length ys" by (simp add: c_chars_def length_takeWhile_le)
  show "two_arrays xs ys (second_at xs + i) = c_chars ys ! i" if "i < ?k" for i
    using that k by (auto simp: two_arrays_def second_at_def c_chars_def takeWhile_nth)
  show "two_arrays xs ys (second_at xs + ?k) = 0"
    using k nth_length_takeWhile[of "\<lambda>c. c \<noteq> 0" ys]
    by (auto simp: two_arrays_def second_at_def c_chars_def)
qed (auto simp: c_chars_def dest: set_takeWhileD)

lemma c_chars_id: "0 \<notin> set cs \<Longrightarrow> c_chars cs = cs"
  by (auto simp: c_chars_def takeWhile_eq_all_conv)

lemma string_strcmp:
  assumes "string_ok s"
  shows "strcmp (two_arrays (str_data s) ys) 1 (second_at (str_data s)) = Some (cmp_bytes (contents s) (c_chars ys))"
  by (rule strcmp_cstr[OF two_arrays_first[OF assms] two_arrays_second])

section \<open>Formatting as rendering\<close>

text \<open>The reference: the whole text that a format describes, without any buffer.\<close>

definition padded :: "bytes \<Rightarrow> int \<Rightarrow> u8 \<Rightarrow> bytes" where
  "padded src width pad = replicate (nat (width - int (length src))) pad @ src"

definition render_conv :: "bool \<Rightarrow> bool \<Rightarrow> int \<Rightarrow> u8 \<Rightarrow> va list \<Rightarrow> (bytes \<times> va list) option" where
  "render_conv zero_pad longlong width c args =
     (if c = 115 then
        map_option (\<lambda>(s, args). (case s of None \<Rightarrow> map char_byte ''(null)'' | Some cs \<Rightarrow> cs, args)) (arg_str args)
      else if c = 99 then map_option (\<lambda>(w, args). ([ucast w], args)) (arg_u64 args)
      else if c = 100 \<or> c = 105 then
        map_option (\<lambda>(w, args). (padded (int_to_str (signed_arg longlong w)) width 32, args)) (arg_u64 args)
      else if c = 117 then
        map_option (\<lambda>(w, args). (padded (uint_to_str (unsigned_arg longlong w)) width 32, args)) (arg_u64 args)
      else if c = 120 \<or> c = 88 then
        map_option (\<lambda>(w, args).
            (padded (hex_to_str (unsigned_arg longlong w)) width (if zero_pad then 48 else 32), args)) (arg_u64 args)
      else if c = 112 then map_option (\<lambda>(w, args). ([48, 120] @ hex_to_str (unat w), args)) (arg_u64 args)
      else if c = 37 then Some ([37], args)
      else Some ([37, c], args))"

function render :: "bytes \<Rightarrow> va list \<Rightarrow> bytes option" where
  "render [] args = Some []"
| "render (c # fmt) args =
     (if c = 37 then
        (if fmt = [] then Some []
         else case parse_spec fmt of
           (zero_pad, width, longlong, rest) \<Rightarrow>
             (case rest of
                [] \<Rightarrow> None
              | k # fmt' \<Rightarrow>
                  (case render_conv zero_pad longlong width k args of
                     None \<Rightarrow> None
                   | Some (cs, args') \<Rightarrow> map_option ((@) cs) (render fmt' args'))))
      else map_option ((#) c) (render fmt args))"
  by pat_completeness auto
termination
  by (relation "measure (\<lambda>(fmt, args). length fmt)") (auto dest!: parse_spec_length[OF sym])

definition emit :: "nat \<Rightarrow> bytes \<Rightarrow> bytes \<times> nat \<Rightarrow> bytes \<times> nat" where
  "emit sz cs st = append_to_buffer (fst st) sz (snd st) cs"

lemma emit_Nil [simp]: "emit sz [] st = st"
  by (simp add: emit_def)

lemma emit_Cons: "emit sz (c # cs) st =
    (if snd st + 1 < sz then emit sz cs ((fst st)[snd st := c], snd st + 1) else st)"
  by (cases st) (simp add: emit_def)

lemma emit_full: "\<not> snd st + 1 < sz \<Longrightarrow> emit sz cs st = st"
  by (cases cs) (simp_all add: emit_Cons)

lemma emit_append: "emit sz (xs @ ys) st = emit sz ys (emit sz xs st)"
  by (induction xs arbitrary: st) (simp_all add: emit_Cons emit_full)

lemma append_char_emit: "append_char_to_buffer (fst st) sz (snd st) c = emit sz [c] st"
  by (cases st) (simp add: append_char_to_buffer_def emit_Cons)

lemma append_pad_emit: "append_pad (fst st) sz (snd st) k pad = emit sz (replicate k pad) st"
proof (induction k arbitrary: st)
  case (Suc k)
  show ?case
    using Suc[of "emit sz [pad] st"] append_char_emit[of st sz pad] emit_append[of sz "[pad]" "replicate k pad" st]
    by (simp add: case_prod_unfold Let_def)
qed simp

lemma append_padded_emit: "append_padded_to_buffer (fst st) sz (snd st) src w pad = emit sz (padded src w pad) st"
  by (simp add: append_padded_to_buffer_def padded_def append_pad_emit case_prod_unfold Let_def emit_append)
    (simp add: emit_def)

lemmas emits = append_char_emit append_padded_emit emit_def[symmetric]

lemma convert_emit:
  "convert sz z l w c args st = map_option (\<lambda>(cs, args). (emit sz cs st, args)) (render_conv z l w c args)"
proof -
  have two: "(let (buf, pos) = append_to_buffer (fst st) sz (snd st) xs in append_to_buffer buf sz pos ys)
      = emit sz (xs @ ys) st" for xs ys
    unfolding emit_append by (simp add: emit_def case_prod_unfold Let_def)
  have two': "(let (buf, pos) = append_char_to_buffer (fst st) sz (snd st) a in append_char_to_buffer buf sz pos b)
      = emit sz [a, b] st" for a b
    using emit_append[of sz "[a]" "[b]" st] by (simp add: case_prod_unfold Let_def emits)
  show ?thesis
    unfolding convert_def render_conv_def Let_def[of "fst st"] Let_def[of "snd st"] two two'
    unfolding emits if_distrib[of "map_option _"] option.map_comp option.simps comp_def case_prod_unfold fst_conv snd_conv ..
qed

lemma vsnprintf_loop_emit: "vsnprintf_loop sz fmt args st = map_option (\<lambda>t. emit sz t st) (render fmt args)"
proof (induction sz fmt args st rule: vsnprintf_loop.induct)
  case (2 sz c fmt args st)
  have one: "emit sz (c # t) st = emit sz t (emit sz [c] st)" for t
    using emit_append[of sz "[c]" t st] by simp
  show ?case
  proof (cases "c = 37")
    case True
    obtain z w l rest where ps: "parse_spec fmt = (z, w, l, rest)" by (cases "parse_spec fmt")
    show ?thesis
    proof (cases "fmt = []")
      case ne: False
      show ?thesis
      proof (cases rest)
        case rest: (Cons k fmt')
        show ?thesis
        proof (cases "render_conv z l w k args")
          case None
          then show ?thesis using True ne ps rest by (simp add: convert_emit)
        next
          case (Some r)
          obtain cs args' where r: "r = (cs, args')" by (cases r)
          have cv: "convert sz z l w k args st = Some (emit sz cs st, args')"
            using Some r by (simp add: convert_emit)
          have "vsnprintf_loop sz fmt' args' (emit sz cs st) =
              map_option (\<lambda>t. emit sz t (emit sz cs st)) (render fmt' args')"
            by (rule 2(1)[OF True ne ps[symmetric] refl refl rest cv refl])
          then show ?thesis using True ne ps rest Some r cv
            by (simp add: emit_append option.map_comp comp_def)
        qed
      qed (use True ne ps in simp)
    qed (use True in simp)
  next
    case False
    then have "vsnprintf_loop sz fmt args (emit sz [c] st) = map_option (\<lambda>t. emit sz t (emit sz [c] st)) (render fmt args)"
      using 2(2)[OF False] by (simp only: append_char_emit)
    then show ?thesis using False one[of "the (render fmt args)"]
      by (cases "render fmt args") (simp_all add: append_char_emit)
  qed
qed simp

lemma emit_result:
  "pos < sz \<Longrightarrow> sz \<le> length buf \<Longrightarrow>
   emit sz t (buf, pos) = (let k = min (length t) (sz - 1 - pos) in (put_bytes buf pos (take k t), pos + k))"
proof (induction t arbitrary: buf pos)
  case Nil
  then show ?case by (simp add: put_bytes_def)
next
  case (Cons c t)
  show ?case
  proof (cases "pos + 1 < sz")
    case True
    let ?k = "min (length t) (sz - 1 - (pos + 1))"
    have k: "min (length (c # t)) (sz - 1 - pos) = Suc ?k" using True by auto
    have "take (Suc pos) (buf[pos := c]) = take pos buf @ [c]"
      using take_Suc_append_nth[of pos "buf[pos := c]"] Cons.prems by simp
    then have put: "put_bytes (buf[pos := c]) (pos + 1) xs = put_bytes buf pos (c # xs)" for xs
      by (simp add: put_bytes_def)
    have "emit sz (c # t) (buf, pos) = emit sz t (buf[pos := c], pos + 1)" using True by (simp add: emit_Cons)
    also have "\<dots> = (put_bytes (buf[pos := c]) (pos + 1) (take ?k t), pos + 1 + ?k)"
      using Cons.IH[of "pos + 1" "buf[pos := c]"] Cons.prems True by (simp add: Let_def)
    finally show ?thesis unfolding k put by (simp add: Let_def)
  next
    case False
    then have "sz - 1 - pos = 0" using Cons.prems by simp
    then show ?thesis using False by (simp add: emit_Cons put_bytes_def Let_def)
  qed
qed

lemma snprintf_none: "0 < sz \<Longrightarrow> render fmt args = None \<Longrightarrow> snprintf buffer sz fmt args = None"
  by (simp add: snprintf_def vsnprintf_internal_def vsnprintf_loop_emit)

lemma snprintf_some:
  assumes "0 < sz" "sz \<le> length buffer" "render fmt args = Some t"
  shows "snprintf buffer sz fmt args =
    Some (s32 (int (min (length t) (sz - 1))), put_bytes buffer 0 (take (min (length t) (sz - 1)) t @ [0]))"
proof -
  let ?k = "min (length t) (sz - 1)"
  have "(put_bytes buffer 0 (take ?k t))[?k := 0] = put_bytes buffer 0 (take ?k t @ [0])"
    using assms(1,2) drop_Cons_nth[of ?k buffer] by (simp add: put_bytes_def list_update_append)
  moreover have "?k < sz" using assms(1) by linarith
  ultimately show ?thesis using emit_result[of 0 sz buffer t] assms
    by (simp add: Let_def snprintf_def vsnprintf_internal_def vsnprintf_loop_emit)
qed

section \<open>Properties\<close>




definition string_demo :: string_t where
  "string_demo = \<lparr>str_data = [104, 105] @ replicate 254 0, str_length = 2, str_capacity = 256\<rparr>"

lemma string_demo_ok: "string_ok string_demo" "contents string_demo = [104, 105]"
  by (auto simp: string_ok_def string_demo_def contents_def)


text \<open>
  The queries on managed strings answer about the text they hold: equality, the first position of a
  substring or \<open>-1\<close>, prefix and suffix, and the number it spells.
\<close>

theorem string_queries_exact:
  assumes "string_ok s" "string_ok s'" "0 \<notin> set cs"
  shows "string_equals s s' = Some (contents s = contents s') \<and>
    string_find s cs = Some (case find_sub (contents s) cs of None \<Rightarrow> -1 | Some i \<Rightarrow> int i) \<and>
    string_contains s cs = Some (\<exists>i. take (length cs) (drop i (contents s)) = cs) \<and>
    string_starts_with s cs = (take (length cs) (contents s) = cs) \<and>
    string_ends_with s cs = Some (\<exists>xs. contents s = xs @ cs) \<and>
    int_from_str s = int_from_cstr (Some (contents s))"
proof -
  note first = two_arrays_first[OF assms(1), of cs]
  note second = two_arrays_second[of "str_data s" cs, unfolded c_chars_id[OF assms(3)]]
  have find: "string_find s cs = Some (case find_sub (contents s) cs of None \<Rightarrow> -1 | Some i \<Rightarrow> int i)"
  proof (cases "cs = []")
    case True
    then show ?thesis using second by (cases "contents s") (auto simp: string_find_def strstr_def)
  next
    case False
    then have "two_arrays (str_data s) cs (second_at (str_data s)) \<noteq> 0" using second by (cases cs) auto
    then show ?thesis using strstr_loop_cstr[OF second False first]
      by (auto simp: string_find_def strstr_def split: option.splits)
  qed
  have "string_contains s cs = Some (\<exists>i. take (length cs) (drop i (contents s)) = cs)"
    using find_sub_None[of "contents s" cs] find_sub_Some[of "contents s" cs] find
    by (cases "find_sub (contents s) cs") (auto simp: string_contains_def)
  moreover have "string_starts_with s cs = (take (length cs) (contents s) = cs)"
  proof -
    have "0 \<notin> set (take (length cs) (contents s))" using contents_nonzero[OF assms(1)] by (meson in_set_takeD)
    then have "strncmp (two_arrays (str_data s) cs) 1 (second_at (str_data s)) (length cs) = 0 \<longleftrightarrow>
        take (length cs) (contents s) = cs"
      using strncmp_cstr[OF first second, of "length cs"] cmp_bytes_eq[OF _ assms(3)] by simp
    then show ?thesis using assms(1) by (auto simp: string_starts_with_def Let_def dest: arg_cong[where f = length])
  qed
  moreover have "string_ends_with s cs = Some (\<exists>xs. contents s = xs @ cs)"
  proof (cases "length cs \<le> str_length s")
    case True
    let ?i = "str_length s - length cs"
    have "cstr_at (two_arrays (str_data s) cs) (1 + ?i) (drop ?i (contents s))"
      by (rule cstr_at_drop[OF first]) (use assms(1) in simp)
    from strcmp_cstr[OF this second] have "strcmp (two_arrays (str_data s) cs) (1 + str_length s - length cs)
        (second_at (str_data s)) = Some (cmp_bytes (drop ?i (contents s)) cs)" using True by (simp add: Suc_diff_le)
    moreover have "cmp_bytes (drop ?i (contents s)) cs = 0 \<longleftrightarrow> drop ?i (contents s) = cs"
      by (rule cmp_bytes_eq[OF _ assms(3)]) (meson assms(1) contents_nonzero in_set_dropD)
    moreover have "drop ?i (contents s) = cs \<longleftrightarrow> (\<exists>xs. contents s = xs @ cs)"
      using assms(1) True by (metis append_eq_conv_conj append_take_drop_id contents_length length_append diff_add_inverse2)
    ultimately show ?thesis using True by (simp add: string_ends_with_def Let_def)
  next
    case False
    then show ?thesis using contents_length[OF assms(1)] by (auto simp: string_ends_with_def Let_def)
  qed
  moreover have "string_equals s s' = Some (contents s = contents s')"
    using string_strcmp[OF assms(1), of "str_data s'"] cmp_bytes_eq[OF contents_nonzero contents_nonzero] assms
    by (simp add: string_equals_def c_chars_contents)
  ultimately show ?thesis using find assms(1) by (simp add: int_from_str_def c_chars_contents)
qed

theorem string_queries_exact_witness:
  "string_equals string_demo string_demo = Some True \<and> string_find string_demo [105] = Some 1 \<and>
   string_ends_with string_demo [105] = Some True"
proof -
  have "0 \<notin> set [105 :: u8]" by simp
  note ex = string_queries_exact[OF string_demo_ok(1) string_demo_ok(1) this]
  have "contents string_demo = [104] @ [105]" by (simp add: string_demo_ok)
  then have "(\<exists>xs. contents string_demo = xs @ [105]) = True" by blast
  moreover have "string_ends_with string_demo [105] = Some (\<exists>xs. contents string_demo = xs @ [105])"
    using ex by blast
  ultimately have "string_ends_with string_demo [105] = Some True" by (simp only:)
  moreover have "string_find string_demo [105] = Some (case find_sub [104, 105] [105] of None \<Rightarrow> -1 | Some i \<Rightarrow> int i)"
    using ex unfolding string_demo_ok(2) by blast
  moreover have "string_equals string_demo string_demo = Some (contents string_demo = contents string_demo)"
    using ex by blast
  ultimately show ?thesis by simp
qed

end
