(* ===== verification/Blockdev.thy ===== *)
theory Blockdev
  imports String_T "HOL-Library.Monad_Syntax"
begin

text \<open>
  Block devices, \<^verbatim>\<open>src/impl/storage/blockdev.c\<close>: the table \<^verbatim>\<open>g_devices\<close> of disks and partitions and the
  bounds-checked I/O that turns partition sectors into disk sectors and splits transfers. A device
  pointer is an index into the table, \<^const>\<open>None\<close> for NULL. The driver callbacks are functions on the
  state \<open>'w\<close> of the hardware behind them: they get the buffer from the transfer address on and return
  success, the buffer and the new hardware state. The table lock makes each table operation atomic and
  the serial log is left out. Following the chain of parents is a partial function, since a cyclic
  chain would never end; so I/O has an option result.

  \<open>oom\<close> lists, call by call, whether the coming heap allocations fail: whether \<^verbatim>\<open>alloc\<close> returns NULL is
  decided by the heap and not by this code. A buffer from \<^verbatim>\<open>alloc\<close> starts zeroed.
\<close>

section \<open>Devices\<close>

definition BLOCKDEV_MAX :: nat where "BLOCKDEV_MAX = 48"
definition BLOCKDEV_NAME_SIZE :: nat where "BLOCKDEV_NAME_SIZE = 16"
definition BLOCKDEV_MODEL_SIZE :: nat where "BLOCKDEV_MODEL_SIZE = 41"
definition BLOCKDEV_LABEL_SIZE :: nat where "BLOCKDEV_LABEL_SIZE = 37"

datatype blockdev_kind = BLOCKDEV_KIND_DISK | BLOCKDEV_KIND_PARTITION

datatype blockdev_fs =
  BLOCKDEV_FS_UNKNOWN | BLOCKDEV_FS_EMPTY | BLOCKDEV_FS_MINIMAFS | BLOCKDEV_FS_FAT | BLOCKDEV_FS_PARTITIONED

type_synonym 'w blockdev_io_fn = "'w \<Rightarrow> nat \<Rightarrow> nat \<Rightarrow> nat \<Rightarrow> bytes \<Rightarrow> bool \<times> bytes \<times> 'w"

record 'w blockdev =
  bd_used :: bool
  bd_kind :: blockdev_kind
  bd_name :: bytes
  bd_model :: bytes
  bd_sector_size :: nat
  bd_sectors :: nat
  bd_ctx :: nat
  bd_read :: "'w blockdev_io_fn option"
  bd_write :: "'w blockdev_io_fn option"
  bd_max_transfer :: nat
  bd_parent :: "nat option"
  bd_start_lba :: nat
  bd_part_number :: nat
  bd_mbr_type :: u8
  bd_type_guid :: bytes
  bd_part_guid :: bytes
  bd_label :: bytes
  bd_fs :: blockdev_fs
  bd_mounted_drive :: int

record 'w storage =
  g_devices :: "'w blockdev list"
  world :: 'w
  oom :: "bool list"

text \<open>The device at an index, and a device changed in place.\<close>

definition dev :: "'w storage \<Rightarrow> nat \<Rightarrow> 'w blockdev" where
  "dev st i = g_devices st ! i"

definition set_dev :: "nat \<Rightarrow> ('w blockdev \<Rightarrow> 'w blockdev) \<Rightarrow> 'w storage \<Rightarrow> 'w storage" where
  "set_dev i f st = st\<lparr>g_devices := (g_devices st)[i := f (g_devices st ! i)]\<rparr>"

definition zero_dev :: "'w blockdev" where
  "zero_dev =
     \<lparr>bd_used = False, bd_kind = BLOCKDEV_KIND_DISK, bd_name = replicate BLOCKDEV_NAME_SIZE 0,
      bd_model = replicate BLOCKDEV_MODEL_SIZE 0, bd_sector_size = 0, bd_sectors = 0, bd_ctx = 0,
      bd_read = None, bd_write = None, bd_max_transfer = 0, bd_parent = None, bd_start_lba = 0,
      bd_part_number = 0, bd_mbr_type = 0, bd_type_guid = replicate 16 0, bd_part_guid = replicate 16 0,
      bd_label = replicate BLOCKDEV_LABEL_SIZE 0, bd_fs = BLOCKDEV_FS_UNKNOWN, bd_mounted_drive = 0\<rparr>"

section \<open>Buffers and text\<close>

definition alloc_buffer :: "'w storage \<Rightarrow> nat \<Rightarrow> bytes option \<times> 'w storage" where
  "alloc_buffer st n =
     (case oom st of
        [] \<Rightarrow> (Some (replicate n 0), st)
      | fail # rest \<Rightarrow> (if fail then None else Some (replicate n 0), st\<lparr>oom := rest\<rparr>))"

text \<open>\<^verbatim>\<open>snprintf(buf, sizeof(buf), ...)\<close> and \<^verbatim>\<open>strncpy\<close> into an array.\<close>

definition print_into :: "bytes \<Rightarrow> string \<Rightarrow> va list \<Rightarrow> bytes" where
  "print_into buf fmt args =
     (case snprintf buf (length buf) (map char_byte fmt) args of None \<Rightarrow> buf | Some (n, b) \<Rightarrow> b)"

definition strncpy_into :: "bytes \<Rightarrow> bytes \<Rightarrow> nat \<Rightarrow> bytes" where
  "strncpy_into buf src n = take n (c_chars src @ replicate n 0) @ drop n buf"

section \<open>The table\<close>

definition blockdev_init :: "'w storage \<Rightarrow> 'w storage" where
  "blockdev_init st = st\<lparr>g_devices := replicate BLOCKDEV_MAX zero_dev\<rparr>"

definition blockdev_alloc :: "'w storage \<Rightarrow> nat option \<times> 'w storage" where
  "blockdev_alloc st =
     (case find (\<lambda>i. \<not> bd_used (dev st i)) [0..<BLOCKDEV_MAX] of
        None \<Rightarrow> (None, st)
      | Some i \<Rightarrow> (Some i, set_dev i (\<lambda>_. zero_dev\<lparr>bd_used := True, bd_mounted_drive := -1\<rparr>) st))"

definition disk_number :: "'w storage \<Rightarrow> bytes \<Rightarrow> nat" where
  "disk_number st prefix =
     length (filter (\<lambda>i. bd_used (dev st i) \<and> bd_kind (dev st i) = BLOCKDEV_KIND_DISK \<and>
         strncmp (two_arrays (bd_name (dev st i)) prefix) 1 (second_at (bd_name (dev st i))) (length prefix) = 0)
       [0..<BLOCKDEV_MAX])"

definition blockdev_register_disk ::
  "'w storage \<Rightarrow> bytes option \<Rightarrow> bytes option \<Rightarrow> nat \<Rightarrow> nat \<Rightarrow> nat \<Rightarrow> 'w blockdev_io_fn option \<Rightarrow>
   'w blockdev_io_fn option \<Rightarrow> nat \<Rightarrow> nat option \<times> 'w storage" where
  "blockdev_register_disk st prefix model sector_size sectors ctx rd wr max_transfer =
     (case prefix of
        None \<Rightarrow> (None, st)
      | Some pre \<Rightarrow>
          if rd = None \<or> sector_size = 0 then (None, st)
          else
            let number = disk_number st pre in
            (case blockdev_alloc st of
               (None, st) \<Rightarrow> (None, st)
             | (Some i, st) \<Rightarrow>
                 (Some i, set_dev i (\<lambda>d. d\<lparr>bd_kind := BLOCKDEV_KIND_DISK,
                    bd_name := print_into (bd_name d) ''%s%u'' [Str (Some pre), Val (of_nat number)],
                    bd_model := (case model of None \<Rightarrow> bd_model d
                                 | Some ms \<Rightarrow> strncpy_into (bd_model d) ms (BLOCKDEV_MODEL_SIZE - 1)),
                    bd_sector_size := sector_size, bd_sectors := sectors, bd_ctx := ctx,
                    bd_read := rd, bd_write := wr, bd_max_transfer := max_transfer\<rparr>) st)))"

definition partition_name :: "bytes \<Rightarrow> bytes \<Rightarrow> nat \<Rightarrow> bytes" where
  "partition_name buf disk_name number =
     print_into buf ''%sp%u'' [Str (Some (c_chars disk_name)), Val (of_nat number)]"

definition relabel_partition :: "'w blockdev \<Rightarrow> nat \<Rightarrow> 'w blockdev \<Rightarrow> 'w blockdev" where
  "relabel_partition disk number d =
     d\<lparr>bd_part_number := number, bd_name := partition_name (bd_name d) (bd_name disk) number\<rparr>"

definition fill_partition :: "nat \<Rightarrow> 'w blockdev \<Rightarrow> nat \<Rightarrow> nat \<Rightarrow> nat \<Rightarrow> 'w blockdev \<Rightarrow> 'w blockdev" where
  "fill_partition k disk number start_lba sectors d =
     d\<lparr>bd_kind := BLOCKDEV_KIND_PARTITION,
       bd_name := partition_name (bd_name d) (bd_name disk) number,
       bd_model := strncpy_into (bd_model d) (bd_model disk) (BLOCKDEV_MODEL_SIZE - 1),
       bd_sector_size := bd_sector_size disk, bd_sectors := sectors,
       bd_parent := Some k, bd_start_lba := start_lba, bd_part_number := number\<rparr>"

definition blockdev_add_partition ::
  "'w storage \<Rightarrow> nat option \<Rightarrow> nat \<Rightarrow> nat \<Rightarrow> nat \<Rightarrow> nat option \<times> 'w storage" where
  "blockdev_add_partition st disk number start_lba sectors =
     (case disk of
        None \<Rightarrow> (None, st)
      | Some k \<Rightarrow>
          if bd_kind (dev st k) \<noteq> BLOCKDEV_KIND_DISK \<or> sectors = 0 then (None, st)
          else if start_lba \<ge> bd_sectors (dev st k) \<or> sectors > bd_sectors (dev st k) - start_lba
          then (None, st)
          else
            (case find (\<lambda>i. bd_used (dev st i) \<and> bd_parent (dev st i) = Some k \<and>
                 bd_start_lba (dev st i) = start_lba \<and> bd_sectors (dev st i) = sectors) [0..<BLOCKDEV_MAX] of
               Some i \<Rightarrow> (Some i, set_dev i (relabel_partition (dev st k) number) st)
             | None \<Rightarrow>
                 (case blockdev_alloc st of
                    (None, st) \<Rightarrow> (None, st)
                  | (Some i, st) \<Rightarrow>
                      (Some i, set_dev i (fill_partition k (dev st k) number start_lba sectors) st))))"

definition blockdev_remove_partitions :: "'w storage \<Rightarrow> nat option \<Rightarrow> 'w storage" where
  "blockdev_remove_partitions st disk =
     (case disk of
        None \<Rightarrow> st
      | Some k \<Rightarrow> st\<lparr>g_devices := map (\<lambda>d.
          if bd_used d \<and> bd_parent d = Some k \<and> bd_mounted_drive d < 0 then d\<lparr>bd_used := False\<rparr> else d)
            (g_devices st)\<rparr>)"

section \<open>Transfers\<close>

text \<open>
  The walk from a partition to its disk: the inner result is the disk and the sector on it, or
  \<^const>\<open>None\<close> when a parent is missing.
\<close>

partial_function (option) resolve :: "'w storage \<Rightarrow> nat \<Rightarrow> nat \<Rightarrow> (nat \<times> nat) option option" where
  "resolve st disk lba =
     (if bd_kind (dev st disk) = BLOCKDEV_KIND_PARTITION then
        (case bd_parent (dev st disk) of
           None \<Rightarrow> Some None
         | Some p \<Rightarrow>
             if \<not> bd_used (dev st p) then Some None
             else resolve st p (w64 (lba + bd_start_lba (dev st disk))))
      else Some (Some (disk, lba)))"

text \<open>
  The transfer loop. \<open>off\<close> is how far \<^verbatim>\<open>p\<close> has moved in the buffer. The caller passes a positive
  \<open>chunk_max\<close>.
\<close>

function io_loop :: "'w blockdev_io_fn \<Rightarrow> nat \<Rightarrow> nat \<Rightarrow> nat \<Rightarrow> 'w \<Rightarrow> nat \<Rightarrow> nat \<Rightarrow> nat \<Rightarrow> bytes \<Rightarrow> bool \<times> bytes \<times> 'w" where
  "io_loop fn ctx sector_size chunk_max w lba count off buf =
     (if count = 0 \<or> chunk_max = 0 then (True, buf, w)
      else
        let chunk = (if count < chunk_max then count else chunk_max) in
        case fn w ctx lba chunk (drop off buf) of
          (ok, rest, w') \<Rightarrow>
            (let buf' = take off buf @ rest in
             if \<not> ok then (False, buf', w')
             else io_loop fn ctx sector_size chunk_max w' (w64 (lba + chunk)) (count - chunk)
                    (off + chunk * sector_size) buf'))"
  by pat_completeness auto
termination
  by (relation "measure (\<lambda>(fn, ctx, ss, cm, w, lba, count, off, buf). count)") auto

declare io_loop.simps [simp del]

lemma io_loop_0: "io_loop fn ctx ss cm w lba 0 off buf = (True, buf, w)"
  by (subst io_loop.simps) simp

lemma io_loop_step:
  assumes "0 < n" "0 < cm" "fn w ctx lba (if n < cm then n else cm) (drop off buf) = (True, rest, w')"
  shows "io_loop fn ctx ss cm w lba n off buf =
    io_loop fn ctx ss cm w' (w64 (lba + (if n < cm then n else cm))) (n - (if n < cm then n else cm))
      (off + (if n < cm then n else cm) * ss) (take off buf @ rest)"
  using assms by (subst io_loop.simps) (simp add: Let_def)

definition blockdev_io ::
  "'w storage \<Rightarrow> nat option \<Rightarrow> nat \<Rightarrow> nat \<Rightarrow> bytes option \<Rightarrow> bool \<Rightarrow> (bool \<times> bytes option \<times> 'w storage) option" where
  "blockdev_io st device lba count buffer wr =
     (case (device, buffer) of
        (Some d, Some buf) \<Rightarrow>
          if \<not> bd_used (dev st d) then Some (False, buffer, st)
          else if count = 0 then Some (True, buffer, st)
          else if lba \<ge> bd_sectors (dev st d) \<or> count > bd_sectors (dev st d) - lba
          then Some (False, buffer, st)
          else
            (case resolve st d lba of
               None \<Rightarrow> None
             | Some None \<Rightarrow> Some (False, buffer, st)
             | Some (Some (disk, lba)) \<Rightarrow>
                 (case (if wr then bd_write (dev st disk) else bd_read (dev st disk)) of
                    None \<Rightarrow> Some (False, buffer, st)
                  | Some fn \<Rightarrow>
                      (let mx = bd_max_transfer (dev st disk);
                           chunk_max = (if mx \<noteq> 0 then mx else count)
                       in case io_loop fn (bd_ctx (dev st disk)) (bd_sector_size (dev st disk)) chunk_max
                              (world st) lba count 0 buf of
                            (ok, buf', w') \<Rightarrow> Some (ok, Some buf', st\<lparr>world := w'\<rparr>))))
      | _ \<Rightarrow> Some (False, buffer, st))"

text \<open>Reading fills a buffer; writing leaves the caller's buffer alone.\<close>

definition blockdev_read :: "'w storage \<Rightarrow> nat option \<Rightarrow> nat \<Rightarrow> nat \<Rightarrow> bytes \<Rightarrow> (bool \<times> bytes \<times> 'w storage) option" where
  "blockdev_read st device lba count buf =
     map_option (\<lambda>(ok, b, st). (ok, (case b of None \<Rightarrow> buf | Some b \<Rightarrow> b), st)) (blockdev_io st device lba count (Some buf) False)"

definition blockdev_write :: "'w storage \<Rightarrow> nat option \<Rightarrow> nat \<Rightarrow> nat \<Rightarrow> bytes \<Rightarrow> (bool \<times> 'w storage) option" where
  "blockdev_write st device lba count buf =
     map_option (\<lambda>(ok, b, st). (ok, st)) (blockdev_io st device lba count (Some buf) True)"

section \<open>Lookup and identification\<close>

definition blockdev_count :: "'w storage \<Rightarrow> nat" where
  "blockdev_count st = length (filter (\<lambda>i. bd_used (dev st i)) [0..<BLOCKDEV_MAX])"

definition blockdev_get :: "'w storage \<Rightarrow> nat \<Rightarrow> nat option" where
  "blockdev_get st i = (if i \<ge> BLOCKDEV_MAX \<or> \<not> bd_used (dev st i) then None else Some i)"

definition blockdev_find :: "'w storage \<Rightarrow> bytes option \<Rightarrow> nat option" where
  "blockdev_find st name =
     (case name of
        None \<Rightarrow> None
      | Some cs \<Rightarrow>
          find (\<lambda>i. bd_used (dev st i) \<and>
              strcmp (two_arrays (bd_name (dev st i)) cs) 1 (second_at (bd_name (dev st i))) = Some 0)
            [0..<BLOCKDEV_MAX])"

definition blockdev_first_disk :: "'w storage \<Rightarrow> nat option" where
  "blockdev_first_disk st =
     find (\<lambda>i. bd_used (dev st i) \<and> bd_kind (dev st i) = BLOCKDEV_KIND_DISK) [0..<BLOCKDEV_MAX]"

definition blockdev_size_bytes :: "'w storage \<Rightarrow> nat option \<Rightarrow> nat" where
  "blockdev_size_bytes st device =
     (case device of None \<Rightarrow> 0 | Some d \<Rightarrow> w64 (bd_sectors (dev st d) * bd_sector_size (dev st d)))"

fun blockdev_fs_name :: "blockdev_fs \<Rightarrow> string" where
  "blockdev_fs_name BLOCKDEV_FS_EMPTY = ''empty''"
| "blockdev_fs_name BLOCKDEV_FS_MINIMAFS = ''MinimaFS''"
| "blockdev_fs_name BLOCKDEV_FS_FAT = ''FAT''"
| "blockdev_fs_name BLOCKDEV_FS_PARTITIONED = ''partitioned''"
| "blockdev_fs_name BLOCKDEV_FS_UNKNOWN = ''unknown''"

definition has_text :: "bytes \<Rightarrow> nat \<Rightarrow> string \<Rightarrow> bool" where
  "has_text buf i s = (slice buf i (length s) = map char_byte s)"

text \<open>What the first 4096 bytes of a device say about it.\<close>

definition identify_bytes :: "blockdev_kind \<Rightarrow> bytes \<Rightarrow> blockdev_fs" where
  "identify_bytes kind buf =
     (if has_text buf 0 ''@MAGIC:'' then BLOCKDEV_FS_MINIMAFS
      else if list_all (\<lambda>b. b = 0) (take 512 buf) then BLOCKDEV_FS_EMPTY
      else if buf ! 510 = 0x55 \<and> buf ! 511 = 0xAA \<and> (has_text buf 0x52 ''FAT32'' \<or> has_text buf 0x36 ''FAT'')
      then BLOCKDEV_FS_FAT
      else if kind = BLOCKDEV_KIND_DISK \<and> buf ! 510 = 0x55 \<and> buf ! 511 = 0xAA then BLOCKDEV_FS_PARTITIONED
      else BLOCKDEV_FS_UNKNOWN)"

definition blockdev_identify :: "'w storage \<Rightarrow> nat option \<Rightarrow> (blockdev_fs \<times> 'w storage) option" where
  "blockdev_identify st device =
     (case device of
        None \<Rightarrow> Some (BLOCKDEV_FS_UNKNOWN, st)
      | Some d \<Rightarrow>
          if blockdev_size_bytes st device < 4096
          then Some (BLOCKDEV_FS_UNKNOWN, set_dev d (\<lambda>v. v\<lparr>bd_fs := BLOCKDEV_FS_UNKNOWN\<rparr>) st)
          else
            (case alloc_buffer st 4096 of
               (None, st) \<Rightarrow> Some (BLOCKDEV_FS_UNKNOWN, st)
             | (Some buf, st) \<Rightarrow>
                 do {
                   (ok, buf, st) \<leftarrow> blockdev_read st device 0 (4096 div bd_sector_size (dev st d)) buf;
                   let fs = (if ok then identify_bytes (bd_kind (dev st d)) buf else BLOCKDEV_FS_UNKNOWN);
                   Some (fs, set_dev d (\<lambda>v. v\<lparr>bd_fs := fs\<rparr>) st)
                 }))"

fun size_units :: "nat \<Rightarrow> nat \<Rightarrow> nat \<Rightarrow> nat \<Rightarrow> nat \<times> nat \<times> nat" where
  "size_units 0 whole frac unit = (whole, frac, unit)"
| "size_units (Suc k) whole frac unit =
     (if whole \<ge> 1024 then size_units k (whole div 1024) (whole mod 1024 * 10 div 1024) (unit + 1)
      else (whole, frac, unit))"

text \<open>The loop stops at unit 5, so it runs at most five times.\<close>

definition blockdev_format_size :: "nat \<Rightarrow> bytes \<Rightarrow> bytes" where
  "blockdev_format_size n out =
     (case size_units 5 n 0 0 of
        (whole, frac, unit) \<Rightarrow>
          let name = [''B'', ''KiB'', ''MiB'', ''GiB'', ''TiB'', ''PiB''] ! unit in
          if unit = 0
          then print_into out ''%llu %s'' [Val (of_nat whole), Str (Some (map char_byte name))]
          else print_into out ''%llu.%llu %s''
                 [Val (of_nat whole), Val (of_nat frac), Str (Some (map char_byte name))])"

section \<open>The table invariant\<close>

text \<open>
  A used partition lies inside a used disk; a disk has no parent and a positive sector size.
\<close>

definition dev_ok :: "'w blockdev list \<Rightarrow> 'w blockdev \<Rightarrow> bool" where
  "dev_ok ds d \<longleftrightarrow>
     (case bd_kind d of
        BLOCKDEV_KIND_DISK \<Rightarrow> bd_parent d = None \<and> 0 < bd_sector_size d
      | BLOCKDEV_KIND_PARTITION \<Rightarrow>
          (case bd_parent d of
             None \<Rightarrow> False
           | Some p \<Rightarrow> p < BLOCKDEV_MAX \<and> bd_used (ds ! p) \<and> bd_kind (ds ! p) = BLOCKDEV_KIND_DISK \<and>
               0 < bd_sectors d \<and> bd_start_lba d + bd_sectors d \<le> bd_sectors (ds ! p) \<and>
               bd_sector_size d = bd_sector_size (ds ! p)))"

definition table_ok :: "'w storage \<Rightarrow> bool" where
  "table_ok st \<longleftrightarrow> length (g_devices st) = BLOCKDEV_MAX \<and>
     (\<forall>i<BLOCKDEV_MAX. bd_used (dev st i) \<longrightarrow> dev_ok (g_devices st) (dev st i))"

lemma dev_set_dev: "i < length (g_devices st) \<Longrightarrow> dev (set_dev i f st) j = (if j = i then f (dev st i) else dev st j)"
  by (simp add: dev_def set_dev_def nth_list_update)

lemma length_set_dev [simp]: "length (g_devices (set_dev i f st)) = length (g_devices st)"
  by (simp add: set_dev_def)

lemma world_set_dev [simp]: "world (set_dev i f st) = world st" "oom (set_dev i f st) = oom st"
  by (simp_all add: set_dev_def)

lemma table_ok_dev: "table_ok st \<Longrightarrow> i < BLOCKDEV_MAX \<Longrightarrow> bd_used (dev st i) \<Longrightarrow> dev_ok (g_devices st) (dev st i)"
  by (simp add: table_ok_def)

lemma table_ok_length [simp]: "table_ok st \<Longrightarrow> length (g_devices st) = BLOCKDEV_MAX"
  by (simp add: table_ok_def)

lemma dev_ok_parent:
  assumes "dev_ok ds d" "bd_parent d = Some p"
  shows "p < BLOCKDEV_MAX" "bd_used (ds ! p)" "bd_kind (ds ! p) = BLOCKDEV_KIND_DISK"
    "bd_kind d = BLOCKDEV_KIND_PARTITION" "0 < bd_sectors d"
    "bd_start_lba d + bd_sectors d \<le> bd_sectors (ds ! p)" "bd_sector_size d = bd_sector_size (ds ! p)"
  using assms by (auto simp: dev_ok_def split: blockdev_kind.splits)

text \<open>
  A device may be replaced when the new one is in order and nothing that its children rely on changes.
\<close>

lemma table_ok_set_dev:
  assumes "table_ok st" "i < BLOCKDEV_MAX" "dev_ok (g_devices (set_dev i f st)) (f (dev st i))"
    and "bd_used (dev st i) \<Longrightarrow> bd_kind (dev st i) = BLOCKDEV_KIND_DISK \<Longrightarrow>
      bd_used (f (dev st i)) \<and> bd_kind (f (dev st i)) = BLOCKDEV_KIND_DISK \<and>
      bd_sectors (f (dev st i)) = bd_sectors (dev st i) \<and> bd_sector_size (f (dev st i)) = bd_sector_size (dev st i)"
  shows "table_ok (set_dev i f st)"
proof -
  have "dev_ok (g_devices (set_dev i f st)) (dev (set_dev i f st) j)"
    if j: "j < BLOCKDEV_MAX" "bd_used (dev (set_dev i f st) j)" for j
  proof (cases "j = i")
    case True
    then show ?thesis using assms by (simp add: dev_set_dev)
  next
    case False
    then have "dev_ok (g_devices st) (dev st j)" using j assms by (simp add: dev_set_dev table_ok_def)
    moreover have "g_devices (set_dev i f st) ! p = (if p = i then f (dev st i) else g_devices st ! p)" for p
      using dev_set_dev[of i st f p] assms by (simp add: dev_def)
    ultimately show ?thesis using False assms(1,2,4)
      by (auto simp: dev_set_dev dev_ok_def dev_def split: blockdev_kind.splits option.splits)
  qed
  then show ?thesis using assms(1) by (simp add: table_ok_def)
qed

lemma blockdev_alloc_Some:
  assumes "blockdev_alloc st = (Some i, st')"
  shows "i < BLOCKDEV_MAX" "\<not> bd_used (dev st i)"
    "st' = set_dev i (\<lambda>_. zero_dev\<lparr>bd_used := True, bd_mounted_drive := -1\<rparr>) st"
  using assms by (auto simp: blockdev_alloc_def find_Some_iff split: option.splits)

lemma blockdev_alloc_None: "blockdev_alloc st = (None, st') \<Longrightarrow> st' = st"
  by (auto simp: blockdev_alloc_def split: option.splits)

lemma set_dev_set_dev: "i < length (g_devices st) \<Longrightarrow> set_dev i g (set_dev i f st) = set_dev i (\<lambda>d. g (f d)) st"
  by (simp add: set_dev_def)

text \<open>A freshly allocated and then filled-in device.\<close>

lemma table_ok_new:
  assumes "table_ok st" "blockdev_alloc st = (Some i, st')"
    and "dev_ok (g_devices (set_dev i g st')) (g (zero_dev\<lparr>bd_used := True, bd_mounted_drive := -1\<rparr>))"
  shows "table_ok (set_dev i g st')"
proof -
  note a = blockdev_alloc_Some[OF assms(2)]
  have eq: "set_dev i g st' = set_dev i (\<lambda>d. g (zero_dev\<lparr>bd_used := True, bd_mounted_drive := -1\<rparr>)) st"
    unfolding a(3) using a(1) assms(1) by (subst set_dev_set_dev) simp_all
  show ?thesis using assms(3) unfolding eq
    by (intro table_ok_set_dev[OF assms(1) a(1)]) (use a(2) in auto)
qed

lemma blockdev_init_ok: "table_ok (blockdev_init st)"
  by (auto simp: table_ok_def blockdev_init_def dev_def zero_dev_def)

lemma blockdev_register_disk_ok:
  assumes "table_ok st" "blockdev_register_disk st pre m ss n c rd wr mx = (r, st')"
  shows "table_ok st'"
proof -
  consider (same) "st' = st"
    | (new) i st1 f nm md where "blockdev_alloc st = (Some i, st1)" "st' = set_dev i f st1" "0 < ss"
        "f = (\<lambda>d. d\<lparr>bd_kind := BLOCKDEV_KIND_DISK, bd_name := nm d, bd_model := md d,
             bd_sector_size := ss, bd_sectors := n, bd_ctx := c,
             bd_read := rd, bd_write := wr, bd_max_transfer := mx\<rparr>)"
    using assms(2) blockdev_alloc_None[of st]
    by (auto simp: blockdev_register_disk_def Let_def split: option.splits if_splits prod.splits)
  then show ?thesis
  proof cases
    case new
    then show ?thesis by (auto intro!: table_ok_new[OF assms(1) new(1)] simp: dev_ok_def zero_dev_def)
  qed (use assms(1) in simp)
qed

lemma blockdev_add_partition_ok:
  assumes "table_ok st" "blockdev_add_partition st disk number start n = (r, st')"
    and "\<And>k. disk = Some k \<Longrightarrow> k < BLOCKDEV_MAX \<and> bd_used (dev st k)"
  shows "table_ok st'"
proof -
  obtain k where disk: "disk = Some k \<or> st' = st"
    using assms(2) by (cases disk) (auto simp: blockdev_add_partition_def)
  let ?m = "bd_sectors (dev st k)"
  let ?P = "\<lambda>i. bd_used (dev st i) \<and> bd_parent (dev st i) = Some k \<and> bd_start_lba (dev st i) = start \<and>
    bd_sectors (dev st i) = n"
  show ?thesis
  proof (cases "st' = st")
    case ne: False
    then have dk: "disk = Some k" using disk by blast
    have c: "bd_kind (dev st k) = BLOCKDEV_KIND_DISK" "n \<noteq> 0" "start < ?m" "n \<le> ?m - start"
      using assms(2) ne unfolding dk by (auto simp: blockdev_add_partition_def split: if_splits)
    then have eq: "blockdev_add_partition st disk number start n =
      (case find ?P [0..<BLOCKDEV_MAX] of
         Some i \<Rightarrow> (Some i, set_dev i (relabel_partition (dev st k) number) st)
       | None \<Rightarrow> (case blockdev_alloc st of (None, st) \<Rightarrow> (None, st)
           | (Some i, st) \<Rightarrow> (Some i, set_dev i (fill_partition k (dev st k) number start n) st)))"
      unfolding dk blockdev_add_partition_def by simp
    show ?thesis
    proof (cases "find ?P [0..<BLOCKDEV_MAX]")
      case (Some i)
      then have i: "i < BLOCKDEV_MAX" "bd_used (dev st i)" by (auto simp: find_Some_iff)
      have st': "st' = set_dev i (relabel_partition (dev st k) number) st" using assms(2) eq Some by simp
      show ?thesis unfolding st'
      proof (rule table_ok_set_dev[OF assms(1) i(1)])
        show "dev_ok (g_devices (set_dev i (relabel_partition (dev st k) number) st)) (relabel_partition (dev st k) number (dev st i))"
          using table_ok_dev[OF assms(1) i] i(1) table_ok_length[OF assms(1)]
          by (auto simp: relabel_partition_def dev_ok_def set_dev_def nth_list_update dev_def
              split: blockdev_kind.splits option.splits)
      qed (simp add: relabel_partition_def)
    next
      case None
      then obtain i st1 where al: "blockdev_alloc st = (Some i, st1)"
        using assms(2) eq ne blockdev_alloc_None[of st] by (cases "blockdev_alloc st") (auto split: option.splits)
      have st': "st' = set_dev i (fill_partition k (dev st1 k) number start n) st1"
        using assms(2) eq None al by simp
      note a = blockdev_alloc_Some[OF al]
      have k: "k < BLOCKDEV_MAX" "bd_used (dev st k)" "k \<noteq> i" using assms(3)[OF dk] a(2) by auto
      then have d: "dev st1 k = dev st k" "g_devices (set_dev i f st1) ! k = dev st k" for f
        using a(1) assms(1) unfolding a(3) by (simp_all add: dev_set_dev) (simp add: set_dev_def dev_def)
      show ?thesis unfolding st'
        by (rule table_ok_new[OF assms(1) al]) (use c k d in \<open>simp add: fill_partition_def dev_ok_def\<close>)
    qed
  qed (use assms(1) in simp)
qed

lemma blockdev_remove_partitions_ok:
  assumes "table_ok st"
  shows "table_ok (blockdev_remove_partitions st disk)"
proof (cases disk)
  case (Some k)
  let ?f = "\<lambda>d. if bd_used d \<and> bd_parent d = Some k \<and> bd_mounted_drive d < 0 then d\<lparr>bd_used := False\<rparr> else d"
  let ?st = "blockdev_remove_partitions st disk"
  have d: "dev ?st i = ?f (dev st i)" "g_devices ?st ! i = ?f (g_devices st ! i)" if "i < BLOCKDEV_MAX" for i
    using that assms by (simp_all add: blockdev_remove_partitions_def Some dev_def)
  have "dev_ok (g_devices ?st) (dev ?st i)" if i: "i < BLOCKDEV_MAX" "bd_used (dev ?st i)" for i
  proof -
    have u: "bd_used (dev st i)" "dev ?st i = dev st i" using i d(1)[OF i(1)] by (auto split: if_splits)
    note ok = table_ok_dev[OF assms i(1) u(1)]
    have "g_devices ?st ! p = g_devices st ! p" if "bd_parent (dev st i) = Some p" for p
    proof -
      note par = dev_ok_parent[OF ok that]
      have "bd_parent (g_devices st ! p) = None"
        using table_ok_dev[OF assms par(1)] par(2,3) by (simp add: dev_def dev_ok_def)
      then show ?thesis using d(2)[OF par(1)] by simp
    qed
    then show ?thesis using ok u(2) by (auto simp: dev_ok_def split: blockdev_kind.splits option.splits)
  qed
  moreover have "length (g_devices ?st) = BLOCKDEV_MAX"
    using assms by (simp add: blockdev_remove_partitions_def Some)
  ultimately show ?thesis by (simp add: table_ok_def)
qed (use assms in \<open>simp add: blockdev_remove_partitions_def\<close>)

text \<open>The operations on the table, one per step; a driver passes only disks it got from the table.\<close>

inductive table_step :: "'w storage \<Rightarrow> 'w storage \<Rightarrow> bool" where
  register: "blockdev_register_disk st pre m ss n c rd wr mx = (r, st') \<Longrightarrow> table_step st st'"
| add: "blockdev_get st k = Some k \<Longrightarrow> blockdev_add_partition st (Some k) number start n = (r, st') \<Longrightarrow> table_step st st'"
| remove: "table_step st (blockdev_remove_partitions st disk)"
| mount: "blockdev_get st k = Some k \<Longrightarrow> table_step st (set_dev k (\<lambda>d. d\<lparr>bd_mounted_drive := m\<rparr>) st)"
| hardware: "table_step st (st\<lparr>world := w, oom := l\<rparr>)"

inductive_cases table_step_cases: "table_step st st'"

lemma table_step_ok: "table_step st st' \<Longrightarrow> table_ok st \<Longrightarrow> table_ok st'"
proof (induction rule: table_step.induct)
  case (add st k number start n r st')
  then show ?case using blockdev_add_partition_ok[of st "Some k"] by (auto simp: blockdev_get_def split: if_splits)
next
  case (mount st k m)
  then have k: "k < BLOCKDEV_MAX" "bd_used (dev st k)" by (auto simp: blockdev_get_def split: if_splits)
  show ?case
  proof (rule table_ok_set_dev[OF mount.prems k(1)])
    show "dev_ok (g_devices (set_dev k (\<lambda>d. d\<lparr>bd_mounted_drive := m\<rparr>) st)) ((dev st k)\<lparr>bd_mounted_drive := m\<rparr>)"
      using table_ok_dev[OF mount.prems k] k table_ok_length[OF mount.prems]
      by (auto simp: dev_ok_def set_dev_def nth_list_update dev_def split: blockdev_kind.splits option.splits)
  qed simp
next
  case (hardware st w l)
  then show ?case by (simp add: table_ok_def dev_def)
next
  case (register st pre m ss n c rd wr mx r st')
  show ?case by (rule blockdev_register_disk_ok[OF register(2,1)])
next
  case (remove st disk)
  then show ?case by (rule blockdev_remove_partitions_ok)
qed

section \<open>Where a device's sectors are\<close>

lemma resolve_disk: "bd_kind (dev st d) = BLOCKDEV_KIND_DISK \<Longrightarrow> resolve st d lba = Some (Some (d, lba))"
  by (subst resolve.simps) simp

lemma resolve_partition:
  assumes "table_ok st" "d < BLOCKDEV_MAX" "bd_used (dev st d)" "bd_parent (dev st d) = Some p"
    and "lba < bd_sectors (dev st d)" "bd_sectors (dev st p) < 2 ^ 64"
  shows "resolve st d lba = Some (Some (p, bd_start_lba (dev st d) + lba))"
proof -
  note par = dev_ok_parent[OF table_ok_dev[OF assms(1-3)] assms(4), folded dev_def]
  have "w64 (lba + bd_start_lba (dev st d)) = bd_start_lba (dev st d) + lba"
    using par(6) assms(5,6) by (simp add: w64_id)
  then show ?thesis using par assms(4) resolve_disk[OF par(3)] by (subst resolve.simps) simp
qed

text \<open>The disk behind a device and the device's first sector on it.\<close>

definition disk_of :: "'w storage \<Rightarrow> nat \<Rightarrow> nat" where
  "disk_of st d = (case bd_parent (dev st d) of None \<Rightarrow> d | Some p \<Rightarrow> p)"

definition base_of :: "'w storage \<Rightarrow> nat \<Rightarrow> nat" where
  "base_of st d = (case bd_parent (dev st d) of None \<Rightarrow> 0 | Some p \<Rightarrow> bd_start_lba (dev st d))"

lemma resolve_ok:
  assumes "table_ok st" "d < BLOCKDEV_MAX" "bd_used (dev st d)" "lba < bd_sectors (dev st d)"
    and "bd_sectors (dev st (disk_of st d)) < 2 ^ 64"
  shows "resolve st d lba = Some (Some (disk_of st d, base_of st d + lba))"
    "base_of st d + bd_sectors (dev st d) \<le> bd_sectors (dev st (disk_of st d))"
    "bd_sector_size (dev st (disk_of st d)) = bd_sector_size (dev st d)"
proof (atomize(full), cases "bd_parent (dev st d)")
  case None
  then have "bd_kind (dev st d) = BLOCKDEV_KIND_DISK"
    using table_ok_dev[OF assms(1-3)] by (auto simp: dev_ok_def split: blockdev_kind.splits)
  then show "resolve st d lba = Some (Some (disk_of st d, base_of st d + lba)) \<and>
      base_of st d + bd_sectors (dev st d) \<le> bd_sectors (dev st (disk_of st d)) \<and>
      bd_sector_size (dev st (disk_of st d)) = bd_sector_size (dev st d)"
    using None resolve_disk by (simp add: disk_of_def base_of_def)
next
  case (Some p)
  note par = dev_ok_parent[OF table_ok_dev[OF assms(1-3)] Some, folded dev_def]
  show "resolve st d lba = Some (Some (disk_of st d, base_of st d + lba)) \<and>
      base_of st d + bd_sectors (dev st d) \<le> bd_sectors (dev st (disk_of st d)) \<and>
      bd_sector_size (dev st (disk_of st d)) = bd_sector_size (dev st d)"
    using resolve_partition[OF assms(1-3) Some assms(4)] par assms(5) Some
    by (simp add: disk_of_def base_of_def)
qed

section \<open>What a driver promises\<close>

text \<open>
  The contract behind the callbacks: the medium is a sequence of \<open>cap\<close> sectors of \<open>ss\<close> bytes, a read
  inside it delivers their bytes, a write inside it replaces exactly the sectors named.
\<close>

locale disk_driver =
  fixes rd wr :: "'w blockdev_io_fn" and c ss cap :: nat and sane :: "'w \<Rightarrow> bool" and sector :: "'w \<Rightarrow> nat \<Rightarrow> bytes"
  assumes cap: "cap < 2 ^ 64" "0 < ss"
    and sector_length: "length (sector w k) = ss"
    and read_law: "sane w \<Longrightarrow> lba + n \<le> cap \<Longrightarrow> n * ss \<le> length buf \<Longrightarrow>
      rd w c lba n buf = (True, put_bytes buf 0 (concat (map (sector w) [lba..<lba + n])), w)"
    and write_law: "sane w \<Longrightarrow> lba + n \<le> cap \<Longrightarrow> n * ss \<le> length buf \<Longrightarrow>
      \<exists>w'. wr w c lba n buf = (True, buf, w') \<and> sane w' \<and>
        (\<forall>k. sector w' k = (if lba \<le> k \<and> k < lba + n then slice buf ((k - lba) * ss) ss else sector w k))"
begin

lemma length_sectors: "length (concat (map (sector w) [i..<i + n])) = n * ss"
  by (induction n) (simp_all add: sector_length)

lemma sectors_split:
  "concat (map (sector w) [i..<i + (m + n)]) =
   concat (map (sector w) [i..<i + m]) @ concat (map (sector w) [i + m..<i + m + n])"
  by (metis add.assoc concat_append le_add1 map_append upt_add_eq_append)

lemma put_bytes_split:
  "off + length xs + length ys \<le> length buf \<Longrightarrow>
   put_bytes (put_bytes buf off xs) (off + length xs) ys = put_bytes buf off (xs @ ys)"
  by (simp add: put_bytes_def ac_simps)

lemma put_bytes_drop: "off \<le> length buf \<Longrightarrow> take off buf @ put_bytes (drop off buf) 0 xs = put_bytes buf off xs"
  by (simp add: put_bytes_def add.commute)

lemma read_loop:
  "\<lbrakk>sane w; 0 < cm; lba + n \<le> cap; off + n * ss \<le> length buf\<rbrakk> \<Longrightarrow>
   io_loop rd c ss cm w lba n off buf =
     (True, put_bytes buf off (concat (map (sector w) [lba..<lba + n])), w)"
proof (induction n arbitrary: lba off buf rule: less_induct)
  case (less n)
  show ?case
  proof (cases "n = 0")
    case True
    then show ?thesis by (simp add: put_bytes_def io_loop_0)
  next
    case False
    define k where "k = (if n < cm then n else cm)"
    define r where "r = n - k"
    have n: "n = k + r" "0 < k" using False less.prems(2) by (auto simp: k_def r_def)
    let ?xs = "concat (map (sector w) [lba..<lba + k])" and ?ys = "concat (map (sector w) [lba + k..<lba + k + r])"
    have len: "length ?xs = k * ss" "length ?ys = r * ss" by (rule length_sectors)+
    have o1: "off + k * ss \<le> length buf" "off + k * ss + r * ss \<le> length buf"
      using less.prems(4) n by (simp_all add: algebra_simps)
    have rd: "rd w c lba k (drop off buf) = (True, put_bytes (drop off buf) 0 ?xs, w)"
      by (rule read_law) (use less.prems n o1 in auto)
    have b: "take off buf @ put_bytes (drop off buf) 0 ?xs = put_bytes buf off ?xs"
      by (rule put_bytes_drop) (use o1 in simp)
    have w: "w64 (lba + k) = lba + k" using less.prems(3) n cap by (simp add: w64_id)
    have "io_loop rd c ss cm w lba n off buf = io_loop rd c ss cm w (lba + k) r (off + k * ss) (put_bytes buf off ?xs)"
      using io_loop_step[of n cm rd w c lba off buf, folded k_def, OF _ less.prems(2) rd] n
      by (simp add: b w)
    also have "\<dots> = (True, put_bytes (put_bytes buf off ?xs) (off + k * ss) ?ys, w)"
      by (rule less.IH) (use less.prems n o1 len in auto)
    also have "put_bytes (put_bytes buf off ?xs) (off + k * ss) ?ys = put_bytes buf off (?xs @ ?ys)"
      using put_bytes_split[of off ?xs ?ys buf] o1 unfolding len by simp
    finally show ?thesis unfolding n(1) sectors_split .
  qed
qed

lemma write_loop:
  "\<lbrakk>sane w; 0 < cm; lba + n \<le> cap; off + n * ss \<le> length buf\<rbrakk> \<Longrightarrow>
   \<exists>w'. io_loop wr c ss cm w lba n off buf = (True, buf, w') \<and> sane w' \<and>
     (\<forall>k. sector w' k = (if lba \<le> k \<and> k < lba + n then slice buf (off + (k - lba) * ss) ss else sector w k))"
proof (induction n arbitrary: w lba off rule: less_induct)
  case (less n)
  show ?case
  proof (cases "n = 0")
    case True
    then show ?thesis using less.prems by (auto simp: io_loop_0)
  next
    case False
    define k where "k = (if n < cm then n else cm)"
    define r where "r = n - k"
    have n: "n = k + r" "0 < k" using False less.prems(2) by (auto simp: k_def r_def)
    have o1: "off + k * ss \<le> length buf" "off + k * ss + r * ss \<le> length buf"
      using less.prems(4) n by (simp_all add: algebra_simps)
    have l1: "lba + k \<le> cap" "k * ss \<le> length (drop off buf)" using less.prems(3) n o1 by simp_all
    obtain w1 where w1: "wr w c lba k (drop off buf) = (True, drop off buf, w1)" "sane w1"
      "\<And>j. sector w1 j = (if lba \<le> j \<and> j < lba + k then slice (drop off buf) ((j - lba) * ss) ss else sector w j)"
      using write_law[of w lba k "drop off buf", OF less.prems(1)] l1 by blast
    have w: "w64 (lba + k) = lba + k" using less.prems(3) n cap by (simp add: w64_id)
    obtain w2 where w2: "io_loop wr c ss cm w1 (lba + k) r (off + k * ss) buf = (True, buf, w2)" "sane w2"
      "\<And>j. sector w2 j = (if lba + k \<le> j \<and> j < lba + k + r
          then slice buf (off + k * ss + (j - (lba + k)) * ss) ss else sector w1 j)"
      using less.IH[of r w1 "lba + k" "off + k * ss"] less.prems n o1 w1(2) by auto
    have "io_loop wr c ss cm w lba n off buf = (True, buf, w2)"
      using io_loop_step[of n cm wr w c lba off buf, folded k_def, OF _ less.prems(2) w1(1)] n w2(1)
      by (simp add: w)
    moreover have "sector w2 j = (if lba \<le> j \<and> j < lba + n then slice buf (off + (j - lba) * ss) ss else sector w j)" for j
    proof (cases "lba + k \<le> j \<and> j < lba + n")
      case True
      then obtain i where "j = lba + k + i" using le_Suc_ex by blast
      then show ?thesis using True n w2(3)[of j] by (simp add: algebra_simps)
    next
      case False
      then show ?thesis using n w2(3)[of j] w1(3)[of j] by (auto simp: slice_def add.commute)
    qed
    ultimately show ?thesis using w2(2) by blast
  qed
qed

text \<open>A device whose disk is driven by the callbacks.\<close>

definition driven :: "'w storage \<Rightarrow> nat \<Rightarrow> bool" where
  "driven st d \<longleftrightarrow> table_ok st \<and> d < BLOCKDEV_MAX \<and> bd_used (dev st d) \<and> sane (world st) \<and>
     bd_read (dev st (disk_of st d)) = Some rd \<and> bd_write (dev st (disk_of st d)) = Some wr \<and>
     bd_ctx (dev st (disk_of st d)) = c \<and> bd_sector_size (dev st (disk_of st d)) = ss \<and>
     bd_sectors (dev st (disk_of st d)) = cap"

definition dev_sectors :: "'w storage \<Rightarrow> nat \<Rightarrow> nat \<Rightarrow> nat \<Rightarrow> bytes" where
  "dev_sectors st d lba n =
     concat (map (sector (world st)) [base_of st d + lba..<base_of st d + lba + n])"

lemma io_refused:
  assumes "driven st d" "0 < n" "bd_sectors (dev st d) < lba + n"
  shows "blockdev_read st (Some d) lba n buf = Some (False, buf, st)"
    "blockdev_write st (Some d) lba n buf = Some (False, st)"
  using assms by (auto simp: driven_def blockdev_read_def blockdev_write_def blockdev_io_def)

lemma read_device:
  assumes "driven st d" "lba + n \<le> bd_sectors (dev st d)" "n * ss \<le> length buf"
  shows "blockdev_read st (Some d) lba n buf = Some (True, put_bytes buf 0 (dev_sectors st d lba n), st)"
proof (cases "n = 0")
  case True
  then show ?thesis using assms(1)
    by (simp add: driven_def blockdev_read_def blockdev_io_def put_bytes_def dev_sectors_def)
next
  case False
  let ?k = "disk_of st d" and ?b = "base_of st d + lba"
  note a = assms(1)[unfolded driven_def]
  note r = resolve_ok[of st d lba] 
  have l: "lba < bd_sectors (dev st d)" using False assms(2) by simp
  have res: "resolve st d lba = Some (Some (?k, ?b))" "?b + n \<le> cap"
    using r a l cap(1) assms(2) by auto
  have "io_loop rd c ss (if bd_max_transfer (dev st ?k) \<noteq> 0 then bd_max_transfer (dev st ?k) else n) (world st) ?b n 0 buf =
      (True, put_bytes buf 0 (concat (map (sector (world st)) [?b..<?b + n])), world st)"
    by (rule read_loop) (use a res assms(3) False in auto)
  moreover have "\<not> bd_sectors (dev st d) - lba < n" using assms(2) by simp
  ultimately show ?thesis using a res(1) l False
    by (simp add: blockdev_read_def blockdev_io_def dev_sectors_def Let_def)
qed

lemma write_device:
  assumes "driven st d" "lba + n \<le> bd_sectors (dev st d)" "n * ss \<le> length buf"
  shows "\<exists>w'. blockdev_write st (Some d) lba n buf = Some (True, st\<lparr>world := w'\<rparr>) \<and> sane w' \<and>
    (\<forall>k. sector w' k = (if base_of st d + lba \<le> k \<and> k < base_of st d + lba + n
       then slice buf ((k - (base_of st d + lba)) * ss) ss else sector (world st) k))"
proof (cases "n = 0")
  case True
  then show ?thesis using assms(1)
    by (intro exI[of _ "world st"]) (auto simp: driven_def blockdev_write_def blockdev_io_def)
next
  case False
  let ?k = "disk_of st d" and ?b = "base_of st d + lba"
  note a = assms(1)[unfolded driven_def]
  note r = resolve_ok[of st d lba] 
  have l: "lba < bd_sectors (dev st d)" using False assms(2) by simp
  have res: "resolve st d lba = Some (Some (?k, ?b))" "?b + n \<le> cap"
    using r a l cap(1) assms(2) by auto
  have mx: "0 < (if bd_max_transfer (dev st ?k) \<noteq> 0 then bd_max_transfer (dev st ?k) else n)" using False by simp
  obtain w' where w': "io_loop wr c ss (if bd_max_transfer (dev st ?k) \<noteq> 0 then bd_max_transfer (dev st ?k) else n)
      (world st) ?b n 0 buf = (True, buf, w')" "sane w'"
    "\<And>k. sector w' k = (if ?b \<le> k \<and> k < ?b + n then slice buf ((k - ?b) * ss) ss else sector (world st) k)"
    using write_loop[OF _ mx res(2), of "world st" 0 buf] a assms(3) by auto
  have "\<not> bd_sectors (dev st d) - lba < n" using assms(2) by simp
  then have "blockdev_write st (Some d) lba n buf = Some (True, st\<lparr>world := w'\<rparr>)"
    using a res(1) l False w'(1) by (simp add: blockdev_write_def blockdev_io_def Let_def)
  then show ?thesis using w'(2,3) by blast
qed

lemma driven_world: "driven st d \<Longrightarrow> sane w' \<Longrightarrow> driven (st\<lparr>world := w'\<rparr>) d"
  by (simp add: driven_def table_ok_def dev_def disk_of_def)

lemma concat_slices:
  assumes "n * ss \<le> length buf"
  shows "concat (map (\<lambda>k. slice buf ((k - b) * ss) ss) [b..<b + n]) = take (n * ss) buf"
  using assms
proof (induction n)
  case (Suc n)
  have "take (Suc n * ss) buf = take (n * ss) buf @ slice buf (n * ss) ss"
    by (simp add: slice_def take_add[symmetric] add.commute)
  then show ?case using Suc by simp
qed simp

lemma write_read_device:
  assumes "driven st d" "lba + n \<le> bd_sectors (dev st d)" "n * ss \<le> length buf"
    and "blockdev_write st (Some d) lba n buf = Some (ok, st')"
  shows "ok" "driven st' d" "dev_sectors st' d lba n = take (n * ss) buf"
    "\<And>e l m. base_of st e + l + m \<le> base_of st d + lba \<or> base_of st d + lba + n \<le> base_of st e + l \<Longrightarrow>
      dev_sectors st' e l m = dev_sectors st e l m"
    "g_devices st' = g_devices st"
proof -
  let ?b = "base_of st d + lba"
  obtain w' where w': "st' = st\<lparr>world := w'\<rparr>" "ok" "sane w'"
    "\<And>k. sector w' k = (if ?b \<le> k \<and> k < ?b + n then slice buf ((k - ?b) * ss) ss else sector (world st) k)"
    using write_device[OF assms(1-3)] assms(4) by auto
  have base: "base_of st' e = base_of st e" for e by (auto simp: w'(1) base_of_def dev_def split: option.splits)
  show "ok" "driven st' d" "g_devices st' = g_devices st"
    using w' driven_world[OF assms(1)] by simp_all
  have "map (sector w') [?b..<?b + n] = map (\<lambda>k. slice buf ((k - ?b) * ss) ss) [?b..<?b + n]"
    by (rule map_cong) (simp_all add: w'(4))
  then show "dev_sectors st' d lba n = take (n * ss) buf"
    using concat_slices[OF assms(3), of ?b] unfolding dev_sectors_def base by (simp add: w'(1) del: map_eq_conv)
  show "dev_sectors st' e l m = dev_sectors st e l m"
    if "base_of st e + l + m \<le> ?b \<or> ?b + n \<le> base_of st e + l" for e l m
  proof -
    have "map (sector w') [base_of st e + l..<base_of st e + l + m] =
        map (sector (world st)) [base_of st e + l..<base_of st e + l + m]"
      by (rule map_cong) (use that in \<open>auto simp: w'(4)\<close>)
    then show ?thesis unfolding dev_sectors_def base by (simp add: w'(1) del: map_eq_conv)
  qed
qed

end

section \<open>Property\<close>

text \<open>
  C22. However disks are registered, partitions added, removed, mounted and unmounted, the table keeps its
  invariant: every used partition lies entirely inside a used disk with the same sector size, and no disk
  is ever removed under its partitions.
\<close>

theorem blockdev_table_invariant:
  assumes "table_step\<^sup>*\<^sup>* (blockdev_init st\<^sub>0) st" "i < BLOCKDEV_MAX" "bd_used (dev st i)"
    and "bd_kind (dev st i) = BLOCKDEV_KIND_PARTITION"
  shows "\<exists>p<BLOCKDEV_MAX. bd_parent (dev st i) = Some p \<and> bd_used (dev st p) \<and>
    bd_kind (dev st p) = BLOCKDEV_KIND_DISK \<and> 0 < bd_sectors (dev st i) \<and>
    bd_start_lba (dev st i) + bd_sectors (dev st i) \<le> bd_sectors (dev st p) \<and>
    bd_sector_size (dev st i) = bd_sector_size (dev st p)"
proof -
  have "table_ok st" using assms(1)
    by (induction rule: rtranclp_induct) (auto intro: blockdev_init_ok table_step_ok)
  from table_ok_dev[OF this assms(2,3)] show ?thesis
    using assms(4) by (auto simp: dev_ok_def dev_def split: option.splits)
qed

text \<open>A disk of 100 sectors with one partition of 40 sectors.\<close>

definition demo_io :: "unit blockdev_io_fn" where
  "demo_io w c lba n buf = (True, buf, w)"

definition demo_disk :: "unit storage" where
  "demo_disk =
     snd (blockdev_register_disk (blockdev_init \<lparr>g_devices = [], world = (), oom = []\<rparr>)
       (Some (map char_byte ''ram'')) None 512 100 0 (Some demo_io) (Some demo_io) 0)"

definition demo_table :: "unit storage" where
  "demo_table = snd (blockdev_add_partition demo_disk (Some 0) 1 10 40)"

lemma demo_slots: "[0..<BLOCKDEV_MAX] = 0 # 1 # [2..<BLOCKDEV_MAX]"
  by (simp add: BLOCKDEV_MAX_def upt_conv_Cons)

lemma demo_init: "i < BLOCKDEV_MAX \<Longrightarrow> dev (blockdev_init st) i = zero_dev"
  by (simp add: blockdev_init_def dev_def)

lemma demo_disk_dev:
  "length (g_devices demo_disk) = BLOCKDEV_MAX \<and> bd_used (dev demo_disk 0) \<and>
   bd_kind (dev demo_disk 0) = BLOCKDEV_KIND_DISK \<and> bd_sectors (dev demo_disk 0) = 100 \<and>
   bd_parent (dev demo_disk 0) = None \<and> (\<forall>j<BLOCKDEV_MAX. 0 < j \<longrightarrow> dev demo_disk j = zero_dev)"
proof -
  let ?st = "blockdev_init \<lparr>g_devices = [], world = (), oom = []\<rparr> :: unit storage"
  have l: "0 < BLOCKDEV_MAX" "length (g_devices ?st) = BLOCKDEV_MAX"
    by (simp_all add: BLOCKDEV_MAX_def blockdev_init_def)
  have "\<not> bd_used (dev ?st 0)" by (subst demo_init[OF l(1)]) (simp add: zero_dev_def)
  then have "find (\<lambda>i. \<not> bd_used (dev ?st i)) [0..<BLOCKDEV_MAX] = Some 0" by (simp add: demo_slots)
  then have "blockdev_alloc ?st = (Some 0, set_dev 0 (\<lambda>_. zero_dev\<lparr>bd_used := True, bd_mounted_drive := -1\<rparr>) ?st)"
    by (simp add: blockdev_alloc_def)
  then show ?thesis using l demo_init[of _ "\<lparr>g_devices = [], world = (), oom = []\<rparr>"]
    by (simp add: demo_disk_def blockdev_register_disk_def Let_def dev_set_dev zero_dev_def)
qed

lemma demo_table_dev:
  "bd_used (dev demo_table 1) \<and> bd_kind (dev demo_table 1) = BLOCKDEV_KIND_PARTITION"
proof -
  note d = demo_disk_dev
  have one: "1 < BLOCKDEV_MAX" by (simp add: BLOCKDEV_MAX_def)
  have "\<not> (bd_used (dev demo_disk i) \<and> bd_parent (dev demo_disk i) = Some 0 \<and>
      bd_start_lba (dev demo_disk i) = 10 \<and> bd_sectors (dev demo_disk i) = 40)" if "i < BLOCKDEV_MAX" for i
    using that d by (cases "i = 0") (auto simp: zero_dev_def)
  then have f: "find (\<lambda>i. bd_used (dev demo_disk i) \<and> bd_parent (dev demo_disk i) = Some 0 \<and>
      bd_start_lba (dev demo_disk i) = 10 \<and> bd_sectors (dev demo_disk i) = 40) [0..<BLOCKDEV_MAX] = None"
    by (auto simp: find_None_iff)
  have "find (\<lambda>i. \<not> bd_used (dev demo_disk i)) [0..<BLOCKDEV_MAX] = Some 1"
    using d one by (simp add: demo_slots zero_dev_def)
  then have "blockdev_alloc demo_disk = (Some 1, set_dev 1 (\<lambda>_. zero_dev\<lparr>bd_used := True, bd_mounted_drive := -1\<rparr>) demo_disk)"
    by (simp add: blockdev_alloc_def)
  then have "blockdev_add_partition demo_disk (Some 0) 1 10 40 = (Some 1,
      set_dev 1 (fill_partition 0 (dev (set_dev 1 (\<lambda>_. zero_dev\<lparr>bd_used := True, bd_mounted_drive := -1\<rparr>) demo_disk) 0) 1 10 40)
        (set_dev 1 (\<lambda>_. zero_dev\<lparr>bd_used := True, bd_mounted_drive := -1\<rparr>) demo_disk))"
    using d f by (simp add: blockdev_add_partition_def)
  then show ?thesis using d one by (simp add: demo_table_def dev_set_dev fill_partition_def)
qed

theorem blockdev_table_invariant_witness:
  "\<exists>p<BLOCKDEV_MAX. bd_parent (dev demo_table 1) = Some p \<and>
     bd_start_lba (dev demo_table 1) + bd_sectors (dev demo_table 1) \<le> bd_sectors (dev demo_table p)"
proof -
  let ?st = "blockdev_init \<lparr>g_devices = [], world = (), oom = []\<rparr> :: unit storage"
  have "table_step ?st demo_disk"
    unfolding demo_disk_def by (rule table_step.register) (rule prod.collapse[symmetric])
  moreover have "blockdev_get demo_disk 0 = Some 0"
    using demo_disk_dev by (simp add: blockdev_get_def BLOCKDEV_MAX_def)
  then have "table_step demo_disk demo_table"
    unfolding demo_table_def by (rule table_step.add) (rule prod.collapse[symmetric])
  ultimately have "table_step\<^sup>*\<^sup>* ?st demo_table" by (meson converse_rtranclp_into_rtranclp r_into_rtranclp)
  moreover have "1 < BLOCKDEV_MAX" by (simp add: BLOCKDEV_MAX_def)
  ultimately show ?thesis using blockdev_table_invariant[of _ demo_table 1] demo_table_dev by blast
qed

end
