(* ===== verification/Ramdisk.thy ===== *)
theory Ramdisk
  imports Blockdev
begin

text \<open>
  The RAM disk, \<^verbatim>\<open>src/impl/storage/ramdisk.c\<close>: a buffer in memory registered as a block device. It
  provides the driver contract that the block layer relies on, so the properties of partitions proved
  there hold for it.
\<close>

section \<open>The driver\<close>

definition RAMDISK_SECTOR :: nat where "RAMDISK_SECTOR = 512"
definition RAMDISK_MIN_MIB :: nat where "RAMDISK_MIN_MIB = 16"

text \<open>The memory and the static \<^verbatim>\<open>g_ramdisk\<close>; \<open>rd_data = 0\<close> while there is no disk.\<close>

record ram =
  ram_mem :: memory
  rd_data :: nat
  rd_sectors :: nat

definition ramdisk_read :: "ram blockdev_io_fn" where
  "ramdisk_read w c lba count buf =
     (if w64 (lba + count) > rd_sectors w then (False, buf, w)
      else (True, put_bytes buf 0
              (map (\<lambda>i. ram_mem w (rd_data w + lba * RAMDISK_SECTOR + i)) [0..<count * RAMDISK_SECTOR]), w))"

definition ramdisk_write :: "ram blockdev_io_fn" where
  "ramdisk_write w c lba count buf =
     (if w64 (lba + count) > rd_sectors w then (False, buf, w)
      else (True, buf, w\<lparr>ram_mem := (\<lambda>a.
              if rd_data w + lba * RAMDISK_SECTOR \<le> a \<and> a < rd_data w + lba * RAMDISK_SECTOR + count * RAMDISK_SECTOR
              then buf ! (a - (rd_data w + lba * RAMDISK_SECTOR)) else ram_mem w a)\<rparr>))"

text \<open>
  The loop that halves the size until the heap has room: \<open>alloc_at\<close> is the heap's answer to each request,
  \<open>0\<close> for NULL.
\<close>

function ramdisk_fit :: "(nat \<Rightarrow> nat) \<Rightarrow> nat \<Rightarrow> (nat \<times> nat) option" where
  "ramdisk_fit alloc_at mib =
     (if mib < RAMDISK_MIN_MIB then None
      else let data = alloc_at (mib * 2 ^ 20) in
        if data \<noteq> 0 then Some (data, mib) else ramdisk_fit alloc_at (mib div 2))"
  by pat_completeness auto
termination
  by (relation "measure (\<lambda>(f, mib). mib)") (auto simp: RAMDISK_MIN_MIB_def)

declare ramdisk_fit.simps [simp del]

definition ramdisk_create :: "(nat \<Rightarrow> nat) \<Rightarrow> ram storage \<Rightarrow> nat \<Rightarrow> nat option \<times> ram storage" where
  "ramdisk_create alloc_at st mib =
     (if rd_data (world st) \<noteq> 0 then (None, st)
      else
        let mib = (if mib < RAMDISK_MIN_MIB then RAMDISK_MIN_MIB else mib) in
        case ramdisk_fit alloc_at mib of
          None \<Rightarrow> (None, st)
        | Some (data, mib) \<Rightarrow>
            let w = world st;
                n = mib * 2 ^ 20 div RAMDISK_SECTOR;
                w1 = w\<lparr>ram_mem := memset data 0 (mib * 2 ^ 20) (ram_mem w), rd_data := data, rd_sectors := n\<rparr>
            in case blockdev_register_disk (st\<lparr>world := w1\<rparr>) (Some (map char_byte ''ram''))
                   (Some (map char_byte ''RAM disk'')) RAMDISK_SECTOR n 0 (Some ramdisk_read) (Some ramdisk_write) 0 of
                 (None, st') \<Rightarrow> (None, st'\<lparr>world := (world st')\<lparr>rd_data := 0\<rparr>\<rparr>)
               | (Some d, st') \<Rightarrow> (Some d, st'))"

section \<open>The driver contract\<close>

definition ram_sane :: "nat \<Rightarrow> ram \<Rightarrow> bool" where
  "ram_sane cap w \<longleftrightarrow> rd_sectors w = cap"

definition ram_sector :: "ram \<Rightarrow> nat \<Rightarrow> bytes" where
  "ram_sector w k = map (\<lambda>i. ram_mem w (rd_data w + k * RAMDISK_SECTOR + i)) [0..<RAMDISK_SECTOR]"

lemma ram_sectors:
  "concat (map (ram_sector w) [lba..<lba + n]) =
   map (\<lambda>i. ram_mem w (rd_data w + lba * RAMDISK_SECTOR + i)) [0..<n * RAMDISK_SECTOR]"
proof (induction n)
  case (Suc n)
  have "[0..<Suc n * RAMDISK_SECTOR] = [0..<n * RAMDISK_SECTOR] @ map (\<lambda>i. i + n * RAMDISK_SECTOR) [0..<RAMDISK_SECTOR]"
    using upt_add_eq_append[of 0 "n * RAMDISK_SECTOR" RAMDISK_SECTOR] by (simp add: map_add_upt add.commute)
  then show ?case using Suc by (simp add: ram_sector_def comp_def algebra_simps)
qed simp

lemma ram_write_sector:
  assumes "n * RAMDISK_SECTOR \<le> length buf"
    and "m = (\<lambda>a. if d + lba * RAMDISK_SECTOR \<le> a \<and> a < d + lba * RAMDISK_SECTOR + n * RAMDISK_SECTOR
           then buf ! (a - (d + lba * RAMDISK_SECTOR)) else ram_mem w a)" "d = rd_data w"
  shows "ram_sector (w\<lparr>ram_mem := m\<rparr>) k =
    (if lba \<le> k \<and> k < lba + n then slice buf ((k - lba) * RAMDISK_SECTOR) RAMDISK_SECTOR else ram_sector w k)"
proof (cases "lba \<le> k \<and> k < lba + n")
  case True
  then obtain j where j: "k = lba + j" "j < n" by (metis add_less_cancel_left le_iff_add)
  have le: "j * RAMDISK_SECTOR + RAMDISK_SECTOR \<le> n * RAMDISK_SECTOR"
    using j(2) mult_le_mono1[of "Suc j" n RAMDISK_SECTOR] by simp
  show ?thesis
  proof (rule nth_equalityI)
    show "length (ram_sector (w\<lparr>ram_mem := m\<rparr>) k) = length (if lba \<le> k \<and> k < lba + n
        then slice buf ((k - lba) * RAMDISK_SECTOR) RAMDISK_SECTOR else ram_sector w k)"
      using True j le assms(1) by (simp add: ram_sector_def)
    fix i assume "i < length (ram_sector (w\<lparr>ram_mem := m\<rparr>) k)"
    then have i: "i < RAMDISK_SECTOR" by (simp add: ram_sector_def)
    then have "ram_sector (w\<lparr>ram_mem := m\<rparr>) k ! i = buf ! (j * RAMDISK_SECTOR + i)"
      using le assms(2,3) j by (simp add: ram_sector_def algebra_simps)
    then show "ram_sector (w\<lparr>ram_mem := m\<rparr>) k ! i = (if lba \<le> k \<and> k < lba + n
        then slice buf ((k - lba) * RAMDISK_SECTOR) RAMDISK_SECTOR else ram_sector w k) ! i"
      using True j i le assms(1) by (simp add: slice_def)
  qed
next
  case False
  have "m (rd_data w + k * RAMDISK_SECTOR + i) = ram_mem w (rd_data w + k * RAMDISK_SECTOR + i)"
    if "i < RAMDISK_SECTOR" for i
  proof (cases "k < lba")
    case True
    then have "k * RAMDISK_SECTOR + RAMDISK_SECTOR \<le> lba * RAMDISK_SECTOR"
      using mult_le_mono1[of "Suc k" lba RAMDISK_SECTOR] by simp
    then show ?thesis using that assms(2,3) by simp
  next
    case ge: False
    then have "lba * RAMDISK_SECTOR + n * RAMDISK_SECTOR \<le> k * RAMDISK_SECTOR"
      using False mult_le_mono1[of "lba + n" k RAMDISK_SECTOR] by (simp add: add_mult_distrib)
    then show ?thesis using that assms(2,3) by simp
  qed
  then show ?thesis using False by (auto simp: ram_sector_def)
qed

lemma ram_contract:
  assumes "cap < 2 ^ 64"
  shows "disk_driver ramdisk_read ramdisk_write c RAMDISK_SECTOR cap (ram_sane cap) ram_sector"
proof
  show "cap < 2 ^ 64" "0 < RAMDISK_SECTOR" using assms by (simp_all add: RAMDISK_SECTOR_def)
  show "length (ram_sector w k) = RAMDISK_SECTOR" for w k by (simp add: ram_sector_def)
  fix w lba n and buf :: bytes
  assume a: "ram_sane cap w" "lba + n \<le> cap" "n * RAMDISK_SECTOR \<le> length buf"
  then have "w64 (lba + n) \<le> rd_sectors w" using assms by (simp add: w64_id ram_sane_def)
  then show "ramdisk_read w c lba n buf = (True, put_bytes buf 0 (concat (map (ram_sector w) [lba..<lba + n])), w)"
    and "\<exists>w'. ramdisk_write w c lba n buf = (True, buf, w') \<and> ram_sane cap w' \<and>
      (\<forall>k. ram_sector w' k = (if lba \<le> k \<and> k < lba + n then slice buf ((k - lba) * RAMDISK_SECTOR) RAMDISK_SECTOR
        else ram_sector w k))"
    using a ram_write_sector[OF a(3), where lba = lba and w = w, OF refl refl]
    by (simp_all add: ramdisk_read_def ramdisk_write_def ram_sectors ram_sane_def)
qed

interpretation ram_io: disk_driver ramdisk_read ramdisk_write 0 RAMDISK_SECTOR "unat cap" "ram_sane (unat cap)" ram_sector
  for cap :: u64
  by (rule ram_contract) (use unsigned_less[of cap] in simp)

section \<open>Creating the disk\<close>

lemma ramdisk_fit_Some:
  "ramdisk_fit alloc_at mib = Some (data, n) \<Longrightarrow> RAMDISK_MIN_MIB \<le> n \<and> n \<le> mib \<and> data = alloc_at (n * 2 ^ 20) \<and> data \<noteq> 0"
proof (induction alloc_at mib rule: ramdisk_fit.induct)
  case (1 alloc_at mib)
  show ?case
  proof (cases "alloc_at (mib * 2 ^ 20) = 0")
    case True
    then have "\<not> mib < RAMDISK_MIN_MIB" "ramdisk_fit alloc_at (mib div 2) = Some (data, n)"
      using "1.prems" by (subst (asm) ramdisk_fit.simps; auto simp: Let_def split: if_splits)+
    then show ?thesis using "1.IH" True by force
  next
    case False
    then show ?thesis using "1.prems" by (subst (asm) ramdisk_fit.simps) (auto simp: Let_def split: if_splits)
  qed
qed

section \<open>Property\<close>

text \<open>A device on the RAM disk.\<close>

definition ram_backed :: "ram storage \<Rightarrow> nat \<Rightarrow> bool" where
  "ram_backed st d \<longleftrightarrow> table_ok st \<and> d < BLOCKDEV_MAX \<and> bd_used (dev st d) \<and>
     bd_read (dev st (disk_of st d)) = Some ramdisk_read \<and> bd_write (dev st (disk_of st d)) = Some ramdisk_write \<and>
     bd_ctx (dev st (disk_of st d)) = 0 \<and> bd_sector_size (dev st (disk_of st d)) = RAMDISK_SECTOR \<and>
     bd_sectors (dev st (disk_of st d)) = rd_sectors (world st) \<and> rd_sectors (world st) < 2 ^ 64"

lemma ram_backed_driven: "ram_backed st d \<Longrightarrow> ram_io.driven (of_nat (rd_sectors (world st))) st d"
  unfolding ram_io.driven_def by (simp add: ram_backed_def ram_sane_def unat_of_nat)


text \<open>Two partitions of 8 sectors on a RAM disk of 10000 sectors.\<close>

definition ram_demo_disk :: "ram blockdev" where
  "ram_demo_disk = zero_dev\<lparr>bd_used := True, bd_sector_size := 512, bd_sectors := 10000,
     bd_read := Some ramdisk_read, bd_write := Some ramdisk_write\<rparr>"

definition ram_demo_part :: "nat \<Rightarrow> ram blockdev" where
  "ram_demo_part start = zero_dev\<lparr>bd_used := True, bd_kind := BLOCKDEV_KIND_PARTITION, bd_sector_size := 512,
     bd_sectors := 8, bd_parent := Some 0, bd_start_lba := start\<rparr>"

definition ram_demo :: "ram storage" where
  "ram_demo = \<lparr>g_devices = [ram_demo_disk, ram_demo_part 2048, ram_demo_part 4096] @ replicate 45 zero_dev,
     world = \<lparr>ram_mem = (\<lambda>_. 0), rd_data = 4096, rd_sectors = 10000\<rparr>, oom = []\<rparr>"

lemma ram_demo_dev:
  "dev ram_demo 0 = ram_demo_disk" "dev ram_demo (Suc 0) = ram_demo_part 2048" "dev ram_demo 2 = ram_demo_part 4096"
  "i < 45 \<Longrightarrow> dev ram_demo (3 + i) = zero_dev"
  by (simp_all add: ram_demo_def dev_def)

lemma ram_demo_ok: "table_ok ram_demo"
proof -
  have z: "g_devices ram_demo ! 0 = ram_demo_disk" by (simp add: ram_demo_def)
  have "dev_ok (g_devices ram_demo) (dev ram_demo i)" if "i < BLOCKDEV_MAX" "bd_used (dev ram_demo i)" for i
  proof -
    have "i < 48" using that by (simp add: BLOCKDEV_MAX_def)
    moreover have "\<not> 3 \<le> i"
    proof
      assume "3 \<le> i"
      then have "dev ram_demo i = zero_dev" using ram_demo_dev(4)[of "i - 3"] \<open>i < 48\<close> by simp
      then show False using that(2) by (simp add: zero_dev_def)
    qed
    ultimately consider "i = 0" | "i = 1" | "i = 2" by linarith
    then show ?thesis
      by cases (simp_all add: ram_demo_dev ram_demo_disk_def ram_demo_part_def dev_ok_def z zero_dev_def BLOCKDEV_MAX_def)
  qed
  then show ?thesis by (simp add: table_ok_def ram_demo_def BLOCKDEV_MAX_def)
qed


end
