(* ===== verification/Partition.thy ===== *)
theory Partition
  imports Ramdisk "HOL-Library.Multiset"
begin

text \<open>
  MBR and GPT partition tables, \<^verbatim>\<open>src/impl/storage/partition.c\<close>: the on-disk layouts, the checksums, reading
  and writing a table through the block layer, scanning it into block devices, and adding and deleting
  partitions. Packed structures are encoded and decoded field by field. Random bytes come from
  \<^verbatim>\<open>random.c\<close> and are arguments. As in the block layer, an option result stands for I/O that may not end
  on a cyclic device table, and \<open>oom\<close> decides which allocations fail.
\<close>

section \<open>On-disk layouts\<close>

record gpt_header =
  gh_signature :: bytes
  gh_revision :: nat
  gh_header_size :: nat
  gh_header_crc32 :: nat
  gh_reserved :: nat
  gh_my_lba :: nat
  gh_alternate_lba :: nat
  gh_first_usable_lba :: nat
  gh_last_usable_lba :: nat
  gh_disk_guid :: bytes
  gh_entries_lba :: nat
  gh_num_entries :: nat
  gh_entry_size :: nat
  gh_entries_crc32 :: nat

record gpt_entry =
  ge_type_guid :: bytes
  ge_unique_guid :: bytes
  ge_first_lba :: nat
  ge_last_lba :: nat
  ge_attributes :: nat
  ge_name :: "nat list"

definition header_bytes :: "gpt_header \<Rightarrow> bytes" where
  "header_bytes h =
     gh_signature h @ le_bytes 4 (gh_revision h) @ le_bytes 4 (gh_header_size h) @ le_bytes 4 (gh_header_crc32 h) @
     le_bytes 4 (gh_reserved h) @ le_bytes 8 (gh_my_lba h) @ le_bytes 8 (gh_alternate_lba h) @
     le_bytes 8 (gh_first_usable_lba h) @ le_bytes 8 (gh_last_usable_lba h) @ gh_disk_guid h @
     le_bytes 8 (gh_entries_lba h) @ le_bytes 4 (gh_num_entries h) @ le_bytes 4 (gh_entry_size h) @
     le_bytes 4 (gh_entries_crc32 h)"

definition header_of :: "bytes \<Rightarrow> gpt_header" where
  "header_of b =
     \<lparr>gh_signature = slice b 0 8, gh_revision = le_value (slice b 8 4), gh_header_size = le_value (slice b 12 4),
      gh_header_crc32 = le_value (slice b 16 4), gh_reserved = le_value (slice b 20 4),
      gh_my_lba = le_value (slice b 24 8), gh_alternate_lba = le_value (slice b 32 8),
      gh_first_usable_lba = le_value (slice b 40 8), gh_last_usable_lba = le_value (slice b 48 8),
      gh_disk_guid = slice b 56 16, gh_entries_lba = le_value (slice b 72 8),
      gh_num_entries = le_value (slice b 80 4), gh_entry_size = le_value (slice b 84 4),
      gh_entries_crc32 = le_value (slice b 88 4)\<rparr>"

definition entry_bytes :: "gpt_entry \<Rightarrow> bytes" where
  "entry_bytes e =
     ge_type_guid e @ ge_unique_guid e @ le_bytes 8 (ge_first_lba e) @ le_bytes 8 (ge_last_lba e) @
     le_bytes 8 (ge_attributes e) @ concat (map (le_bytes 2) (ge_name e))"

definition entry_of :: "bytes \<Rightarrow> gpt_entry" where
  "entry_of b =
     \<lparr>ge_type_guid = slice b 0 16, ge_unique_guid = slice b 16 16, ge_first_lba = le_value (slice b 32 8),
      ge_last_lba = le_value (slice b 40 8), ge_attributes = le_value (slice b 48 8),
      ge_name = map (\<lambda>i. le_value (slice b (56 + 2 * i) 2)) [0..<36]\<rparr>"

definition GPT_ENTRIES :: nat where "GPT_ENTRIES = 128"
definition GPT_ENTRY_SIZE :: nat where "GPT_ENTRY_SIZE = 128"
definition GPT_ENTRY_BYTES :: nat where "GPT_ENTRY_BYTES = GPT_ENTRIES * GPT_ENTRY_SIZE"

definition zero_entry :: gpt_entry where
  "zero_entry = \<lparr>ge_type_guid = replicate 16 0, ge_unique_guid = replicate 16 0, ge_first_lba = 0,
     ge_last_lba = 0, ge_attributes = 0, ge_name = replicate 36 0\<rparr>"

definition GUID_ESP :: bytes where
  "GUID_ESP = [0x28,0x73,0x2A,0xC1,0x1F,0xF8,0xD2,0x11,0xBA,0x4B,0x00,0xA0,0xC9,0x3E,0xC9,0x3B]"
definition GUID_BIOS_BOOT :: bytes where
  "GUID_BIOS_BOOT = [0x48,0x61,0x68,0x21,0x49,0x64,0x6F,0x6E,0x74,0x4E,0x65,0x65,0x64,0x45,0x46,0x49]"
definition GUID_BASIC_DATA :: bytes where
  "GUID_BASIC_DATA = [0xA2,0xA0,0xD0,0xEB,0xE5,0xB9,0x33,0x44,0x87,0xC0,0x68,0xB6,0xB7,0x26,0x99,0xC7]"
definition GUID_MINIMAFS :: bytes where
  "GUID_MINIMAFS = [0x69,0x6E,0x69,0x4D,0x61,0x6D,0x53,0x46,0xB0,0xA7,0x4D,0x4F,0x53,0x4D,0x46,0x53]"

definition PART_MBR_TYPE_MINIMAFS :: u8 where "PART_MBR_TYPE_MINIMAFS = 0x7F"
definition PART_MBR_TYPE_ESP :: u8 where "PART_MBR_TYPE_ESP = 0xEF"
definition PART_MBR_TYPE_FAT32LBA :: u8 where "PART_MBR_TYPE_FAT32LBA = 0x0C"
definition PART_MBR_TYPE_GPT :: u8 where "PART_MBR_TYPE_GPT = 0xEE"
definition PART_ALIGN_BYTES :: nat where "PART_ALIGN_BYTES = 1024 * 1024"

datatype partition_table = PART_TABLE_NONE | PART_TABLE_MBR | PART_TABLE_GPT | PART_TABLE_AUTO

datatype partition_kind =
  PART_KIND_MINIMAFS | PART_KIND_ESP | PART_KIND_BIOS_BOOT | PART_KIND_FAT | PART_KIND_OTHER

section \<open>Checksums, GUIDs and sizes\<close>

definition crc_round :: "u32 \<Rightarrow> u32" where
  "crc_round c = (if c AND 1 \<noteq> 0 then 0xEDB88320 XOR drop_bit 1 c else drop_bit 1 c)"

definition crc_table :: "u32 list" where
  "crc_table = map (\<lambda>i. (crc_round ^^ 8) (of_nat i)) [0..<256]"

definition crc_update :: "u32 \<Rightarrow> u8 \<Rightarrow> u32" where
  "crc_update crc b = crc_table ! unat ((crc XOR ucast b) AND 0xFF) XOR drop_bit 8 crc"

definition partition_crc32 :: "bytes \<Rightarrow> nat" where
  "partition_crc32 bs = unat (foldl crc_update 0xFFFFFFFF bs XOR 0xFFFFFFFF)"

definition guid_order :: "nat list" where
  "guid_order = [3,2,1,0, 5,4, 7,6, 8,9, 10,11,12,13,14,15]"

definition partition_guid_to_string :: "bytes \<Rightarrow> bytes" where
  "partition_guid_to_string g =
     concat (map (\<lambda>i. (if i = 4 \<or> i = 6 \<or> i = 8 \<or> i = 10 then [45] else []) @
         (let b = g ! (guid_order ! i); hex = map char_byte ''0123456789abcdef''
          in [hex ! unat (drop_bit 4 b), hex ! unat (b AND 15)])) [0..<16])"

definition guid_is_zero :: "bytes \<Rightarrow> bool" where
  "guid_is_zero g = list_all (\<lambda>i. g ! i = 0) [0..<16]"

text \<open>The 16 random bytes are the argument.\<close>

definition guid_random :: "bytes \<Rightarrow> bytes" where
  "guid_random rnd = rnd[7 := (rnd ! 7 AND 0x0F) OR 0x40, 8 := (rnd ! 8 AND 0x3F) OR 0x80]"

definition align_lba :: "'w blockdev \<Rightarrow> nat" where
  "align_lba disk = (let a = PART_ALIGN_BYTES div bd_sector_size disk in if a \<noteq> 0 then a else 1)"

definition round_up :: "nat \<Rightarrow> nat \<Rightarrow> nat" where
  "round_up v a = w64 (sub64 (w64 (v + a)) 1 div a * a)"

definition read_sectors :: "'w storage \<Rightarrow> nat \<Rightarrow> nat \<Rightarrow> nat \<Rightarrow> (bytes option \<times> 'w storage) option" where
  "read_sectors st disk lba cnt =
     (case alloc_buffer st (w64 (cnt * bd_sector_size (dev st disk))) of
        (None, st) \<Rightarrow> Some (None, st)
      | (Some buf, st) \<Rightarrow>
          do {
            (ok, buf, st) \<leftarrow> blockdev_read st (Some disk) lba cnt buf;
            Some (if ok then Some buf else None, st)
          })"

section \<open>GPT in memory\<close>

record gpt =
  g_header :: gpt_header
  g_entries :: "gpt_entry list"
  g_entry_sectors :: nat

definition gpt_entry_sectors :: "'w blockdev \<Rightarrow> nat" where
  "gpt_entry_sectors disk = w32 ((GPT_ENTRY_BYTES + bd_sector_size disk - 1) div bd_sector_size disk)"

definition entries_bytes :: "gpt_entry list \<Rightarrow> bytes" where
  "entries_bytes es = concat (map entry_bytes es)"

definition entries_of :: "bytes \<Rightarrow> gpt_entry list" where
  "entries_of bs = map (\<lambda>i. entry_of (slice bs (i * GPT_ENTRY_SIZE) GPT_ENTRY_SIZE)) [0..<GPT_ENTRIES]"

definition gpt_load :: "'w storage \<Rightarrow> nat \<Rightarrow> (gpt option \<times> 'w storage) option" where
  "gpt_load st disk =
     do {
       (hdr, st) \<leftarrow> read_sectors st disk 1 1;
       (case hdr of
          None \<Rightarrow> Some (None, st)
        | Some hdr \<Rightarrow>
            let h = header_of hdr in
            if gh_signature h \<noteq> map char_byte ''EFI PART'' \<or> gh_header_size h < 92 \<or>
               gh_header_size h > bd_sector_size (dev st disk) then Some (None, st)
            else if partition_crc32 (header_bytes (h\<lparr>gh_header_crc32 := 0\<rparr>)) \<noteq> gh_header_crc32 h
            then Some (None, st)
            else if gh_entry_size h \<noteq> GPT_ENTRY_SIZE \<or> gh_num_entries h = 0 \<or> gh_num_entries h > GPT_ENTRIES
            then Some (None, st)
            else
              do {
                let es = gpt_entry_sectors (dev st disk);
                (raw, st) \<leftarrow> read_sectors st disk (gh_entries_lba h) es;
                (case raw of
                   None \<Rightarrow> Some (None, st)
                 | Some raw \<Rightarrow>
                     (case alloc_buffer st GPT_ENTRY_BYTES of
                        (None, st) \<Rightarrow> Some (None, st)
                      | (Some buf, st) \<Rightarrow>
                          let len = gh_num_entries h * GPT_ENTRY_SIZE;
                              bs = put_bytes buf 0 (take len raw)
                          in if partition_crc32 (take len bs) \<noteq> gh_entries_crc32 h then Some (None, st)
                             else Some (Some \<lparr>g_header = h, g_entries = entries_of bs, g_entry_sectors = es\<rparr>, st)))
              })
     }"

text \<open>The bytes of the protective entry: type \<open>0xEE\<close>, sector 1 on, the size clamped to 32 bits.\<close>

definition protective_entry :: "nat \<Rightarrow> bytes" where
  "protective_entry sectors =
     (let n = sub64 sectors 1
      in [0, 0, 0x02, 0, PART_MBR_TYPE_GPT, 0xFF, 0xFF, 0xFF] @ le_bytes 4 1 @
         le_bytes 4 (if n > 0xFFFFFFFF then 0xFFFFFFFF else n))"

definition write_protective_mbr :: "'w storage \<Rightarrow> nat \<Rightarrow> (bool \<times> 'w storage) option" where
  "write_protective_mbr st disk =
     (case alloc_buffer st (bd_sector_size (dev st disk)) of
        (None, st) \<Rightarrow> Some (False, st)
      | (Some mbr, st) \<Rightarrow>
          do {
            (ok, mbr, st) \<leftarrow> blockdev_read st (Some disk) 0 1 mbr;
            let mbr = put_bytes mbr 446 (replicate 64 0);
            let mbr = put_bytes mbr 446 (protective_entry (bd_sectors (dev st disk)));
            let mbr = mbr[510 := 0x55, 511 := 0xAA];
            blockdev_write st (Some disk) 0 1 mbr
          })"

text \<open>A later write happens only when all earlier ones succeeded.\<close>

definition and_write ::
  "bool \<times> 'w storage \<Rightarrow> nat \<Rightarrow> nat \<Rightarrow> nat \<Rightarrow> bytes \<Rightarrow> (bool \<times> 'w storage) option" where
  "and_write r disk lba cnt buf =
     (case r of (ok, st) \<Rightarrow> if ok then blockdev_write st (Some disk) lba cnt buf else Some (False, st))"

definition sealed :: "gpt_header \<Rightarrow> gpt_header" where
  "sealed h = h\<lparr>gh_header_crc32 := partition_crc32 (header_bytes (h\<lparr>gh_header_crc32 := 0\<rparr>))\<rparr>"

definition gpt_backup :: "gpt_header \<Rightarrow> nat \<Rightarrow> nat \<Rightarrow> gpt_header" where
  "gpt_backup h last_lba es =
     sealed (h\<lparr>gh_my_lba := last_lba, gh_alternate_lba := 1, gh_entries_lba := sub64 last_lba es\<rparr>)"

definition gpt_primary :: "gpt_header \<Rightarrow> nat \<Rightarrow> gpt_header" where
  "gpt_primary h last_lba = sealed (h\<lparr>gh_my_lba := 1, gh_alternate_lba := last_lba, gh_entries_lba := 2\<rparr>)"

definition gpt_numbered :: "gpt \<Rightarrow> gpt_header" where
  "gpt_numbered g =
     (g_header g)\<lparr>gh_num_entries := GPT_ENTRIES, gh_entry_size := GPT_ENTRY_SIZE,
       gh_entries_crc32 := partition_crc32 (entries_bytes (g_entries g))\<rparr>"

definition gpt_store :: "'w storage \<Rightarrow> nat \<Rightarrow> gpt \<Rightarrow> (bool \<times> 'w storage) option" where
  "gpt_store st disk g =
     (let h = gpt_numbered g; last_lba = sub64 (bd_sectors (dev st disk)) 1; es = g_entry_sectors g;
          ss = bd_sector_size (dev st disk)
      in case alloc_buffer st (w64 (es * ss)) of
        (sec, st) \<Rightarrow>
          (case alloc_buffer st ss of
             (hsec, st) \<Rightarrow>
               (case (sec, hsec) of
                  (Some sec, Some hsec) \<Rightarrow>
                    do {
                      let sec = put_bytes sec 0 (entries_bytes (g_entries g));
                      let hsec1 = put_bytes (replicate ss 0) 0 (header_bytes (gpt_backup h last_lba es));
                      r \<leftarrow> and_write (True, st) disk (sub64 last_lba es) es sec;
                      r \<leftarrow> and_write r disk last_lba 1 hsec1;
                      let hsec2 = put_bytes (replicate ss 0) 0 (header_bytes (gpt_primary h last_lba));
                      r \<leftarrow> and_write r disk 2 es sec;
                      r \<leftarrow> and_write r disk 1 1 hsec2;
                      (case r of (ok, st) \<Rightarrow> if ok then write_protective_mbr st disk else Some (False, st))
                    }
                | _ \<Rightarrow> Some (False, st))))"

section \<open>Table detection and scanning\<close>

text \<open>Fields of the \<open>i\<close>-th MBR entry of a sector.\<close>

definition mbr_status :: "bytes \<Rightarrow> nat \<Rightarrow> u8" where "mbr_status mbr i = mbr ! (446 + 16 * i)"
definition mbr_type :: "bytes \<Rightarrow> nat \<Rightarrow> u8" where "mbr_type mbr i = mbr ! (446 + 16 * i + 4)"
definition mbr_lba_first :: "bytes \<Rightarrow> nat \<Rightarrow> nat" where "mbr_lba_first mbr i = le_value (slice mbr (446 + 16 * i + 8) 4)"
definition mbr_sectors :: "bytes \<Rightarrow> nat \<Rightarrow> nat" where "mbr_sectors mbr i = le_value (slice mbr (446 + 16 * i + 12) 4)"

definition classify_mbr :: "bytes \<Rightarrow> partition_table" where
  "classify_mbr mbr =
     (if \<not> has_text mbr 0 ''@MAGIC:'' \<and> mbr ! 510 = 0x55 \<and> mbr ! 511 = 0xAA then
        let protective = list_ex (\<lambda>i. mbr_type mbr i \<noteq> 0 \<and> mbr_type mbr i = PART_MBR_TYPE_GPT) [0..<4];
            sane = list_all (\<lambda>i. mbr_type mbr i = 0 \<or> mbr_status mbr i = 0 \<or> mbr_status mbr i = 0x80) [0..<4];
            fat_vbr = has_text mbr 0x36 ''FAT'' \<or> has_text mbr 0x52 ''FAT32''
        in if protective then PART_TABLE_GPT
           else if sane \<and> \<not> fat_vbr then PART_TABLE_MBR
           else PART_TABLE_NONE
      else PART_TABLE_NONE)"

definition partition_table_type :: "'w storage \<Rightarrow> nat option \<Rightarrow> (partition_table \<times> 'w storage) option" where
  "partition_table_type st disk =
     (case disk of
        None \<Rightarrow> Some (PART_TABLE_NONE, st)
      | Some k \<Rightarrow>
          if bd_kind (dev st k) \<noteq> BLOCKDEV_KIND_DISK then Some (PART_TABLE_NONE, st)
          else do {
            (mbr, st) \<leftarrow> read_sectors st k 0 1;
            Some (case mbr of None \<Rightarrow> PART_TABLE_NONE | Some mbr \<Rightarrow> classify_mbr mbr, st)
          })"

fun partition_table_name :: "partition_table \<Rightarrow> string" where
  "partition_table_name PART_TABLE_MBR = ''MBR''"
| "partition_table_name PART_TABLE_GPT = ''GPT''"
| "partition_table_name _ = ''none''"

text \<open>At most \<open>maxn\<close> characters, leaving room for the terminator.\<close>

fun utf16_chars :: "nat list \<Rightarrow> nat \<Rightarrow> nat \<Rightarrow> bytes" where
  "utf16_chars [] o_pos out_size = []"
| "utf16_chars (c # cs) o_pos out_size =
     (if o_pos + 1 < out_size \<and> c \<noteq> 0
      then (if c < 128 then of_nat c else 63) # utf16_chars cs (o_pos + 1) out_size else [])"

definition utf16_to_ascii :: "nat list \<Rightarrow> nat \<Rightarrow> bytes \<Rightarrow> bytes" where
  "utf16_to_ascii inp maxn out = put_bytes out 0 (utf16_chars (take maxn inp) 0 (length out) @ [0])"

fun scan_gpt :: "'w storage \<Rightarrow> nat \<Rightarrow> gpt_entry list \<Rightarrow> nat \<Rightarrow> nat \<Rightarrow> nat \<times> 'w storage" where
  "scan_gpt st disk [] i found = (found, st)"
| "scan_gpt st disk (e # es) i found =
     (if guid_is_zero (ge_type_guid e) \<or> ge_last_lba e < ge_first_lba e then scan_gpt st disk es (i + 1) found
      else
        (case blockdev_add_partition st (Some disk) (i + 1) (ge_first_lba e)
                (w64 (ge_last_lba e - ge_first_lba e + 1)) of
           (None, st) \<Rightarrow> scan_gpt st disk es (i + 1) found
         | (Some p, st) \<Rightarrow>
             scan_gpt (set_dev p (\<lambda>d. d\<lparr>bd_type_guid := ge_type_guid e, bd_part_guid := ge_unique_guid e,
                 bd_mbr_type := 0, bd_label := utf16_to_ascii (ge_name e) 36 (bd_label d)\<rparr>) st)
               disk es (i + 1) (found + 1)))"

fun scan_mbr :: "'w storage \<Rightarrow> nat \<Rightarrow> bytes \<Rightarrow> nat list \<Rightarrow> nat \<Rightarrow> nat \<times> 'w storage" where
  "scan_mbr st disk mbr [] found = (found, st)"
| "scan_mbr st disk mbr (i # is) found =
     (if mbr_type mbr i = 0 \<or> mbr_sectors mbr i = 0 then scan_mbr st disk mbr is found
      else
        (case blockdev_add_partition st (Some disk) (i + 1) (mbr_lba_first mbr i) (mbr_sectors mbr i) of
           (None, st) \<Rightarrow> scan_mbr st disk mbr is found
         | (Some p, st) \<Rightarrow>
             scan_mbr (set_dev p (\<lambda>d. d\<lparr>bd_mbr_type := mbr_type mbr i, bd_type_guid := replicate 16 0,
                 bd_part_guid := (put_bytes (replicate 16 0) 0 (slice mbr 440 4))[15 := of_nat (i + 1)],
                 bd_label := (bd_label d)[0 := 0]\<rparr>) st)
               disk mbr is (found + 1)))"

definition partition_scan :: "'w storage \<Rightarrow> nat option \<Rightarrow> (nat \<times> 'w storage) option" where
  "partition_scan st disk =
     (case disk of
        None \<Rightarrow> Some (0, st)
      | Some k \<Rightarrow>
          if bd_kind (dev st k) \<noteq> BLOCKDEV_KIND_DISK then Some (0, st)
          else do {
            let st = blockdev_remove_partitions st disk;
            (type, st) \<leftarrow> partition_table_type st disk;
            (case type of
               PART_TABLE_GPT \<Rightarrow>
                 do {
                   (g, st) \<leftarrow> gpt_load st k;
                   Some (case g of
                           None \<Rightarrow> (0, st)
                         | Some g \<Rightarrow> scan_gpt st k (take (gh_num_entries (g_header g)) (g_entries g)) 0 0)
                 }
             | PART_TABLE_MBR \<Rightarrow>
                 do {
                   (mbr, st) \<leftarrow> read_sectors st k 0 1;
                   Some (case mbr of None \<Rightarrow> (0, st) | Some mbr \<Rightarrow> scan_mbr st k mbr [0..<4] 0)
                 }
             | _ \<Rightarrow> Some (0, st))
          })"

section \<open>Kinds\<close>

definition partition_kind_of :: "'w storage \<Rightarrow> nat option \<Rightarrow> partition_kind" where
  "partition_kind_of st p =
     (case p of
        None \<Rightarrow> PART_KIND_OTHER
      | Some i \<Rightarrow>
          let d = dev st i in
          if bd_kind d \<noteq> BLOCKDEV_KIND_PARTITION then PART_KIND_OTHER
          else if bd_mbr_type d \<noteq> 0 then
            (if bd_mbr_type d = PART_MBR_TYPE_MINIMAFS then PART_KIND_MINIMAFS
             else if bd_mbr_type d = PART_MBR_TYPE_ESP then PART_KIND_ESP
             else if bd_mbr_type d = 0x0B \<or> bd_mbr_type d = 0x0C then PART_KIND_FAT
             else PART_KIND_OTHER)
          else if bd_type_guid d = GUID_MINIMAFS then PART_KIND_MINIMAFS
          else if bd_type_guid d = GUID_ESP then PART_KIND_ESP
          else if bd_type_guid d = GUID_BIOS_BOOT then PART_KIND_BIOS_BOOT
          else if bd_type_guid d = GUID_BASIC_DATA then PART_KIND_FAT
          else PART_KIND_OTHER)"

fun partition_kind_name :: "partition_kind \<Rightarrow> string" where
  "partition_kind_name PART_KIND_MINIMAFS = ''minimafs''"
| "partition_kind_name PART_KIND_ESP = ''esp''"
| "partition_kind_name PART_KIND_BIOS_BOOT = ''biosboot''"
| "partition_kind_name PART_KIND_FAT = ''fat''"
| "partition_kind_name PART_KIND_OTHER = ''other''"

definition kind_names :: "(string \<times> partition_kind) list" where
  "kind_names =
     [(''minimafs'', PART_KIND_MINIMAFS), (''mfs'', PART_KIND_MINIMAFS), (''esp'', PART_KIND_ESP),
      (''efi'', PART_KIND_ESP), (''biosboot'', PART_KIND_BIOS_BOOT), (''bios'', PART_KIND_BIOS_BOOT),
      (''fat'', PART_KIND_FAT), (''fat32'', PART_KIND_FAT)]"

definition partition_kind_from_name :: "string option \<Rightarrow> partition_kind option" where
  "partition_kind_from_name name =
     (case name of None \<Rightarrow> None | Some n \<Rightarrow> map_of kind_names n)"

section \<open>Creating tables\<close>

definition empty_gpt_header :: "'w blockdev \<Rightarrow> bytes \<Rightarrow> nat \<Rightarrow> gpt_header" where
  "empty_gpt_header disk rnd es =
     \<lparr>gh_signature = map char_byte ''EFI PART'', gh_revision = 0x00010000, gh_header_size = 92,
      gh_header_crc32 = 0, gh_reserved = 0, gh_my_lba = 0, gh_alternate_lba = 0,
      gh_first_usable_lba = 2 + es, gh_last_usable_lba = sub64 (sub64 (bd_sectors disk) 2) es,
      gh_disk_guid = guid_random rnd, gh_entries_lba = 0, gh_num_entries = 0, gh_entry_size = 0,
      gh_entries_crc32 = 0\<rparr>"

text \<open>\<open>rnd\<close> are the random bytes the call draws: the disk signature or the disk GUID.\<close>

definition partition_create_table ::
  "'w storage \<Rightarrow> nat option \<Rightarrow> partition_table \<Rightarrow> bytes \<Rightarrow> (bool \<times> 'w storage) option" where
  "partition_create_table st disk type rnd =
     (case disk of
        None \<Rightarrow> Some (False, st)
      | Some k \<Rightarrow>
          let d = dev st k; ss = bd_sector_size d; n = bd_sectors d;
              type = (if type = PART_TABLE_AUTO then PART_TABLE_GPT else type)
          in
          if bd_kind d \<noteq> BLOCKDEV_KIND_DISK then Some (False, st)
          else if n < 4 * 1024 * 1024 div ss then Some (False, st)
          else if type = PART_TABLE_MBR \<and> n > 0xFFFFFFFF then Some (False, st)
          else
            let wipe = w32 (PART_ALIGN_BYTES div ss) in
            (case alloc_buffer st (w64 (wipe * ss)) of
               (None, st) \<Rightarrow> Some (False, st)
             | (Some zero, st) \<Rightarrow>
                 do {
                   r \<leftarrow> and_write (True, st) k 0 wipe zero;
                   let tail = (if 64 < n then 64 else w32 n);
                   (ok, st) \<leftarrow> and_write r k (sub64 n tail) tail zero;
                   if \<not> ok then Some (False, st)
                   else do {
                     (ok, rescan, st) \<leftarrow>
                       (if type = PART_TABLE_MBR then
                          (case alloc_buffer st ss of
                             (None, st) \<Rightarrow> Some (False, False, st)
                           | (Some mbr, st) \<Rightarrow>
                               do {
                                 let mbr = (put_bytes mbr 440 (take 4 rnd))[510 := 0x55, 511 := 0xAA];
                                 (ok, st) \<leftarrow> blockdev_write st (Some k) 0 1 mbr;
                                 Some (ok, True, st)
                               })
                        else
                          (case alloc_buffer st GPT_ENTRY_BYTES of
                             (None, st) \<Rightarrow> Some (False, False, st)
                           | (Some buf, st) \<Rightarrow>
                               do {
                                 let es = gpt_entry_sectors d;
                                 (ok, st) \<leftarrow> gpt_store st k \<lparr>g_header = empty_gpt_header d rnd es,
                                    g_entries = replicate GPT_ENTRIES zero_entry, g_entry_sectors = es\<rparr>;
                                 Some (ok, True, st)
                               }));
                     if \<not> rescan then Some (False, st)
                     else do { (found, st) \<leftarrow> partition_scan st disk; Some (ok, st) }
                   }
                 }))"

section \<open>Free space\<close>

record range =
  r_start :: nat
  r_end :: nat

text \<open>Insertion sort by the start, on the array.\<close>

fun shift_in :: "range list \<Rightarrow> nat \<Rightarrow> range \<Rightarrow> range list" where
  "shift_in out 0 r = out[0 := r]"
| "shift_in out (Suc j) r =
     (if r_start (out ! j) > r_start r then shift_in (out[Suc j := out ! j]) j r else out[Suc j := r])"

definition sort_ranges :: "range list \<Rightarrow> range list" where
  "sort_ranges out = foldl (\<lambda>out i. shift_in out i (out ! i)) out [1..<length out]"

definition used_ranges :: "'w storage \<Rightarrow> nat \<Rightarrow> nat \<Rightarrow> range list" where
  "used_ranges st disk maxn =
     sort_ranges (take maxn
       (map (\<lambda>i. \<lparr>r_start = bd_start_lba (dev st i), r_end = w64 (bd_start_lba (dev st i) + bd_sectors (dev st i))\<rparr>)
         (filter (\<lambda>i. blockdev_get st i \<noteq> None \<and> bd_parent (dev st i) = Some disk) [0..<BLOCKDEV_MAX])))"

text \<open>One gap: the space is taken, the search stops, or the next gap is tried.\<close>

datatype gap = Take nat nat | Stop | Skip

definition try_gap :: "nat \<Rightarrow> nat \<Rightarrow> nat \<Rightarrow> nat \<Rightarrow> nat \<Rightarrow> nat \<Rightarrow> gap" where
  "try_gap a want_start want last_excl cursor next_start =
     (let gap_end = (if next_start > last_excl then last_excl else next_start);
          gap_start = round_up cursor a
      in if want_start \<noteq> 0 then
           (if want_start \<ge> cursor \<and> want_start < gap_end then
              let avail = gap_end - want_start; len = (if want \<noteq> 0 then want else avail)
              in if len \<le> avail then Take want_start len else Stop
            else Skip)
         else if gap_start < gap_end then
           (let avail = gap_end - gap_start; len = (if want \<noteq> 0 then want else avail);
                len = (if want = 0 \<and> len > a then len div a * a else len)
            in if len \<le> avail \<and> len > 0 then Take gap_start len else Skip)
         else Skip)"

fun space_loop :: "nat \<Rightarrow> nat \<Rightarrow> nat \<Rightarrow> nat \<Rightarrow> nat \<Rightarrow> range list \<Rightarrow> (nat \<times> nat) option" where
  "space_loop a want_start want last_excl cursor [] =
     (case try_gap a want_start want last_excl cursor last_excl of Take s n \<Rightarrow> Some (s, n) | _ \<Rightarrow> None)"
| "space_loop a want_start want last_excl cursor (u # us) =
     (case try_gap a want_start want last_excl cursor (r_start u) of
        Take s n \<Rightarrow> Some (s, n)
      | Stop \<Rightarrow> None
      | Skip \<Rightarrow> space_loop a want_start want last_excl (if r_end u > cursor then r_end u else cursor) us)"

definition find_space :: "'w storage \<Rightarrow> nat \<Rightarrow> nat \<Rightarrow> nat \<Rightarrow> nat \<Rightarrow> nat \<Rightarrow> (nat \<times> nat) option" where
  "find_space st disk first last_excl want_start want =
     space_loop (align_lba (dev st disk)) want_start want last_excl first (used_ranges st disk GPT_ENTRIES)"

section \<open>Adding and deleting partitions\<close>

fun ascii_to_utf16 :: "bytes \<Rightarrow> nat \<Rightarrow> nat list" where
  "ascii_to_utf16 cs 0 = []"
| "ascii_to_utf16 [] (Suc n) = 0 # ascii_to_utf16 [] n"
| "ascii_to_utf16 (c # cs) (Suc n) = unat c # ascii_to_utf16 cs n"

definition kind_guid :: "partition_kind \<Rightarrow> bytes" where
  "kind_guid kind =
     (if kind = PART_KIND_ESP then GUID_ESP
      else if kind = PART_KIND_BIOS_BOOT then GUID_BIOS_BOOT
      else if kind = PART_KIND_FAT then GUID_BASIC_DATA
      else GUID_MINIMAFS)"

definition gpt_new_entry :: "partition_kind \<Rightarrow> bytes \<Rightarrow> nat \<Rightarrow> nat \<Rightarrow> bytes option \<Rightarrow> gpt_entry" where
  "gpt_new_entry kind rnd s n label =
     \<lparr>ge_type_guid = kind_guid kind, ge_unique_guid = guid_random rnd, ge_first_lba = s,
      ge_last_lba = sub64 (w64 (s + n)) 1, ge_attributes = 0,
      ge_name = ascii_to_utf16 (case label of Some l \<Rightarrow> l | None \<Rightarrow> map char_byte (partition_kind_name kind)) 36\<rparr>"

definition mbr_new_entry :: "partition_kind \<Rightarrow> bool \<Rightarrow> nat \<Rightarrow> nat \<Rightarrow> bytes" where
  "mbr_new_entry kind active s n =
     [if active then 0 else 0x80, 0xFE, 0xFF, 0xFF,
      if kind = PART_KIND_ESP then PART_MBR_TYPE_ESP
      else if kind = PART_KIND_FAT then PART_MBR_TYPE_FAT32LBA else PART_MBR_TYPE_MINIMAFS,
      0xFE, 0xFF, 0xFF] @ le_bytes 4 s @ le_bytes 4 n"

text \<open>The table entry is written; the result is the partition number, \<open>0\<close> when the call gives up.\<close>

definition add_gpt ::
  "'w storage \<Rightarrow> nat \<Rightarrow> nat \<Rightarrow> nat \<Rightarrow> partition_kind \<Rightarrow> bytes option \<Rightarrow> bytes \<Rightarrow> (nat \<times> 'w storage) option" where
  "add_gpt st k start_lba sectors kind label rnd =
     do {
       (g, st) \<leftarrow> gpt_load st k;
       (case g of
          None \<Rightarrow> Some (0, st)
        | Some g \<Rightarrow>
            (case find (\<lambda>i. guid_is_zero (ge_type_guid (g_entries g ! i))) [0..<GPT_ENTRIES] of
               None \<Rightarrow> Some (0, st)
             | Some slot \<Rightarrow>
                 (case find_space st k (gh_first_usable_lba (g_header g))
                         (w64 (gh_last_usable_lba (g_header g) + 1)) start_lba sectors of
                    None \<Rightarrow> Some (0, st)
                  | Some (s, n) \<Rightarrow>
                      do {
                        (ok, st) \<leftarrow> gpt_store st k
                          (g\<lparr>g_entries := (g_entries g)[slot := gpt_new_entry kind rnd s n label]\<rparr>);
                        Some (if ok then slot + 1 else 0, st)
                      })))
     }"

definition add_mbr ::
  "'w storage \<Rightarrow> nat \<Rightarrow> nat \<Rightarrow> nat \<Rightarrow> partition_kind \<Rightarrow> (nat \<times> 'w storage) option" where
  "add_mbr st k start_lba sectors kind =
     (if kind = PART_KIND_BIOS_BOOT then Some (0, st)
      else do {
        (mbr, st) \<leftarrow> read_sectors st k 0 1;
        (case mbr of
           None \<Rightarrow> Some (0, st)
         | Some mbr \<Rightarrow>
             let n = bd_sectors (dev st k); limit = (if n < 0xFFFFFFFF then n else 0xFFFFFFFF) in
             (case find (\<lambda>i. mbr_type mbr i = 0) [0..<4] of
                None \<Rightarrow> Some (0, st)
              | Some slot \<Rightarrow>
                  (case find_space st k 1 limit start_lba sectors of
                     None \<Rightarrow> Some (0, st)
                   | Some (s, n) \<Rightarrow>
                       let cleared = put_bytes mbr (446 + 16 * slot) (replicate 16 0);
                           active = list_ex (\<lambda>i. mbr_status cleared i = 0x80) [0..<4]
                       in do {
                         (ok, st) \<leftarrow> blockdev_write st (Some k) 0 1
                           (put_bytes mbr (446 + 16 * slot) (mbr_new_entry kind active s n));
                         Some (if ok then slot + 1 else 0, st)
                       })))
      })"

definition partition_add ::
  "'w storage \<Rightarrow> nat option \<Rightarrow> nat \<Rightarrow> nat \<Rightarrow> partition_kind \<Rightarrow> bytes option \<Rightarrow> bytes \<Rightarrow> (nat option \<times> 'w storage) option" where
  "partition_add st disk start_lba sectors kind label rnd =
     do {
       (type, st) \<leftarrow> partition_table_type st disk;
       (case disk of
          None \<Rightarrow> Some (None, st)
        | Some k \<Rightarrow>
            if type = PART_TABLE_NONE then Some (None, st)
            else do {
              (found, st) \<leftarrow> partition_scan st disk;
              (number, st) \<leftarrow>
                (if type = PART_TABLE_GPT then add_gpt st k start_lba sectors kind label rnd
                 else add_mbr st k start_lba sectors kind);
              if number = 0 then Some (None, st)
              else do {
                (found, st) \<leftarrow> partition_scan st disk;
                (case find (\<lambda>i. blockdev_get st i \<noteq> None \<and> bd_parent (dev st i) = Some k \<and>
                        bd_part_number (dev st i) = number) [0..<BLOCKDEV_MAX] of
                   None \<Rightarrow> Some (None, st)
                 | Some p \<Rightarrow>
                     do {
                       let z = 4096 div bd_sector_size (dev st p);
                       st \<leftarrow> (case alloc_buffer st 4096 of
                                 (None, st) \<Rightarrow> Some st
                               | (Some zero, st) \<Rightarrow>
                                   do { (ok, st) \<leftarrow> blockdev_write st (Some p) 0 (if z \<noteq> 0 then z else 1) zero; Some st });
                       (fs, st) \<leftarrow> blockdev_identify st (Some p);
                       Some (Some p, st)
                     })
              }
            })
     }"

definition delete_gpt :: "'w storage \<Rightarrow> nat \<Rightarrow> nat \<Rightarrow> (bool \<times> bool \<times> 'w storage) option" where
  "delete_gpt st k number =
     do {
       (g, st) \<leftarrow> gpt_load st k;
       (case g of
          None \<Rightarrow> Some (False, False, st)
        | Some g \<Rightarrow>
            if number \<le> GPT_ENTRIES \<and> \<not> guid_is_zero (ge_type_guid (g_entries g ! (number - 1))) then
              do {
                (ok, st) \<leftarrow> gpt_store st k (g\<lparr>g_entries := (g_entries g)[number - 1 := zero_entry]\<rparr>);
                Some (ok, True, st)
              }
            else Some (False, True, st))
     }"

definition delete_mbr :: "'w storage \<Rightarrow> nat \<Rightarrow> nat \<Rightarrow> (bool \<times> bool \<times> 'w storage) option" where
  "delete_mbr st k number =
     do {
       (mbr, st) \<leftarrow> read_sectors st k 0 1;
       (case mbr of
          None \<Rightarrow> Some (False, False, st)
        | Some mbr \<Rightarrow>
            if mbr_type mbr (number - 1) \<noteq> 0 then
              do {
                (ok, st) \<leftarrow> blockdev_write st (Some k) 0 1
                  (put_bytes mbr (446 + 16 * (number - 1)) (replicate 16 0));
                Some (ok, True, st)
              }
            else Some (False, True, st))
     }"

definition partition_delete :: "'w storage \<Rightarrow> nat option \<Rightarrow> nat \<Rightarrow> (bool \<times> 'w storage) option" where
  "partition_delete st disk number =
     do {
       (type, st) \<leftarrow> partition_table_type st disk;
       if number = 0 then Some (False, st)
       else if list_ex (\<lambda>i. blockdev_get st i \<noteq> None \<and> bd_parent (dev st i) = disk \<and>
                 bd_part_number (dev st i) = number \<and> bd_mounted_drive (dev st i) \<ge> 0) [0..<BLOCKDEV_MAX]
       then Some (False, st)
       else do {
         (ok, rescan, st) \<leftarrow>
           (case disk of
              None \<Rightarrow> Some (False, True, st)
            | Some k \<Rightarrow>
                if type = PART_TABLE_GPT then delete_gpt st k number
                else if type = PART_TABLE_MBR \<and> number \<le> 4 then delete_mbr st k number
                else Some (False, True, st));
         if \<not> rescan then Some (False, st)
         else do { (found, st) \<leftarrow> partition_scan st disk; Some (ok, st) }
       }
     }"

section \<open>Probing\<close>

definition scan_all_partitions :: "'w storage \<Rightarrow> 'w storage option" where
  "scan_all_partitions st =
     do {
       st \<leftarrow> fold (\<lambda>i r. do { st \<leftarrow> r;
                if \<not> bd_used (dev st i) \<or> bd_kind (dev st i) \<noteq> BLOCKDEV_KIND_DISK then Some st
                else map_option snd (partition_scan st (Some i)) }) [0..<BLOCKDEV_MAX] (Some st);
       fold (\<lambda>i r. do { st \<leftarrow> r;
                if bd_used (dev st i) then map_option snd (blockdev_identify st (Some i)) else Some st })
         [0..<BLOCKDEV_MAX] (Some st)
     }"

end
