(* ===== verification/Partition_Space.thy ===== *)
theory Partition_Space
  imports Partition
begin

text \<open>
  Facts on the partition code that need no I/O: the table-driven checksum against its bit-wise
  definition, the sorting of used ranges, and the search for free space.
\<close>

section \<open>The checksum\<close>

definition crc_bitwise :: "bytes \<Rightarrow> nat" where
  "crc_bitwise bs = unat (foldl (\<lambda>c b. (crc_round ^^ 8) (c XOR ucast b)) 0xFFFFFFFF bs XOR 0xFFFFFFFF)"

lemma crc_round_bit: "crc_round c = (if bit c 0 then 0xEDB88320 XOR drop_bit 1 c else drop_bit 1 c)"
  by (simp add: crc_round_def and_one_eq odd_iff_mod_2_eq_one bit_0)

lemma crc_round_xor: "crc_round (a XOR b) = crc_round a XOR crc_round b"
proof -
  have "drop_bit 1 (a XOR b) = drop_bit 1 a XOR drop_bit 1 b" by (simp add: drop_bit_xor)
  then show ?thesis by (simp add: crc_round_bit bit_xor_iff xor.left_commute xor.assoc xor.commute)
qed

lemma crc_rounds_xor: "(crc_round ^^ n) (a XOR b) = (crc_round ^^ n) a XOR (crc_round ^^ n) b"
  by (induction n arbitrary: a b) (simp_all add: crc_round_xor)

lemma crc_rounds_low_zero: "take_bit n y = 0 \<Longrightarrow> (crc_round ^^ n) y = drop_bit n y"
proof (induction n arbitrary: y)
  case (Suc n)
  have "bit y 0 = bit (take_bit (Suc n) y) 0" by (simp add: bit_take_bit_iff)
  then have "\<not> bit y 0" using Suc.prems by simp
  then have r: "crc_round y = drop_bit 1 y" by (simp add: crc_round_bit)
  have "take_bit n (drop_bit 1 y) = drop_bit 1 (take_bit (Suc n) y)" by (rule bit_word_eqI) (auto simp: bit_simps)
  then have "take_bit n (drop_bit 1 y) = 0" using Suc.prems by simp
  from Suc.IH[OF this] have "(crc_round ^^ n) (crc_round y) = drop_bit n (drop_bit 1 y)" unfolding r .
  also have "\<dots> = drop_bit (Suc n) y" by (rule bit_word_eqI) (auto simp: bit_simps)
  finally show ?case by (simp add: funpow_swap1)
qed simp

lemma crc_table_nth: "n < 256 \<Longrightarrow> crc_table ! n = (crc_round ^^ 8) (of_nat n)"
  by (simp add: crc_table_def)

lemma crc_update_bitwise: "crc_update crc b = (crc_round ^^ 8) (crc XOR ucast b)"
proof -
  let ?x = "crc XOR ucast b"
  have split: "?x = (?x AND 0xFF) XOR (?x AND NOT 0xFF)"
    by (rule bit_word_eqI) (auto simp: bit_simps)
  have mask: "(0xFF :: u32) = mask 8" by (simp add: mask_eq_exp_minus_1)
  have low: "take_bit 8 (?x AND NOT 0xFF) = 0" unfolding mask
    by (rule bit_word_eqI) (auto simp: bit_simps)
  have hi: "drop_bit 8 (?x AND NOT 0xFF) = drop_bit 8 crc" unfolding mask
    by (rule bit_word_eqI) (auto simp: bit_simps dest: bit_imp_le_length)
  have "unat (take_bit 8 ?x) < 2 ^ 8" unfolding unsigned_take_bit_eq by (rule take_bit_nat_less_exp)
  then have "unat (?x AND 0xFF) < 256" unfolding mask by (simp add: take_bit_eq_mask)
  then have "crc_table ! unat (?x AND 0xFF) = (crc_round ^^ 8) (?x AND 0xFF)"
    using crc_table_nth[of "unat (?x AND 0xFF)"] by simp
  moreover have "(crc_round ^^ 8) ?x = (crc_round ^^ 8) (?x AND 0xFF) XOR drop_bit 8 crc"
    by (subst split) (simp only: crc_rounds_xor crc_rounds_low_zero[OF low] hi)
  ultimately show ?thesis by (simp only: crc_update_def)
qed

lemma crc_update_eq: "crc_update = (\<lambda>c b. (crc_round ^^ 8) (c XOR ucast b))"
  by (intro ext) (rule crc_update_bitwise)

section \<open>Sorting the used ranges\<close>

fun insert_back :: "range \<Rightarrow> range list \<Rightarrow> range list" where
  "insert_back r [] = [r]"
| "insert_back r (x # xs) = (if r_start x > r_start r then r # x # xs else x # insert_back r xs)"

abbreviation by_start :: "range list \<Rightarrow> bool" where
  "by_start xs \<equiv> sorted (map r_start xs)"

lemma mset_insert_back [simp]: "mset (insert_back r xs) = {#r#} + mset xs"
  by (induction xs) auto

lemma by_start_insert_back: "by_start xs \<Longrightarrow> by_start (insert_back r xs)"
proof (induction xs)
  case (Cons x xs)
  have "set (insert_back r xs) = insert r (set xs)" using mset_insert_back by (metis set_mset_mset set_mset_add_mset_insert add_mset_add_single union_commute)
  then show ?case using Cons by auto
qed simp

lemma insert_back_snoc:
  "by_start (xs @ [y]) \<Longrightarrow> insert_back r (xs @ [y]) = (if r_start y > r_start r then insert_back r xs @ [y] else xs @ [y, r])"
  by (induction xs) auto

lemma shift_in_insert:
  "by_start xs \<Longrightarrow> shift_in (xs @ y # zs) (length xs) r = insert_back r xs @ zs"
proof (induction xs arbitrary: y zs rule: rev_induct)
  case (snoc x xs)
  then have IH: "shift_in (xs @ x # x # zs) (length xs) r = insert_back r xs @ x # zs"
    by (simp add: sorted_append)
  have "(xs @ [x, y] @ zs) ! length xs = x" by simp
  then show ?case using insert_back_snoc[OF snoc.prems, of r] IH
    by (simp add: list_update_append)
qed simp

lemma sort_ranges_prefix:
  assumes "n < length xs"
  shows "\<exists>ys. by_start ys \<and> mset ys = mset (take (Suc n) xs) \<and>
    foldl (\<lambda>out i. shift_in out i (out ! i)) xs [1..<Suc n] = ys @ drop (Suc n) xs"
  using assms
proof (induction n)
  case 0
  then show ?case by (cases xs) auto
next
  case (Suc n)
  then obtain ys where ys: "by_start ys" "mset ys = mset (take (Suc n) xs)"
    "foldl (\<lambda>out i. shift_in out i (out ! i)) xs [1..<Suc n] = ys @ drop (Suc n) xs" by auto
  have len: "length ys = Suc n" using ys(2) Suc.prems by (metis length_take mset_eq_length min.absorb4)
  have d: "drop (Suc n) xs = xs ! Suc n # drop (Suc (Suc n)) xs" using Suc.prems by (simp add: drop_Cons_nth)
  have "foldl (\<lambda>out i. shift_in out i (out ! i)) xs [1..<Suc (Suc n)] =
      shift_in (ys @ xs ! Suc n # drop (Suc (Suc n)) xs) (length ys) (xs ! Suc n)"
    using ys(3) len by (simp add: d nth_append)
  also have "\<dots> = insert_back (xs ! Suc n) ys @ drop (Suc (Suc n)) xs" by (rule shift_in_insert[OF ys(1)])
  finally show ?case
    using by_start_insert_back[OF ys(1)] ys(2) Suc.prems
    by (intro exI[of _ "insert_back (xs ! Suc n) ys"]) (simp add: take_Suc_conv_app_nth)
qed

lemma sort_ranges_sorted: "by_start (sort_ranges xs) \<and> mset (sort_ranges xs) = mset xs"
proof (cases xs)
  case Nil
  then show ?thesis by (simp add: sort_ranges_def)
next
  case (Cons x ys)
  then obtain zs where "by_start zs" "mset zs = mset (take (length xs) xs)"
    "foldl (\<lambda>out i. shift_in out i (out ! i)) xs [1..<length xs] = zs @ drop (length xs) xs"
    using sort_ranges_prefix[of "length ys" xs] by auto
  then show ?thesis by (simp add: sort_ranges_def)
qed

section \<open>Free space\<close>

lemma round_up_spec:
  assumes "0 < a" "v + a < 2 ^ 64"
  shows "a dvd round_up v a" "v \<le> round_up v a" "\<And>s. a dvd s \<Longrightarrow> v \<le> s \<Longrightarrow> round_up v a \<le> s"
proof -
  have e: "round_up v a = (v + a - 1) div a * a"
  proof -
    have "sub64 (w64 (v + a)) 1 = v + a - 1" using assms by (simp add: w64_id sub64_id)
    moreover have "(v + a - 1) div a * a \<le> v + a - 1" by (rule div_times_less_eq_dividend)
    then have "(v + a - 1) div a * a < 2 ^ 64" using assms(2) by linarith
    ultimately show ?thesis by (simp only: round_up_def w64_id)
  qed
  show "a dvd round_up v a" by (simp add: e)
  have "(v + a - 1) mod a < a" using assms by simp
  moreover have "(v + a - 1) div a * a + (v + a - 1) mod a = v + a - 1" by simp
  ultimately show "v \<le> round_up v a" unfolding e using assms by linarith
  fix s assume s: "a dvd s" "v \<le> s"
  obtain q where q: "s = a * q" using s(1) by (rule dvdE)
  have "v + a - 1 < a * (q + 1)" using s q assms by (simp add: algebra_simps)
  then have "(v + a - 1) div a < q + 1" by (simp add: less_mult_imp_div_less mult.commute)
  then have "(v + a - 1) div a * a \<le> q * a" by (intro mult_le_mono1) simp
  then show "round_up v a \<le> s" by (simp add: e q mult.commute)
qed

text \<open>What taking a gap guarantees.\<close>

lemma try_gap_Take:
  assumes "try_gap a ws want l cursor nxt = Take s n" "0 < a" "cursor + a < 2 ^ 64"
  shows "cursor \<le> s" "0 < n" "s + n \<le> l" "s + n \<le> nxt" "ws \<noteq> 0 \<Longrightarrow> s = ws" "ws = 0 \<Longrightarrow> a dvd s"
    "want \<noteq> 0 \<Longrightarrow> n = want"
proof -
  define e where "e = (if nxt > l then l else nxt)"
  have e: "e \<le> l" "e \<le> nxt" by (auto simp: e_def)
  have "cursor \<le> s \<and> 0 < n \<and> s + n \<le> e \<and> (ws \<noteq> 0 \<longrightarrow> s = ws) \<and> (ws = 0 \<longrightarrow> a dvd s) \<and> (want \<noteq> 0 \<longrightarrow> n = want)"
  proof (cases "ws = 0")
    case True
    then have "s = round_up cursor a \<and> s < e \<and> n \<le> e - s \<and> 0 < n \<and> (want \<noteq> 0 \<longrightarrow> n = want)"
      using assms(1) unfolding try_gap_def Let_def e_def[symmetric] by (simp split: if_splits)
    then show ?thesis using round_up_spec(1,2)[OF assms(2,3)] True by auto
  next
    case False
    then have "cursor \<le> s \<and> s = ws \<and> s < e \<and> n \<le> e - s \<and> n = (if want \<noteq> 0 then want else e - s)"
      using assms(1) unfolding try_gap_def Let_def e_def[symmetric] by (auto split: if_splits)
    then show ?thesis using False by (auto split: if_splits)
  qed
  then show "cursor \<le> s" "0 < n" "s + n \<le> l" "s + n \<le> nxt" "ws \<noteq> 0 \<Longrightarrow> s = ws" "ws = 0 \<Longrightarrow> a dvd s"
    "want \<noteq> 0 \<Longrightarrow> n = want" using e by auto
qed

lemma space_loop_sound:
  assumes "0 < a"
  shows "\<lbrakk>space_loop a ws want l cursor us = Some (s, n); cursor + a < 2 ^ 64; \<forall>u\<in>set us. r_end u + a < 2 ^ 64; by_start us\<rbrakk> \<Longrightarrow>
    cursor \<le> s \<and> 0 < n \<and> s + n \<le> l \<and> (ws \<noteq> 0 \<longrightarrow> s = ws) \<and> (ws = 0 \<longrightarrow> a dvd s) \<and> (want \<noteq> 0 \<longrightarrow> n = want) \<and>
    (\<forall>u\<in>set us. s + n \<le> r_start u \<or> r_end u \<le> s)"
proof (induction us arbitrary: cursor)
  case Nil
  then have "try_gap a ws want l cursor l = Take s n" by (auto split: gap.splits)
  from try_gap_Take[OF this assms Nil(2)] show ?case by auto
next
  case (Cons u us)
  show ?case
  proof (cases "try_gap a ws want l cursor (r_start u)")
    case (Take s' n')
    then have t: "try_gap a ws want l cursor (r_start u) = Take s n" using Cons.prems(1) by simp
    from try_gap_Take[OF this assms Cons.prems(2)] Cons.prems(4) show ?thesis by fastforce
  next
    case Skip
    let ?c = "if r_end u > cursor then r_end u else cursor"
    have "?c \<le> s \<and> 0 < n \<and> s + n \<le> l \<and> (ws \<noteq> 0 \<longrightarrow> s = ws) \<and> (ws = 0 \<longrightarrow> a dvd s) \<and> (want \<noteq> 0 \<longrightarrow> n = want) \<and>
        (\<forall>u\<in>set us. s + n \<le> r_start u \<or> r_end u \<le> s)"
      by (rule Cons.IH) (use Cons.prems Skip in auto)
    then show ?thesis by (auto split: if_splits)
  qed (use Cons.prems in simp)
qed

text \<open>A gap that holds an aligned free run of the wanted size (one sector if any size will do) is taken.\<close>

lemma try_gap_fits:
  assumes "a dvd s" "cursor \<le> s" "s + (if want = 0 then 1 else want) \<le> min l nxt" "0 < a" "cursor + a < 2 ^ 64"
  shows "\<exists>s n. try_gap a 0 want l cursor nxt = Take s n"
proof -
  let ?e = "if nxt > l then l else nxt"
  have e: "?e = min l nxt" by auto
  have r: "round_up cursor a \<le> s" by (rule round_up_spec(3)[OF assms(4,5,1,2)])
  then have lt: "round_up cursor a < ?e" using assms(3) unfolding e by (auto split: if_splits)
  show ?thesis
  proof (cases "want = 0")
    case True
    have "0 < (?e - round_up cursor a) div a * a" if "a < ?e - round_up cursor a"
      using that assms(4) by (simp add: div_greater_zero_iff)
    moreover have "(?e - round_up cursor a) div a * a \<le> ?e - round_up cursor a" by (rule div_times_less_eq_dividend)
    ultimately show ?thesis using True lt by (auto simp: try_gap_def Let_def)
  next
    case False
    then have "want \<le> ?e - round_up cursor a" using assms(3) r unfolding e by (auto simp: min_def)
    then show ?thesis using False lt by (auto simp: try_gap_def Let_def)
  qed
qed

lemma try_gap_any: "try_gap a 0 want l cursor nxt \<noteq> Stop"
  by (auto simp: try_gap_def Let_def)

lemma space_loop_complete:
  assumes "0 < a" "a dvd s"
  shows "\<lbrakk>cursor \<le> s; s + (if want = 0 then 1 else want) \<le> l; cursor + a < 2 ^ 64;
     \<forall>u\<in>set us. r_end u + a < 2 ^ 64;
     \<forall>u\<in>set us. s + (if want = 0 then 1 else want) \<le> r_start u \<or> r_end u \<le> s\<rbrakk> \<Longrightarrow>
    space_loop a 0 want l cursor us \<noteq> None"
proof (induction us arbitrary: cursor)
  case Nil
  then have "s + (if want = 0 then 1 else want) \<le> min l l" by simp
  from try_gap_fits[OF assms(2) Nil(1) this assms(1) Nil(3)] show ?case by auto
next
  case (Cons u us)
  show ?case
  proof (cases "s + (if want = 0 then 1 else want) \<le> r_start u")
    case True
    then have "s + (if want = 0 then 1 else want) \<le> min l (r_start u)" using Cons.prems(2) by simp
    from try_gap_fits[OF assms(2) Cons.prems(1) this assms(1) Cons.prems(3)] show ?thesis by auto
  next
    case False
    let ?c = "if r_end u > cursor then r_end u else cursor"
    have "r_end u \<le> s" using Cons.prems(5) False by auto
    then have "space_loop a 0 want l ?c us \<noteq> None"
      by (intro Cons.IH) (use Cons.prems in auto)
    then show ?thesis using try_gap_any[of a want l cursor "r_start u"] by (auto split: gap.splits)
  qed
qed

section \<open>Properties\<close>

text \<open>
  C27. The table-driven \<^verbatim>\<open>partition_crc32\<close> computes the CRC-32 of its bit-wise definition on every input.
\<close>

theorem partition_crc32_bitwise: "partition_crc32 bs = crc_bitwise bs"
  by (simp add: partition_crc32_def crc_bitwise_def crc_update_eq)

text \<open>
  C17. Free space: \<^verbatim>\<open>find_space\<close> returns a non-empty run of sectors inside the usable range that overlaps no
  partition of the disk, at the wanted start or, when none is given, at an aligned one, and of the wanted
  size when one is given; and when no start is given it fails only if no aligned free run of that size
  (of one sector, when any size will do) exists.
\<close>

theorem find_space_correct:
  assumes "table_ok st" "k < BLOCKDEV_MAX" "bd_used (dev st k)"
    and "a = align_lba (dev st k)" "first + a < 2 ^ 64" "bd_sectors (dev st k) + a < 2 ^ 64"
    and "children = {i. i < BLOCKDEV_MAX \<and> bd_used (dev st i) \<and> bd_parent (dev st i) = Some k}"
    and "free = (\<lambda>s n. \<forall>i\<in>children. s + n \<le> bd_start_lba (dev st i) \<or> bd_start_lba (dev st i) + bd_sectors (dev st i) \<le> s)"
  shows "case find_space st k first last_excl want_start want of
      Some (s, n) \<Rightarrow> first \<le> s \<and> 0 < n \<and> s + n \<le> last_excl \<and> free s n \<and>
        (want_start \<noteq> 0 \<longrightarrow> s = want_start) \<and> (want_start = 0 \<longrightarrow> a dvd s) \<and> (want \<noteq> 0 \<longrightarrow> n = want)
    | None \<Rightarrow> want_start = 0 \<longrightarrow>
        \<not> (\<exists>s. a dvd s \<and> first \<le> s \<and> s + max 1 want \<le> last_excl \<and> free s (max 1 want))"
proof -
  let ?r = "\<lambda>i. \<lparr>r_start = bd_start_lba (dev st i), r_end = w64 (bd_start_lba (dev st i) + bd_sectors (dev st i))\<rparr>"
  let ?is = "filter (\<lambda>i. blockdev_get st i \<noteq> None \<and> bd_parent (dev st i) = Some k) [0..<BLOCKDEV_MAX]"
  let ?us = "used_ranges st k GPT_ENTRIES"
  have chs: "set ?is = children" unfolding assms(7) by (auto simp: blockdev_get_def)
  have "length ?is \<le> BLOCKDEV_MAX" using length_filter_le[of _ "[0..<BLOCKDEV_MAX]"] by simp
  then have "take GPT_ENTRIES (map ?r ?is) = map ?r ?is" by (simp add: GPT_ENTRIES_def BLOCKDEV_MAX_def)
  then have us: "by_start ?us" "mset ?us = mset (map ?r ?is)"
    using sort_ranges_sorted[of "map ?r ?is"] by (auto simp: used_ranges_def)
  have set_us: "set ?us = ?r ` children" using mset_eq_setD[OF us(2)] unfolding set_map chs .
  have inside: "bd_start_lba (dev st i) + bd_sectors (dev st i) \<le> bd_sectors (dev st k)" if "i \<in> children" for i
    using that dev_ok_parent(6)[OF table_ok_dev[OF assms(1)], of i k] unfolding assms(7) by (simp add: dev_def)
  then have e: "r_end (?r i) = bd_start_lba (dev st i) + bd_sectors (dev st i)" if "i \<in> children" for i
    using that assms(6) by (fastforce intro: w64_id)
  have fr: "free s n \<longleftrightarrow> (\<forall>u\<in>set ?us. s + n \<le> r_start u \<or> r_end u \<le> s)" for s n
    unfolding set_us assms(8) using e by auto
  have ends: "\<forall>u\<in>set ?us. r_end u + a < 2 ^ 64" unfolding set_us using inside e assms(6) by fastforce
  have a: "0 < a" unfolding assms(4) by (simp add: align_lba_def Let_def)
  have eq: "find_space st k first last_excl want_start want = space_loop a want_start want last_excl first ?us"
    by (simp add: find_space_def assms(4))
  have mx: "max 1 want = (if want = 0 then 1 else want)" by auto
  show ?thesis
  proof (cases "find_space st k first last_excl want_start want")
    case None
    have False if "want_start = 0" "a dvd s" "first \<le> s" "s + max 1 want \<le> last_excl" "free s (max 1 want)" for s
      using space_loop_complete[OF a that(2) that(3), of want last_excl ?us] that(1,4,5) assms(5) ends None eq
      unfolding mx fr by simp
    then show ?thesis using None by auto
  next
    case (Some p)
    obtain s n where p: "p = (s, n)" by (cases p)
    have "first \<le> s \<and> 0 < n \<and> s + n \<le> last_excl \<and> (want_start \<noteq> 0 \<longrightarrow> s = want_start) \<and> (want_start = 0 \<longrightarrow> a dvd s) \<and>
        (want \<noteq> 0 \<longrightarrow> n = want) \<and> (\<forall>u\<in>set ?us. s + n \<le> r_start u \<or> r_end u \<le> s)"
      by (rule space_loop_sound[OF a _ assms(5) ends us(1)]) (use Some p eq in simp)
    then show ?thesis using Some p by (simp add: fr)
  qed
qed

theorem find_space_correct_witness:
  "\<exists>s n. find_space ram_demo 0 34 9966 0 1000 = Some (s, n) \<and> n = 1000 \<and> 2048 dvd s \<and> 34 \<le> s \<and> s + n \<le> 9966"
proof -
  define children where "children = {i. i < BLOCKDEV_MAX \<and> bd_used (dev ram_demo i) \<and> bd_parent (dev ram_demo i) = Some 0}"
  define free where "free = (\<lambda>s n. \<forall>i\<in>children. s + n \<le> bd_start_lba (dev ram_demo i) \<or>
    bd_start_lba (dev ram_demo i) + bd_sectors (dev ram_demo i) \<le> s)"
  have d: "bd_used (dev ram_demo 0)" "bd_sectors (dev ram_demo 0) = 10000" "align_lba (dev ram_demo 0) = 2048"
    by (simp_all add: ram_demo_dev ram_demo_disk_def align_lba_def PART_ALIGN_BYTES_def)
  have "children \<subseteq> {1, 2}"
  proof
    fix i assume "i \<in> children"
    then have i: "i < 48" "bd_used (dev ram_demo i)" "bd_parent (dev ram_demo i) = Some 0"
      by (auto simp: children_def BLOCKDEV_MAX_def)
    have "\<not> 3 \<le> i" using ram_demo_dev(4)[of "i - 3"] i by (auto simp: zero_dev_def)
    moreover have "bd_parent (dev ram_demo 0) = None" by (simp add: ram_demo_dev ram_demo_disk_def zero_dev_def)
    then have "i \<noteq> 0" using i(3) by (cases "i = 0") auto
    ultimately show "i \<in> {1, 2}" by auto
  qed
  then have "free 6144 1000" by (auto simp: free_def ram_demo_dev ram_demo_part_def)
  then have ex: "\<exists>s. 2048 dvd s \<and> 34 \<le> s \<and> s + max 1 1000 \<le> 9966 \<and> free s (max 1 1000)"
    by (intro exI[of _ 6144]) simp
  have "case find_space ram_demo 0 34 9966 0 1000 of
      Some (s, n) \<Rightarrow> 34 \<le> s \<and> 0 < n \<and> s + n \<le> 9966 \<and> free s n \<and>
        ((0::nat) \<noteq> 0 \<longrightarrow> s = 0) \<and> ((0::nat) = 0 \<longrightarrow> 2048 dvd s) \<and> ((1000::nat) \<noteq> 0 \<longrightarrow> n = 1000)
    | None \<Rightarrow> (0::nat) = 0 \<longrightarrow> \<not> (\<exists>s. 2048 dvd s \<and> 34 \<le> s \<and> s + max 1 1000 \<le> 9966 \<and> free s (max 1 1000))"
    by (rule find_space_correct[OF ram_demo_ok, where children = children])
      (use d in \<open>simp_all add: BLOCKDEV_MAX_def children_def free_def\<close>)
  then show ?thesis using ex by (auto split: option.splits)
qed

end
