(* ===== verification/Partition_Gpt.thy ===== *)
theory Partition_Gpt
  imports Partition_Space
begin

text \<open>
  Writing a GUID partition table and reading it back. The encodings of header and entries are inverted by
  their decodings; under the driver contract of the block layer a stored table is loaded again, from
  the primary copy, with the checksums in order, and the backup copy is in place at the end of the disk.
\<close>

section \<open>Encodings\<close>

definition header_wf :: "gpt_header \<Rightarrow> bool" where
  "header_wf h \<longleftrightarrow> length (gh_signature h) = 8 \<and> length (gh_disk_guid h) = 16 \<and>
     gh_revision h < 2 ^ 32 \<and> gh_header_size h < 2 ^ 32 \<and> gh_header_crc32 h < 2 ^ 32 \<and> gh_reserved h < 2 ^ 32 \<and>
     gh_my_lba h < 2 ^ 64 \<and> gh_alternate_lba h < 2 ^ 64 \<and> gh_first_usable_lba h < 2 ^ 64 \<and>
     gh_last_usable_lba h < 2 ^ 64 \<and> gh_entries_lba h < 2 ^ 64 \<and> gh_num_entries h < 2 ^ 32 \<and>
     gh_entry_size h < 2 ^ 32 \<and> gh_entries_crc32 h < 2 ^ 32"

definition entry_wf :: "gpt_entry \<Rightarrow> bool" where
  "entry_wf e \<longleftrightarrow> length (ge_type_guid e) = 16 \<and> length (ge_unique_guid e) = 16 \<and> ge_first_lba e < 2 ^ 64 \<and>
     ge_last_lba e < 2 ^ 64 \<and> ge_attributes e < 2 ^ 64 \<and> length (ge_name e) = 36 \<and> list_all (\<lambda>c. c < 2 ^ 16) (ge_name e)"

lemma le_value_4: "v < 2 ^ 32 \<Longrightarrow> le_value (le_bytes 4 v) = v"
  by (simp add: le_value_bytes)

lemma le_value_8: "v < 2 ^ 64 \<Longrightarrow> le_value (le_bytes 8 v) = v"
  by (simp add: le_value_bytes)

lemma header_bytes_length: "header_wf h \<Longrightarrow> length (header_bytes h) = 92"
  by (simp add: header_wf_def header_bytes_def)

lemma header_roundtrip: "header_wf h \<Longrightarrow> header_of (header_bytes h @ rest) = h"
  by (cases h)
    (simp add: header_wf_def header_of_def header_bytes_def slice_here slice_skip le_value_4 le_value_8)

lemma entry_bytes_length: "entry_wf e \<Longrightarrow> length (entry_bytes e) = GPT_ENTRY_SIZE"
proof -
  have "length (concat (map (le_bytes 2) xs)) = 2 * length xs" for xs by (induction xs) auto
  then show "entry_wf e \<Longrightarrow> ?thesis" by (simp add: entry_wf_def entry_bytes_def GPT_ENTRY_SIZE_def)
qed

text \<open>Records of equal length laid out one after the other.\<close>

lemma slice_concat:
  assumes "\<And>x. x \<in> set xs \<Longrightarrow> length (f x) = n" "i < length xs"
  shows "slice (concat (map f xs)) (i * n) n = f (xs ! i)"
  using assms
proof (induction xs arbitrary: i)
  case (Cons x xs)
  show ?case
  proof (cases i)
    case 0
    then show ?thesis using Cons.prems(1)[of x] by (simp add: slice_here)
  next
    case (Suc j)
    then have "slice (concat (map f xs)) (j * n) n = f (xs ! j)" using Cons by simp
    then show ?thesis using Cons.prems(1)[of x] Suc by (simp add: slice_skip)
  qed
qed simp

lemma entry_name_roundtrip:
  assumes "list_all (\<lambda>c. c < 2 ^ 16) xs" "i < length xs"
  shows "le_value (slice (concat (map (le_bytes 2) xs)) (2 * i) 2) = xs ! i"
  using slice_concat[of xs "le_bytes 2" 2 i] assms by (simp add: le_value_bytes list_all_length mult.commute)

lemma entry_roundtrip: "entry_wf e \<Longrightarrow> entry_of (entry_bytes e) = e"
proof -
  assume w: "entry_wf e"
  let ?nm = "concat (map (le_bytes 2) (ge_name e))"
  have f: "length (ge_type_guid e) = 16" "length (ge_unique_guid e) = 16" "ge_first_lba e < 2 ^ 64"
    "ge_last_lba e < 2 ^ 64" "ge_attributes e < 2 ^ 64" "length (ge_name e) = 36"
    using w by (simp_all add: entry_wf_def)
  have nm: "slice (entry_bytes e) (56 + 2 * i) 2 = slice ?nm (2 * i) 2" for i
    using f by (simp add: entry_bytes_def slice_skip)
  have "map (\<lambda>i. le_value (slice (entry_bytes e) (56 + 2 * i) 2)) [0..<36] = map ((!) (ge_name e)) [0..<36]"
    using entry_name_roundtrip[of "ge_name e"] w by (intro map_cong refl) (simp add: nm entry_wf_def)
  also have "\<dots> = ge_name e" using f(6) by (metis map_nth)
  finally have "map (\<lambda>i. le_value (slice (entry_bytes e) (56 + 2 * i) 2)) [0..<36] = ge_name e" .
  then show ?thesis unfolding entry_of_def using f
    by (simp add: entry_bytes_def slice_here slice_skip le_value_8)
qed

definition gpt_wf :: "gpt \<Rightarrow> bool" where
  "gpt_wf g \<longleftrightarrow> header_wf (g_header g) \<and> gh_signature (g_header g) = map char_byte ''EFI PART'' \<and>
     gh_header_size (g_header g) = 92 \<and> length (g_entries g) = GPT_ENTRIES \<and> list_all entry_wf (g_entries g)"

lemma entries_roundtrip:
  assumes "length es = GPT_ENTRIES" "list_all entry_wf es"
  shows "entries_of (entries_bytes es) = es" "length (entries_bytes es) = GPT_ENTRY_BYTES"
proof -
  have l: "length (entry_bytes e) = GPT_ENTRY_SIZE" if "e \<in> set es" for e
    using that assms(2) by (simp add: list_all_iff entry_bytes_length)
  have "entries_of (entries_bytes es) = map ((!) es) [0..<GPT_ENTRIES]"
    unfolding entries_of_def entries_bytes_def
    using slice_concat[of es entry_bytes GPT_ENTRY_SIZE, OF l] assms by (intro map_cong refl) (simp add: entry_roundtrip list_all_length)
  then show "entries_of (entries_bytes es) = es" using assms(1) by (metis map_nth)
  have "length (concat (map entry_bytes xs)) = length xs * GPT_ENTRY_SIZE"
    if "\<And>e. e \<in> set xs \<Longrightarrow> length (entry_bytes e) = GPT_ENTRY_SIZE" for xs using that by (induction xs) auto
  from this[of es] l show "length (entries_bytes es) = GPT_ENTRY_BYTES"
    using assms(1) by (simp add: entries_bytes_def GPT_ENTRY_BYTES_def)
qed

lemma crc_less [simp]: "partition_crc32 bs < 4294967296"
  unfolding partition_crc32_def using unsigned_less[of "foldl crc_update 0xFFFFFFFF bs XOR 0xFFFFFFFF"] by simp

text \<open>The stored header, whose checksum is the one the loader recomputes.\<close>

lemma sealed_crc: "partition_crc32 (header_bytes ((sealed h)\<lparr>gh_header_crc32 := 0\<rparr>)) = gh_header_crc32 (sealed h)"
  by (simp add: sealed_def)

lemma sealed_fields:
  "gh_signature (sealed h) = gh_signature h" "gh_header_size (sealed h) = gh_header_size h"
  "gh_entry_size (sealed h) = gh_entry_size h" "gh_num_entries (sealed h) = gh_num_entries h"
  "gh_entries_lba (sealed h) = gh_entries_lba h" "gh_entries_crc32 (sealed h) = gh_entries_crc32 h"
  "gh_first_usable_lba (sealed h) = gh_first_usable_lba h" "gh_last_usable_lba (sealed h) = gh_last_usable_lba h"
  by (simp_all add: sealed_def)

lemma sealed_wf: "header_wf (h\<lparr>gh_header_crc32 := 0\<rparr>) \<Longrightarrow> header_wf (sealed h)"
  by (simp add: header_wf_def sealed_def)

lemma gpt_primary_wf: "gpt_wf g \<Longrightarrow> l < 2 ^ 64 \<Longrightarrow> header_wf (gpt_primary (gpt_numbered g) l)"
  unfolding gpt_primary_def
  by (rule sealed_wf) (simp add: gpt_wf_def gpt_numbered_def header_wf_def GPT_ENTRIES_def GPT_ENTRY_SIZE_def)

lemma gpt_backup_wf: "gpt_wf g \<Longrightarrow> l < 2 ^ 64 \<Longrightarrow> header_wf (gpt_backup (gpt_numbered g) l es)"
  unfolding gpt_backup_def
  by (rule sealed_wf) (simp add: gpt_wf_def gpt_numbered_def header_wf_def GPT_ENTRIES_def GPT_ENTRY_SIZE_def sub64_def)

lemma gpt_entry_sectors_bounds:
  assumes "bd_sector_size d = ss" "512 \<le> ss" "ss < 2 ^ 32"
  shows "GPT_ENTRY_BYTES \<le> gpt_entry_sectors d * ss" "gpt_entry_sectors d * ss < 2 ^ 33" "0 < gpt_entry_sectors d"
proof -
  let ?q = "(GPT_ENTRY_BYTES + ss - 1) div ss"
  have "?q \<le> GPT_ENTRY_BYTES + ss - 1" by (rule div_le_dividend)
  then have e: "gpt_entry_sectors d = ?q"
    unfolding gpt_entry_sectors_def assms(1)
    by (intro w32_id) (use assms div_le_mono2[of 512 ss "GPT_ENTRY_BYTES + ss - 1"] in \<open>simp add: GPT_ENTRY_BYTES_def GPT_ENTRIES_def GPT_ENTRY_SIZE_def\<close>)
  have m: "?q * ss + (GPT_ENTRY_BYTES + ss - 1) mod ss = GPT_ENTRY_BYTES + ss - 1" by simp
  have lt: "(GPT_ENTRY_BYTES + ss - 1) mod ss < ss" using assms(2) by simp
  show "GPT_ENTRY_BYTES \<le> gpt_entry_sectors d * ss" unfolding e using m lt assms(2) by linarith
  then show "0 < gpt_entry_sectors d" by (cases "gpt_entry_sectors d") (auto simp: GPT_ENTRY_BYTES_def GPT_ENTRIES_def GPT_ENTRY_SIZE_def)
  have "?q * ss \<le> GPT_ENTRY_BYTES + ss - 1" using m by linarith
  moreover have "GPT_ENTRY_BYTES + ss - 1 < 2 ^ 33"
    using assms(3) by (simp add: GPT_ENTRY_BYTES_def GPT_ENTRIES_def GPT_ENTRY_SIZE_def)
  ultimately show "gpt_entry_sectors d * ss < 2 ^ 33" unfolding e by (rule le_less_trans)
qed

section \<open>Tables on a disk\<close>

lemma alloc_buffer_ok: "oom st = [] \<Longrightarrow> alloc_buffer st n = (Some (replicate n 0), st)"
  by (simp add: alloc_buffer_def)

lemma put_bytes_all: "length xs = length buf \<Longrightarrow> put_bytes buf 0 xs = xs"
  by (simp add: put_bytes_def)

context disk_driver
begin

lemma write_step:
  assumes "driven st k" "lba + n \<le> bd_sectors (dev st k)" "length buf = n * ss"
  obtains st' where "blockdev_write st (Some k) lba n buf = Some (True, st')" "driven st' k"
    "g_devices st' = g_devices st" "oom st' = oom st" "dev_sectors st' k lba n = buf"
    "\<And>l m. l + m \<le> lba \<or> lba + n \<le> l \<Longrightarrow> dev_sectors st' k l m = dev_sectors st k l m"
proof -
  have len: "n * ss \<le> length buf" using assms(3) by simp
  obtain w' where w: "blockdev_write st (Some k) lba n buf = Some (True, st\<lparr>world := w'\<rparr>)"
    using write_device[OF assms(1,2) len] by blast
  note wr = write_read_device[OF assms(1,2) len w]
  show thesis
    by (rule that[OF w wr(2,5)]) (use wr(3,4) assms(3) in auto)
qed

lemma read_sectors_ok:
  assumes "driven st k" "lba + n \<le> bd_sectors (dev st k)" "oom st = []" "bd_sector_size (dev st k) = ss" "n * ss < 2 ^ 64"
  shows "read_sectors st k lba n = Some (Some (dev_sectors st k lba n), st)"
proof -
  have l: "length (dev_sectors st k lba n) = n * ss" by (simp add: dev_sectors_def length_sectors)
  have "blockdev_read st (Some k) lba n (replicate (n * ss) 0) = Some (True, dev_sectors st k lba n, st)"
    using read_device[OF assms(1,2), of "replicate (n * ss) 0"] l by (simp add: put_bytes_all)
  then show ?thesis using assms(3-5) by (simp add: read_sectors_def alloc_buffer_ok w64_id)
qed

lemma protective_mbr_ok:
  assumes "driven st k" "oom st = []" "bd_sector_size (dev st k) = ss" "512 \<le> ss" "0 < bd_sectors (dev st k)"
  obtains st' where "write_protective_mbr st k = Some (True, st')" "driven st' k" "g_devices st' = g_devices st"
    "oom st' = []" "\<And>l m. 0 < l \<Longrightarrow> dev_sectors st' k l m = dev_sectors st k l m"
proof -
  have l: "length (dev_sectors st k 0 1) = ss" using length_sectors[of _ _ 1] by (simp add: dev_sectors_def)
  have one: "0 + 1 \<le> bd_sectors (dev st k)" using assms(5) by simp
  have rd: "blockdev_read st (Some k) 0 1 (replicate ss 0) = Some (True, dev_sectors st k 0 1, st)"
    using read_device[OF assms(1) one, of "replicate ss 0"] l by (simp add: put_bytes_all)
  define mbr where "mbr = (put_bytes (put_bytes (dev_sectors st k 0 1) 446 (replicate 64 0)) 446
    (protective_entry (bd_sectors (dev st k))))[510 := 0x55, 511 := 0xAA]"
  have "length mbr = 1 * ss"
    using l assms(4) by (simp add: mbr_def protective_entry_def Let_def)
  from write_step[OF assms(1) one this] obtain st' where st': "blockdev_write st (Some k) 0 1 mbr = Some (True, st')"
    "driven st' k" "g_devices st' = g_devices st" "oom st' = oom st"
    "\<And>l m. l + m \<le> 0 \<or> 0 + 1 \<le> l \<Longrightarrow> dev_sectors st' k l m = dev_sectors st k l m" by metis
  have "write_protective_mbr st k = Some (True, st')"
    using rd st'(1) assms(2,3) by (simp add: write_protective_mbr_def alloc_buffer_ok mbr_def)
  then show thesis by (rule that) (use st' assms(2) in auto)
qed

lemma gpt_store_load:
  assumes "driven st k" "oom st = []" "bd_parent (dev st k) = None" "512 \<le> ss" "ss < 2 ^ 32" "gpt_wf g"
    and "g_entry_sectors g = gpt_entry_sectors (dev st k)" "2 * g_entry_sectors g + 3 \<le> bd_sectors (dev st k)"
    and "primary = gpt_primary (gpt_numbered g) (bd_sectors (dev st k) - 1)"
  obtains st' where "gpt_store st k g = Some (True, st')" "driven st' k" "g_devices st' = g_devices st"
    "gpt_load st' k = Some (Some (g\<lparr>g_header := primary\<rparr>), st')"
    "take GPT_ENTRY_BYTES (dev_sectors st' k (bd_sectors (dev st k) - 1 - g_entry_sectors g) (g_entry_sectors g)) =
      entries_bytes (g_entries g)"
proof -
  let ?n = "bd_sectors (dev st k)" and ?es = "g_entry_sectors g" and ?eb = "entries_bytes (g_entries g)"
  let ?last = "?n - 1" and ?h = "gpt_numbered g"
  have size: "bd_sector_size (dev st k) = ss" using assms(1,3) by (simp add: driven_def disk_of_def)
  have n64: "?n < 2 ^ 64" using assms(1,3) cap(1) by (simp add: driven_def disk_of_def)
  note es = gpt_entry_sectors_bounds[OF size assms(4,5), folded assms(7)]
  have eb: "length ?eb = GPT_ENTRY_BYTES" "entries_of ?eb = g_entries g"
    using entries_roundtrip assms(6) by (auto simp: gpt_wf_def)
  have subs: "sub64 ?n 1 = ?last" "sub64 ?last ?es = ?last - ?es" using n64 assms(8) by (simp_all add: sub64_id)
  have w: "w64 (?es * ss) = ?es * ss" using es(2) by (simp add: w64_id)
  define sec where "sec = put_bytes (replicate (?es * ss) 0) 0 ?eb"
  have sec: "length sec = ?es * ss" "take GPT_ENTRY_BYTES sec = ?eb"
    using es(1) eb(1) by (simp_all add: sec_def put_bytes_def)
  define hb where "hb = put_bytes (replicate ss 0) 0 (header_bytes (gpt_backup ?h ?last ?es))"
  define hp where "hp = put_bytes (replicate ss 0) 0 (header_bytes primary)"
  have pwf: "header_wf primary" unfolding assms(9) by (rule gpt_primary_wf[OF assms(6)]) (use n64 in simp)
  have bwf: "header_wf (gpt_backup ?h ?last ?es)" by (rule gpt_backup_wf[OF assms(6)]) (use n64 in simp)
  have hl: "length hb = 1 * ss" "length hp = 1 * ss"
    using header_bytes_length[OF pwf] header_bytes_length[OF bwf] assms(4) by (simp_all add: hb_def hp_def)
  obtain s1 where s1: "blockdev_write st (Some k) (?last - ?es) ?es sec = Some (True, s1)" "driven s1 k"
    "g_devices s1 = g_devices st" "oom s1 = oom st" "dev_sectors s1 k (?last - ?es) ?es = sec"
    using write_step[OF assms(1) _ sec(1), of "?last - ?es"] assms(8) by auto
  have d1: "dev s1 k = dev st k" using s1(3) by (simp add: dev_def)
  obtain s2 where s2: "blockdev_write s1 (Some k) ?last 1 hb = Some (True, s2)" "driven s2 k"
    "g_devices s2 = g_devices s1" "oom s2 = oom s1"
    "\<And>l m. l + m \<le> ?last \<or> ?last + 1 \<le> l \<Longrightarrow> dev_sectors s2 k l m = dev_sectors s1 k l m"
    using write_step[OF s1(2) _ hl(1), of ?last] assms(8) d1 by auto
  have d2: "dev s2 k = dev st k" using s2(3) s1(3) by (simp add: dev_def)
  obtain s3 where s3: "blockdev_write s2 (Some k) 2 ?es sec = Some (True, s3)" "driven s3 k"
    "g_devices s3 = g_devices s2" "oom s3 = oom s2" "dev_sectors s3 k 2 ?es = sec"
    "\<And>l m. l + m \<le> 2 \<or> 2 + ?es \<le> l \<Longrightarrow> dev_sectors s3 k l m = dev_sectors s2 k l m"
    using write_step[OF s2(2) _ sec(1), of 2] assms(8) d2 by auto
  have d3: "dev s3 k = dev st k" using s3(3) d2 by (simp add: dev_def)
  obtain s4 where s4: "blockdev_write s3 (Some k) 1 1 hp = Some (True, s4)" "driven s4 k"
    "g_devices s4 = g_devices s3" "oom s4 = oom s3" "dev_sectors s4 k 1 1 = hp"
    "\<And>l m. l + m \<le> 1 \<or> 1 + 1 \<le> l \<Longrightarrow> dev_sectors s4 k l m = dev_sectors s3 k l m"
    using write_step[OF s3(2) _ hl(2), of 1] assms(8) d3 by auto
  have d4: "dev s4 k = dev st k" "oom s4 = []" using s4(3,4) s3(4) s2(4) s1(4) d3 assms(2) by (simp_all add: dev_def)
  obtain s5 where s5: "write_protective_mbr s4 k = Some (True, s5)" "driven s5 k" "g_devices s5 = g_devices s4"
    "oom s5 = []" "\<And>l m. 0 < l \<Longrightarrow> dev_sectors s5 k l m = dev_sectors s4 k l m"
    using protective_mbr_ok[OF s4(2) d4(2)] size assms(4,8) d4(1) by auto
  have d5: "dev s5 k = dev st k" using s5(3) d4(1) by (simp add: dev_def)
  have "gpt_store st k g = Some (True, s5)"
    unfolding gpt_store_def Let_def size alloc_buffer_ok[OF assms(2)] prod.case option.case subs w
      sec_def[symmetric] hb_def[symmetric] assms(9)[symmetric] hp_def[symmetric] and_write_def if_True
      s1(1) s2(1) s3(1) s4(1) Option.bind.bind_lunit
    using s5(1) by simp
  moreover have "gpt_load s5 k = Some (Some (g\<lparr>g_header := primary\<rparr>), s5)"
  proof -
    have "dev_sectors s5 k 1 1 = hp" using s4(5) s5(5)[of 1] by simp
    then have r1: "read_sectors s5 k 1 1 = Some (Some hp, s5)"
      using read_sectors_ok[OF s5(2), of 1 1] s5(4) d5 size assms(5,8) by simp
    have "dev_sectors s5 k 2 ?es = sec" using s3(5) s4(6)[of 2 ?es] s5(5)[of 2 ?es] by simp
    then have r2: "read_sectors s5 k 2 ?es = Some (Some sec, s5)"
      using read_sectors_ok[OF s5(2), of 2 ?es] s5(4) d5 size es(2) assms(8) by simp
    have ho: "header_of hp = primary" using header_roundtrip[OF pwf] by (simp add: hp_def put_bytes_def)
    have p: "partition_crc32 (header_bytes (primary\<lparr>gh_header_crc32 := 0\<rparr>)) = gh_header_crc32 primary"
      unfolding assms(9) gpt_primary_def by (rule sealed_crc)
    have f: "gh_signature primary = map char_byte ''EFI PART''" "gh_header_size primary = 92"
      "gh_entry_size primary = GPT_ENTRY_SIZE" "gh_num_entries primary = GPT_ENTRIES" "gh_entries_lba primary = 2"
      "gh_entries_crc32 primary = partition_crc32 ?eb"
      using assms(6) by (simp_all add: assms(9) gpt_primary_def sealed_fields gpt_numbered_def gpt_wf_def)
    have b: "put_bytes (replicate GPT_ENTRY_BYTES 0) 0 ?eb = ?eb" using eb(1) by (simp add: put_bytes_all)
    have g: "GPT_ENTRIES * GPT_ENTRY_SIZE = GPT_ENTRY_BYTES" by (simp add: GPT_ENTRY_BYTES_def)
    have "gpt_load s5 k = Some (Some \<lparr>g_header = primary, g_entries = g_entries g, g_entry_sectors = ?es\<rparr>, s5)"
      using r2 assms(4) s5(4) eb unfolding gpt_load_def r1
      by (simp add: ho Let_def f p d5 size assms(7)[symmetric] alloc_buffer_ok g sec(2) b GPT_ENTRIES_def[symmetric])
        (simp add: GPT_ENTRIES_def)
    then show ?thesis by (cases g) simp
  qed
  moreover have "dev_sectors s5 k (?last - ?es) ?es = sec"
  proof -
    have "?last - ?es + ?es \<le> ?last" "2 + ?es \<le> ?last - ?es" using assms(8) by simp_all
    moreover from this have "1 + 1 \<le> ?last - ?es" "0 < ?last - ?es" by simp_all
    ultimately show ?thesis using s1(5) s2(5) s3(6) s4(6) s5(5) by metis
  qed
  ultimately show thesis
    using that[of s5] s5(2,3) s4(3) s3(3) s2(3) s1(3) sec(2) by simp
qed

end

section \<open>Property\<close>

text \<open>
  C15. A partition table that is stored on a disk is loaded again: \<^verbatim>\<open>gpt_store\<close> succeeds on every disk with
  room for both copies, and \<^verbatim>\<open>gpt_load\<close> then accepts both checksums and returns the same entries, with a
  header that differs only in the positions and checksums \<^verbatim>\<open>gpt_store\<close> fills in.
\<close>

theorem gpt_roundtrip:
  assumes "ram_backed st k" "bd_parent (dev st k) = None" "oom st = []" "gpt_wf g"
    and "g_entry_sectors g = gpt_entry_sectors (dev st k)" "2 * g_entry_sectors g + 3 \<le> bd_sectors (dev st k)"
  shows "\<exists>st'. gpt_store st k g = Some (True, st') \<and> g_devices st' = g_devices st \<and>
    gpt_load st' k = Some (Some (g\<lparr>g_header := gpt_primary (gpt_numbered g) (bd_sectors (dev st k) - 1)\<rparr>), st')"
  by (rule ram_io.gpt_store_load[OF ram_backed_driven[OF assms(1)] assms(3,2) _ _ assms(4,5,6) refl])
    (auto simp: RAMDISK_SECTOR_def)

definition gpt_demo :: gpt where
  "gpt_demo = \<lparr>g_header = empty_gpt_header (dev ram_demo 0) (replicate 16 7) 32,
     g_entries = replicate GPT_ENTRIES zero_entry, g_entry_sectors = 32\<rparr>"

theorem gpt_roundtrip_witness:
  "\<exists>st'. gpt_store ram_demo 0 gpt_demo = Some (True, st') \<and>
    gpt_load st' 0 = Some (Some (gpt_demo\<lparr>g_header := gpt_primary (gpt_numbered gpt_demo) 9999\<rparr>), st')"
proof -
  have d: "bd_parent (dev ram_demo 0) = None" "bd_sectors (dev ram_demo 0) = 10000" "bd_sector_size (dev ram_demo 0) = 512"
    by (simp_all add: ram_demo_dev ram_demo_disk_def zero_dev_def)
  have "ram_backed ram_demo 0" using ram_demo_ok d
    by (simp add: ram_backed_def disk_of_def BLOCKDEV_MAX_def RAMDISK_SECTOR_def ram_demo_dev ram_demo_disk_def)
      (simp add: ram_demo_def zero_dev_def)
  moreover have "entry_wf zero_entry" by (simp add: entry_wf_def zero_entry_def list_all_iff)
  then have "gpt_wf gpt_demo"
    by (simp add: gpt_wf_def gpt_demo_def empty_gpt_header_def header_wf_def guid_random_def sub64_def list_all_iff)
  moreover have "gpt_entry_sectors (dev ram_demo 0) = 32"
    by (simp add: gpt_entry_sectors_def d w32_id GPT_ENTRY_BYTES_def GPT_ENTRIES_def GPT_ENTRY_SIZE_def)
  moreover have "oom ram_demo = []" by (simp add: ram_demo_def)
  ultimately show ?thesis using gpt_roundtrip[of ram_demo 0 gpt_demo] d by (auto simp: gpt_demo_def)
qed

end
