(* ===== verification/Net.thy ===== *)
theory Net
  imports String_T
begin

text \<open>
  The lower network layers: \<^verbatim>\<open>src/impl/net/net_checksum.c\<close>, \<^verbatim>\<open>ethernet.c\<close>, \<^verbatim>\<open>arp.c\<close>, \<^verbatim>\<open>ip.c\<close> and \<^verbatim>\<open>udp.c\<close>.
  Addresses and ports are words, header fields are bytes in network order. A received frame is the byte
  sequence that starts at the frame pointer; it may go on beyond the length that came with it, since the
  driver's buffer does, and what a handler reads with a wrong length is then visible. Frames handed to
  \<^verbatim>\<open>network_manager_send\<close> are collected in \<open>frames\<close>, and UDP deliveries in \<open>delivered\<close>.

  The state is extensible: the operations work on any extension of \<open>net\<close>, so that the transport layer can
  add its own part. Waiting for an ARP answer polls the network, which runs driver code and any packet
  handler: \<^verbatim>\<open>network_manager_poll\<close> is the argument \<open>poll\<close> of the functions that wait, a transformer of the
  whole state. Inside a packet handler a poll is already running, and \<^verbatim>\<open>network_manager_poll\<close> returns at once:
  there \<open>poll\<close> is the identity. The wait is a partial function, since it is the clock that ends it. Buffers
  that the code keeps in static arrays are values here.
\<close>

section \<open>Constants and state\<close>

type_synonym ip = u32
type_synonym mac = bytes

definition ETH_MTU :: nat where "ETH_MTU = 1500"
definition ETHERTYPE_IPV4 :: nat where "ETHERTYPE_IPV4 = 0x0800"
definition ETHERTYPE_ARP :: nat where "ETHERTYPE_ARP = 0x0806"
definition ARP_HTYPE_ETHERNET :: nat where "ARP_HTYPE_ETHERNET = 1"
definition ARP_OP_REQUEST :: nat where "ARP_OP_REQUEST = 1"
definition ARP_OP_REPLY :: nat where "ARP_OP_REPLY = 2"
definition IP_PROTO_TCP :: u8 where "IP_PROTO_TCP = 6"
definition IP_PROTO_UDP :: u8 where "IP_PROTO_UDP = 17"
definition ARP_CACHE_SIZE :: nat where "ARP_CACHE_SIZE = 16"
definition UDP_MAX_HANDLERS :: nat where "UDP_MAX_HANDLERS = 8"

record arp_entry =
  ae_used :: bool
  ae_ip :: ip
  ae_mac :: mac

text \<open>A handler is a function pointer: a number, \<open>0\<close> for NULL.\<close>

record udp_binding =
  ub_used :: bool
  ub_port :: u16
  ub_handler :: nat

record net =
  g_local_mac :: mac
  g_cache :: "arp_entry list"
  g_local_ip :: ip
  g_netmask :: ip
  g_gateway :: ip
  g_dns_ip :: ip
  g_ip_id :: u16
  g_bindings :: "udp_binding list"
  frames :: "bytes list"
  delivered :: "(nat \<times> ip \<times> u16 \<times> bytes) list"
  uptime :: nat

definition w16 :: "nat \<Rightarrow> nat" where
  "w16 n = n mod 2 ^ 16"

section \<open>Checksums\<close>

fun net_checksum_add :: "bytes \<Rightarrow> nat \<Rightarrow> nat" where
  "net_checksum_add (a # b # bs) acc = net_checksum_add bs (w32 (acc + (unat a * 256 + unat b)))"
| "net_checksum_add [a] acc = w32 (acc + unat a * 256)"
| "net_checksum_add [] acc = acc"

text \<open>The loop of \<^verbatim>\<open>net_checksum_fold\<close> before the complement.\<close>

function fold_carries :: "nat \<Rightarrow> nat" where
  "fold_carries acc =
     (if acc div 2 ^ 16 \<noteq> 0 then fold_carries (acc mod 2 ^ 16 + acc div 2 ^ 16) else acc)"
  by pat_completeness auto
termination
proof (relation "measure id", goal_cases)
  case (2 acc)
  have "acc mod 2 ^ 16 + 2 ^ 16 * (acc div 2 ^ 16) = acc" by simp
  moreover have "acc div 2 ^ 16 < 2 ^ 16 * (acc div 2 ^ 16)" using 2 by simp
  ultimately have "acc mod 2 ^ 16 + acc div 2 ^ 16 < acc" by linarith
  then show ?case by simp
qed simp

declare fold_carries.simps [simp del]

definition net_checksum_fold :: "nat \<Rightarrow> nat" where
  "net_checksum_fold acc = 65535 - fold_carries acc"

definition net_ip_checksum :: "bytes \<Rightarrow> nat" where
  "net_ip_checksum hdr = net_checksum_fold (net_checksum_add (take (unat (hdr ! 0 AND 0x0F) * 4) hdr) 0)"

definition pseudo_header_sum :: "ip \<Rightarrow> ip \<Rightarrow> u8 \<Rightarrow> nat \<Rightarrow> nat" where
  "pseudo_header_sum src_ip dst_ip protocol len =
     unat (drop_bit 16 src_ip AND 0xFFFF) + unat (src_ip AND 0xFFFF) +
     unat (drop_bit 16 dst_ip AND 0xFFFF) + unat (dst_ip AND 0xFFFF) + unat protocol + len"

definition net_udp_checksum :: "ip \<Rightarrow> ip \<Rightarrow> bytes \<Rightarrow> nat \<Rightarrow> nat" where
  "net_udp_checksum src_ip dst_ip udp udp_len =
     net_checksum_fold (net_checksum_add (take udp_len udp) (pseudo_header_sum src_ip dst_ip IP_PROTO_UDP udp_len))"

definition net_tcp_checksum :: "ip \<Rightarrow> ip \<Rightarrow> bytes \<Rightarrow> nat \<Rightarrow> nat" where
  "net_tcp_checksum src_ip dst_ip seg seg_len =
     net_checksum_fold (net_checksum_add (take seg_len seg) (pseudo_header_sum src_ip dst_ip IP_PROTO_TCP seg_len))"

section \<open>Ethernet output\<close>

definition eth_send :: "'a net_scheme \<Rightarrow> mac \<Rightarrow> nat \<Rightarrow> bytes \<Rightarrow> 'a net_scheme" where
  "eth_send s dst_mac ethertype payload =
     (let len = (if length payload > ETH_MTU then ETH_MTU else length payload)
      in s\<lparr>frames := frames s @ [dst_mac @ g_local_mac s @ be_bytes 2 ethertype @ take len payload]\<rparr>)"

section \<open>ARP\<close>

definition arp_init :: "'a net_scheme \<Rightarrow> 'a net_scheme" where
  "arp_init s = s\<lparr>g_cache := replicate ARP_CACHE_SIZE \<lparr>ae_used = False, ae_ip = 0, ae_mac = replicate 6 0\<rparr>\<rparr>"

definition arp_cache_insert :: "'a net_scheme \<Rightarrow> ip \<Rightarrow> mac \<Rightarrow> 'a net_scheme" where
  "arp_cache_insert s ip mac =
     (case find (\<lambda>i. ae_used (g_cache s ! i) \<and> ae_ip (g_cache s ! i) = ip) [0..<ARP_CACHE_SIZE] of
        Some i \<Rightarrow> s\<lparr>g_cache := (g_cache s)[i := (g_cache s ! i)\<lparr>ae_mac := mac\<rparr>]\<rparr>
      | None \<Rightarrow>
          (case find (\<lambda>i. \<not> ae_used (g_cache s ! i)) [0..<ARP_CACHE_SIZE] of
             Some i \<Rightarrow> s\<lparr>g_cache := (g_cache s)[i := \<lparr>ae_used = True, ae_ip = ip, ae_mac = mac\<rparr>]\<rparr>
           | None \<Rightarrow> s\<lparr>g_cache := (g_cache s)[0 := \<lparr>ae_used = True, ae_ip = ip, ae_mac = mac\<rparr>]\<rparr>))"

definition arp_cache_lookup :: "'a net_scheme \<Rightarrow> ip \<Rightarrow> mac option" where
  "arp_cache_lookup s ip =
     map_option (\<lambda>i. ae_mac (g_cache s ! i))
       (find (\<lambda>i. ae_used (g_cache s ! i) \<and> ae_ip (g_cache s ! i) = ip) [0..<ARP_CACHE_SIZE])"

definition arp_packet :: "nat \<Rightarrow> mac \<Rightarrow> ip \<Rightarrow> mac \<Rightarrow> ip \<Rightarrow> bytes" where
  "arp_packet oper sender_mac sender_ip target_mac target_ip =
     be_bytes 2 ARP_HTYPE_ETHERNET @ be_bytes 2 ETHERTYPE_IPV4 @ [6, 4] @ be_bytes 2 oper @
     sender_mac @ be_bytes 4 (unat sender_ip) @ target_mac @ be_bytes 4 (unat target_ip)"

definition BROADCAST_MAC :: mac where
  "BROADCAST_MAC = replicate 6 0xFF"

definition arp_send_request :: "'a net_scheme \<Rightarrow> ip \<Rightarrow> 'a net_scheme" where
  "arp_send_request s target_ip =
     eth_send s BROADCAST_MAC ETHERTYPE_ARP
       (arp_packet ARP_OP_REQUEST (g_local_mac s) (g_local_ip s) (replicate 6 0) target_ip)"

definition arp_handle_packet :: "'a net_scheme \<Rightarrow> bytes \<Rightarrow> 'a net_scheme" where
  "arp_handle_packet s pkt =
     (let oper = be_value (slice pkt 6 2);
          sender_mac = slice pkt 8 6;
          sender_ip = of_nat (be_value (slice pkt 14 4));
          target_ip = of_nat (be_value (slice pkt 24 4));
          s = arp_cache_insert s sender_ip sender_mac
      in if oper = ARP_OP_REQUEST \<and> target_ip = g_local_ip s
         then eth_send s sender_mac ETHERTYPE_ARP
                (arp_packet ARP_OP_REPLY (g_local_mac s) (g_local_ip s) sender_mac sender_ip)
         else s)"

text \<open>The wait: \<open>sleep(2)\<close> passes two milliseconds.\<close>

partial_function (option) arp_wait :: "('a net_scheme \<Rightarrow> 'a net_scheme) \<Rightarrow> 'a net_scheme \<Rightarrow> ip \<Rightarrow> nat \<Rightarrow> nat \<Rightarrow> (mac option \<times> 'a net_scheme) option" where
  "arp_wait poll s target_ip start timeout_ms =
     (if uptime s - start < timeout_ms then
        (let s = poll s in
         case arp_cache_lookup s target_ip of
           Some mac \<Rightarrow> Some (Some mac, s)
         | None \<Rightarrow> arp_wait poll (s\<lparr>uptime := uptime s + 2\<rparr>) target_ip start timeout_ms)
      else Some (None, s))"

definition arp_resolve :: "('a net_scheme \<Rightarrow> 'a net_scheme) \<Rightarrow> 'a net_scheme \<Rightarrow> ip \<Rightarrow> nat \<Rightarrow> (mac option \<times> 'a net_scheme) option" where
  "arp_resolve poll s target_ip timeout_ms =
     (case arp_cache_lookup s target_ip of
        Some mac \<Rightarrow> Some (Some mac, s)
      | None \<Rightarrow> let s = arp_send_request s target_ip in arp_wait poll s target_ip (uptime s) timeout_ms)"

section \<open>IP\<close>

definition ip_init :: "'a net_scheme \<Rightarrow> 'a net_scheme" where
  "ip_init s = s\<lparr>g_local_ip := 0, g_netmask := 0, g_gateway := 0, g_dns_ip := 0\<rparr>"

definition ip_configure :: "'a net_scheme \<Rightarrow> ip \<Rightarrow> ip \<Rightarrow> ip \<Rightarrow> 'a net_scheme" where
  "ip_configure s local_ip netmask gateway = s\<lparr>g_local_ip := local_ip, g_netmask := netmask, g_gateway := gateway\<rparr>"

definition ip_set_dns :: "'a net_scheme \<Rightarrow> ip \<Rightarrow> 'a net_scheme" where
  "ip_set_dns s dns = s\<lparr>g_dns_ip := dns\<rparr>"

definition ip_is_configured :: "'a net_scheme \<Rightarrow> bool" where
  "ip_is_configured s = (g_local_ip s \<noteq> 0)"

fun ip_parse_loop :: "bytes \<Rightarrow> u32 \<Rightarrow> u32 \<Rightarrow> u32" where
  "ip_parse_loop [] result octet = push_bit 8 result OR (octet AND 0xFF)"
| "ip_parse_loop (c # cs) result octet =
     (if 48 \<le> c \<and> c \<le> 57 then ip_parse_loop cs result (octet * 10 + (ucast c - 48))
      else if c = 46 then ip_parse_loop cs (push_bit 8 result OR (octet AND 0xFF)) 0
      else ip_parse_loop cs result octet)"

definition ip_parse :: "bytes \<Rightarrow> ip" where
  "ip_parse cs = ip_parse_loop cs 0 0"

definition ip_octet :: "ip \<Rightarrow> nat \<Rightarrow> u64" where
  "ip_octet ip k = ucast (drop_bit k ip AND 0xFF)"

definition ip_to_string :: "ip \<Rightarrow> bytes \<Rightarrow> (int \<times> bytes) option" where
  "ip_to_string ip out =
     snprintf out 16 (map char_byte ''%u.%u.%u.%u'')
       [Val (ip_octet ip 24), Val (ip_octet ip 16), Val (ip_octet ip 8), Val (ip_octet ip 0)]"

definition ip_header :: "nat \<Rightarrow> u16 \<Rightarrow> u8 \<Rightarrow> nat \<Rightarrow> ip \<Rightarrow> ip \<Rightarrow> bytes" where
  "ip_header total_len ident protocol checksum src dst =
     [0x45, 0] @ be_bytes 2 total_len @ be_bytes 2 (unat ident) @ [0, 0, 64, protocol] @ be_bytes 2 checksum @
     be_bytes 4 (unat src) @ be_bytes 4 (unat dst)"

definition next_hop :: "'a net_scheme \<Rightarrow> ip \<Rightarrow> ip" where
  "next_hop s dst_ip =
     (if dst_ip = 0xFFFFFFFF \<or> (dst_ip AND g_netmask s) = (g_local_ip s AND g_netmask s) then dst_ip else g_gateway s)"

text \<open>
  The packet is built in a 1500-byte buffer. The length is computed in 16 bits: for a payload of 65516
  bytes or more the sum wraps, passes the size check, and the copy runs over the end of the buffer;
  that outcome is \<^const>\<open>None\<close>, like a wait that does not end.
\<close>

definition ip_transmit :: "'a net_scheme \<Rightarrow> mac \<Rightarrow> ip \<Rightarrow> u8 \<Rightarrow> bytes \<Rightarrow> (bool \<times> 'a net_scheme) option" where
  "ip_transmit s dst_mac dst_ip protocol payload =
     (let total_len = w16 (20 + length payload) in
      if total_len > ETH_MTU then Some (False, s)
      else if 20 + length payload > ETH_MTU then None
      else
        let hdr0 = ip_header total_len (g_ip_id s) protocol 0 (g_local_ip s) dst_ip;
            hdr = ip_header total_len (g_ip_id s) protocol (net_ip_checksum hdr0) (g_local_ip s) dst_ip;
            s = s\<lparr>g_ip_id := g_ip_id s + 1\<rparr>
        in Some (True, eth_send s dst_mac ETHERTYPE_IPV4 (hdr @ payload)))"

definition ip_send :: "('a net_scheme \<Rightarrow> 'a net_scheme) \<Rightarrow> 'a net_scheme \<Rightarrow> ip \<Rightarrow> u8 \<Rightarrow> bytes \<Rightarrow> (bool \<times> 'a net_scheme) option" where
  "ip_send poll s dst_ip protocol payload =
     (if dst_ip = 0xFFFFFFFF then ip_transmit s (replicate 6 0xFF) dst_ip protocol payload
      else
        (case arp_resolve poll s (next_hop s dst_ip) 1000 of
           None \<Rightarrow> None
         | Some (None, s) \<Rightarrow> Some (False, s)
         | Some (Some mac, s) \<Rightarrow> ip_transmit s mac dst_ip protocol payload))"

text \<open>
  What the receive path hands to the transport layer: the source, the bytes from the payload on and the
  payload length.
\<close>

datatype upcall = To_Udp ip bytes nat | To_Tcp ip bytes nat | Nothing

definition ip_handle_packet :: "'a net_scheme \<Rightarrow> bytes \<Rightarrow> nat \<Rightarrow> upcall" where
  "ip_handle_packet s pkt len =
     (if len < 20 then Nothing
      else
        let ver_ihl = pkt ! 0; ihl = unat (ver_ihl AND 0x0F) * 4;
            dst_ip = of_nat (be_value (slice pkt 16 4));
            total_len = be_value (slice pkt 2 2);
            src_ip = of_nat (be_value (slice pkt 12 4));
            payload_len = w16 (total_len + 2 ^ 16 - ihl)
        in if drop_bit 4 ver_ihl \<noteq> 4 then Nothing
           else if ihl < 20 \<or> len < ihl then Nothing
           else if g_local_ip s \<noteq> 0 \<and> dst_ip \<noteq> g_local_ip s \<and> dst_ip \<noteq> 0xFFFFFFFF then Nothing
           else if total_len > len then Nothing
           else if pkt ! 9 = IP_PROTO_UDP then To_Udp src_ip (drop ihl pkt) payload_len
           else if pkt ! 9 = IP_PROTO_TCP then To_Tcp src_ip (drop ihl pkt) payload_len
           else Nothing)"

section \<open>UDP\<close>

definition udp_init :: "'a net_scheme \<Rightarrow> 'a net_scheme" where
  "udp_init s = s\<lparr>g_bindings := replicate UDP_MAX_HANDLERS \<lparr>ub_used = False, ub_port = 0, ub_handler = 0\<rparr>\<rparr>"

definition udp_register_handler :: "'a net_scheme \<Rightarrow> u16 \<Rightarrow> nat \<Rightarrow> bool \<times> 'a net_scheme" where
  "udp_register_handler s port handler =
     (case find (\<lambda>i. ub_used (g_bindings s ! i) \<and> ub_port (g_bindings s ! i) = port) [0..<UDP_MAX_HANDLERS] of
        Some i \<Rightarrow> (True, s\<lparr>g_bindings := (g_bindings s)[i := (g_bindings s ! i)\<lparr>ub_handler := handler\<rparr>]\<rparr>)
      | None \<Rightarrow>
          (case find (\<lambda>i. \<not> ub_used (g_bindings s ! i)) [0..<UDP_MAX_HANDLERS] of
             Some i \<Rightarrow> (True, s\<lparr>g_bindings := (g_bindings s)[i := \<lparr>ub_used = True, ub_port = port, ub_handler = handler\<rparr>]\<rparr>)
           | None \<Rightarrow> (False, s)))"

definition udp_unregister_handler :: "'a net_scheme \<Rightarrow> u16 \<Rightarrow> 'a net_scheme" where
  "udp_unregister_handler s port =
     s\<lparr>g_bindings := map (\<lambda>b. if ub_used b \<and> ub_port b = port then b\<lparr>ub_used := False\<rparr> else b) (g_bindings s)\<rparr>"

definition udp_header :: "u16 \<Rightarrow> u16 \<Rightarrow> nat \<Rightarrow> nat \<Rightarrow> bytes" where
  "udp_header src_port dst_port len checksum =
     be_bytes 2 (unat src_port) @ be_bytes 2 (unat dst_port) @ be_bytes 2 len @ be_bytes 2 checksum"

text \<open>The 16-bit length wraps here as well, for payloads of 65528 bytes or more.\<close>

definition udp_send :: "('a net_scheme \<Rightarrow> 'a net_scheme) \<Rightarrow> 'a net_scheme \<Rightarrow> ip \<Rightarrow> u16 \<Rightarrow> u16 \<Rightarrow> bytes \<Rightarrow> (bool \<times> 'a net_scheme) option" where
  "udp_send poll s dst_ip src_port dst_port payload =
     (let total = w16 (8 + length payload) in
      if total > ETH_MTU then Some (False, s)
      else if 8 + length payload > ETH_MTU then None
      else
        let c = net_udp_checksum (g_local_ip s) dst_ip (udp_header src_port dst_port total 0 @ payload) total;
            c = (if c = 0 then 0xFFFF else c)
        in ip_send poll s dst_ip IP_PROTO_UDP (udp_header src_port dst_port total c @ payload))"

definition udp_handle_packet :: "'a net_scheme \<Rightarrow> ip \<Rightarrow> bytes \<Rightarrow> nat \<Rightarrow> 'a net_scheme" where
  "udp_handle_packet s src_ip data len =
     (if len < 8 then s
      else
        let dst_port = of_nat (be_value (slice data 2 2));
            src_port = of_nat (be_value (slice data 0 2));
            udp_len = be_value (slice data 4 2);
            udp_len = (if udp_len > len then len else udp_len);
            payload_len = (if udp_len > 8 then udp_len - 8 else 0)
        in case find (\<lambda>i. ub_used (g_bindings s ! i) \<and> ub_port (g_bindings s ! i) = dst_port \<and>
                 ub_handler (g_bindings s ! i) \<noteq> 0) [0..<UDP_MAX_HANDLERS] of
             None \<Rightarrow> s
           | Some i \<Rightarrow>
               s\<lparr>delivered := delivered s @
                   [(ub_handler (g_bindings s ! i), src_ip, src_port, take payload_len (drop 8 data))]\<rparr>)"

section \<open>Ethernet input\<close>

definition eth_learn_sender :: "'a net_scheme \<Rightarrow> mac \<Rightarrow> bytes \<Rightarrow> nat \<Rightarrow> 'a net_scheme" where
  "eth_learn_sender s src_mac ip_pkt len =
     (if len < 20 then s
      else if \<not> ip_is_configured s then s
      else
        let src_ip = of_nat (be_value (slice ip_pkt 12 4)); loc = g_local_ip s; mask = g_netmask s in
        if src_ip = 0 \<or> src_ip = loc \<or> src_ip = 0xFFFFFFFF then s
        else if mask = 0 \<or> (src_ip AND mask) \<noteq> (loc AND mask) then s
        else arp_cache_insert s src_ip src_mac)"

text \<open>UDP packets are delivered here; a TCP segment is left to the caller.\<close>

definition eth_handle_frame :: "'a net_scheme \<Rightarrow> bytes \<Rightarrow> nat \<Rightarrow> 'a net_scheme \<times> upcall" where
  "eth_handle_frame s frame len =
     (if len < 14 then (s, Nothing)
      else
        let ethertype = be_value (slice frame 12 2); payload = drop 14 frame; payload_len = len - 14 in
        if ethertype = ETHERTYPE_ARP then
          (if payload_len \<ge> 28 then (arp_handle_packet s payload, Nothing) else (s, Nothing))
        else if ethertype = ETHERTYPE_IPV4 then
          (let s = eth_learn_sender s (slice frame 6 6) payload payload_len;
               up = ip_handle_packet s payload payload_len
           in case up of
                To_Udp src_ip data n \<Rightarrow> (udp_handle_packet s src_ip data n, up)
              | _ \<Rightarrow> (s, up))
        else (s, Nothing))"

section \<open>The Internet checksum\<close>

fun csum :: "bytes \<Rightarrow> nat" where
  "csum (a # b # bs) = unat a * 256 + unat b + csum bs"
| "csum [a] = unat a * 256"
| "csum [] = 0"

lemma csum_append: "even (length xs) \<Longrightarrow> csum (xs @ ys) = csum xs + csum ys"
  by (induction xs rule: csum.induct) auto

lemma csum_bound: "csum bs \<le> 65535 * ((length bs + 1) div 2)"
proof (induction bs rule: csum.induct)
  case (1 a b bs)
  have "unat a * 256 + unat b \<le> 65535" using unat_u8_less[of a] unat_u8_less[of b] by linarith
  with 1 show ?case by simp
next
  case (2 a)
  show ?case using unat_u8_less[of a] by (simp del: unat_u8_less)
qed simp

lemma csum_be: "csum (be_bytes 2 v) = v mod 65536"
proof -
  have "be_bytes 2 v = [of_nat (v div 256), of_nat v]"
    by (simp add: be_bytes_def numeral_2_eq_2)
  then have "csum (be_bytes 2 v) = v div 256 mod 256 * 256 + v mod 256" by (simp add: unat_of_nat_u8)
  then show ?thesis using mod_mult2_eq[of v 256 256] by simp
qed

lemma checksum_add_csum: "acc + csum bs < 2 ^ 32 \<Longrightarrow> net_checksum_add bs acc = acc + csum bs"
  by (induction bs acc rule: net_checksum_add.induct) (auto simp: w32_def add.assoc)

lemma fold_carries_less: "fold_carries n < 2 ^ 16"
proof (induction n rule: fold_carries.induct)
  case (1 n)
  show ?case
  proof (cases "n div 2 ^ 16 = 0")
    case True
    then show ?thesis by (subst fold_carries.simps) (simp add: div_eq_0_iff)
  next
    case False
    then show ?thesis using 1 by (subst fold_carries.simps) simp
  qed
qed

lemma fold_carries_mod: "fold_carries n mod 65535 = n mod 65535"
proof (induction n rule: fold_carries.induct)
  case (1 n)
  have sum: "x + y + 65535 * y = x + 2 ^ 16 * y" for x y :: nat by simp
  have "(n mod 2 ^ 16 + n div 2 ^ 16) mod 65535 = (n mod 2 ^ 16 + n div 2 ^ 16 + 65535 * (n div 2 ^ 16)) mod 65535"
    by (simp only: mod_mult_self2)
  also have "n mod 2 ^ 16 + n div 2 ^ 16 + 65535 * (n div 2 ^ 16) = n mod 2 ^ 16 + 2 ^ 16 * (n div 2 ^ 16)"
    by (rule sum)
  also have "\<dots> = n" by (rule mod_mult_div_eq)
  finally have step: "(n mod 2 ^ 16 + n div 2 ^ 16) mod 65535 = n mod 65535" .
  show ?case
  proof (cases "n div 2 ^ 16 = 0")
    case True
    then show ?thesis by (simp only: fold_carries.simps[of n] simp_thms if_False)
  next
    case False
    then show ?thesis using 1[OF False] step by (simp only: fold_carries.simps[of n] if_True simp_thms)
  qed
qed

lemma fold_carries_pos: "0 < n \<Longrightarrow> 0 < fold_carries n"
proof (induction n rule: fold_carries.induct)
  case (1 n)
  then show ?case by (subst fold_carries.simps) auto
qed

lemma fold_zero: "0 < m \<Longrightarrow> m mod 65535 = 0 \<Longrightarrow> net_checksum_fold m = 0"
proof -
  assume m: "0 < m" "m mod 65535 = 0"
  have "fold_carries m mod 65535 = 0" using m by (simp add: fold_carries_mod)
  moreover have "0 < fold_carries m" using m by (intro fold_carries_pos)
  moreover have "fold_carries m < 65536" using fold_carries_less[of m] by simp
  ultimately have "fold_carries m = 65535" by (auto simp: mod_eq_0_iff_dvd elim!: dvdE)
  then show ?thesis by (simp add: net_checksum_fold_def)
qed

text \<open>
  Adding the checksum of a sum to the sum gives a multiple of 65535, and so does adding 65535 in place
  of a checksum that is zero.
\<close>

lemma checksum_cancels:
  assumes "c = net_checksum_fold n \<or> net_checksum_fold n = 0 \<and> c = 65535"
  shows "(n + c) mod 65535 = 0"
proof -
  let ?r = "fold_carries n"
  have r: "?r \<le> 65535" using fold_carries_less[of n] by simp
  have c: "(?r + c) mod 65535 = 0" using assms r by (auto simp: net_checksum_fold_def)
  have "(n + c) mod 65535 = (n mod 65535 + c) mod 65535" by (simp add: mod_simps)
  also have "\<dots> = (?r mod 65535 + c) mod 65535" by (simp add: fold_carries_mod)
  also have "\<dots> = (?r + c) mod 65535" by (simp add: mod_simps)
  finally show ?thesis using c by simp
qed

lemma checksum_fold_less: "net_checksum_fold n \<le> 65535"
  by (simp add: net_checksum_fold_def)

text \<open>A two-byte checksum field at an even offset: zero while the sum is taken, then the checksum.\<close>

lemma field_checksum:
  assumes even: "even (length pre)" and pos: "0 < acc + csum pre + csum post"
    and bound: "acc + csum pre + csum post + 65535 < 2 ^ 32"
    and c0: "c0 = net_checksum_fold (net_checksum_add (pre @ be_bytes 2 0 @ post) acc)"
    and c: "c = c0 \<or> c0 = 0 \<and> c = 65535"
  shows "net_checksum_fold (net_checksum_add (pre @ be_bytes 2 c @ post) acc) = 0"
proof -
  let ?n = "acc + csum pre + csum post"
  have sum: "csum (pre @ be_bytes 2 v @ post) = csum pre + v mod 65536 + csum post" for v
    using even by (simp add: csum_append csum_be)
  have c0': "c0 = net_checksum_fold ?n"
    using bound by (simp add: c0 checksum_add_csum sum add.assoc)
  have le: "c \<le> 65535" using c c0' checksum_fold_less[of ?n] by auto
  have "acc + csum (pre @ be_bytes 2 c @ post) = ?n + c" using le by (simp add: sum)
  then have "net_checksum_add (pre @ be_bytes 2 c @ post) acc = ?n + c"
    using bound le by (simp add: checksum_add_csum)
  moreover have "(?n + c) mod 65535 = 0" using checksum_cancels[of c ?n] c c0' by auto
  moreover have "0 < ?n + c" using pos by linarith
  ultimately show ?thesis by (simp only: fold_zero)
qed

lemma ip_header_split:
  "ip_header n i p c src dst =
     ([0x45, 0] @ be_bytes 2 n @ be_bytes 2 (unat i) @ [0, 0, 64, p]) @ be_bytes 2 c @ be_bytes 4 (unat src) @ be_bytes 4 (unat dst)"
  by (simp add: ip_header_def)

lemma length_ip_header [simp]: "length (ip_header n i p c src dst) = 20"
  by (simp add: ip_header_def)

lemma ip_header_verifies:
  "net_ip_checksum (ip_header n i p (net_ip_checksum (ip_header n i p 0 src dst)) src dst) = 0"
proof -
  let ?pre = "[0x45, 0] @ be_bytes 2 n @ be_bytes 2 (unat i) @ [0, 0, 64, p] :: bytes"
  let ?post = "be_bytes 4 (unat src) @ be_bytes 4 (unat dst)"
  have h: "net_ip_checksum (ip_header n i p c src dst) =
      net_checksum_fold (net_checksum_add (?pre @ be_bytes 2 c @ ?post) 0)" for c
  proof -
    have "ip_header n i p c src dst ! 0 = 0x45" by (simp add: ip_header_def)
    then have "take (unat (ip_header n i p c src dst ! 0 AND 0x0F) * 4) (ip_header n i p c src dst) =
        ip_header n i p c src dst" by simp
    then show ?thesis by (simp add: net_ip_checksum_def ip_header_split)
  qed
  have pos: "0 < csum ?pre" by simp
  have "csum ?pre \<le> 65535 * 5" "csum ?post \<le> 65535 * 4"
    using csum_bound[of ?pre] csum_bound[of ?post] by simp_all
  then have bound: "0 + csum ?pre + csum ?post + 65535 < 2 ^ 32" by simp
  show ?thesis unfolding h
    by (rule field_checksum[OF _ _ bound refl disjI1[OF refl]]) (use pos in simp_all)
qed

lemma pseudo_header_bound: "pseudo_header_sum src dst p len \<le> 4 * 65535 + 255 + len"
proof -
  have m: "unat (x AND 0xFFFF) \<le> 65535" for x :: u32
  proof -
    have "x AND 0xFFFF \<le> 0xFFFF" by (rule word_and_le1)
    then show ?thesis by (simp add: word_le_nat_alt)
  qed
  have "unat p \<le> 255" using unat_u8_less[of p] by linarith
  then show ?thesis
    using m[of "drop_bit 16 src"] m[of src] m[of "drop_bit 16 dst"] m[of dst]
    unfolding pseudo_header_sum_def by linarith
qed

text \<open>A transport segment: an even header part, the checksum field and the rest.\<close>

lemma segment_verifies:
  assumes "even (length pre)" "0 < len" "len = length pre + 2 + length post" "len \<le> ETH_MTU"
    and "c0 = net_checksum_fold (net_checksum_add (pre @ be_bytes 2 0 @ post) (pseudo_header_sum src dst p len))"
    and "c = c0 \<or> c0 = 0 \<and> c = 65535"
  shows "net_checksum_fold (net_checksum_add (pre @ be_bytes 2 c @ post) (pseudo_header_sum src dst p len)) = 0"
proof (rule field_checksum[OF assms(1) _ _ assms(5,6)])
  show "0 < pseudo_header_sum src dst p len + csum pre + csum post"
    using assms(2) by (simp add: pseudo_header_sum_def)
  have "(length pre + 1) div 2 \<le> 750" "(length post + 1) div 2 \<le> 750" using assms(3,4) by (auto simp: ETH_MTU_def)
  then have "csum pre \<le> 65535 * 750" "csum post \<le> 65535 * 750 " 
    using csum_bound[of pre] csum_bound[of post] by (meson le_trans mult_le_mono2)+
  then show "pseudo_header_sum src dst p len + csum pre + csum post + 65535 < 2 ^ 32"
    using pseudo_header_bound[of src dst p len] assms(4) by (simp add: ETH_MTU_def)
qed

end
