(* ===== verification/Net_Stack.thy ===== *)
theory Net_Stack
  imports Net
begin

text \<open>
  Properties of the lower network layers: checksums, addresses as text, the ARP cache and the UDP table
  as maps, and the path of a datagram from one host's \<^verbatim>\<open>udp_send\<close> to the other host's handler.
\<close>

section \<open>Slot tables\<close>

text \<open>
  The ARP cache and the UDP table are arrays searched in order, with a flag for the slots in use. The
  partial map that such an array stands for:
\<close>

definition slot_lookup :: "('e \<Rightarrow> bool) \<Rightarrow> ('e \<Rightarrow> 'k) \<Rightarrow> ('e \<Rightarrow> 'v) \<Rightarrow> 'e list \<Rightarrow> 'k \<Rightarrow> 'v option" where
  "slot_lookup used key val es k =
     map_option (\<lambda>i. val (es ! i)) (find (\<lambda>i. used (es ! i) \<and> key (es ! i) = k) [0..<length es])"

definition slots_ok :: "('e \<Rightarrow> bool) \<Rightarrow> ('e \<Rightarrow> 'k) \<Rightarrow> 'e list \<Rightarrow> bool" where
  "slots_ok used key es \<longleftrightarrow>
     (\<forall>i < length es. \<forall>j < length es. used (es ! i) \<and> used (es ! j) \<and> key (es ! i) = key (es ! j) \<longrightarrow> i = j)"

lemma find_upt_Some: "find P [0..<n] = Some i \<Longrightarrow> i < n \<and> P i"
  by (auto simp: find_Some_iff)

lemma find_upt_None: "find P [0..<n] = None \<longleftrightarrow> (\<forall>i<n. \<not> P i)"
  by (auto simp: find_None_iff)

lemma find_upt_unique: "i < n \<Longrightarrow> P i \<Longrightarrow> (\<And>j. j < n \<Longrightarrow> P j \<Longrightarrow> j = i) \<Longrightarrow> find P [0..<n] = Some i"
  using find_upt_Some[of P n] find_upt_None[of P n] by (cases "find P [0..<n]") blast+

lemma slot_lookup_at:
  assumes "slots_ok used key es" "i < length es" "used (es ! i)" "key (es ! i) = k"
  shows "slot_lookup used key val es k = Some (val (es ! i))"
proof -
  have "find (\<lambda>i. used (es ! i) \<and> key (es ! i) = k) [0..<length es] = Some i"
    using assms by (intro find_upt_unique) (auto simp: slots_ok_def)
  then show ?thesis by (simp add: slot_lookup_def)
qed

lemma slot_lookup_none:
  "slot_lookup used key val es k = None \<longleftrightarrow> (\<forall>i < length es. \<not> (used (es ! i) \<and> key (es ! i) = k))"
  by (simp add: slot_lookup_def find_upt_None)

text \<open>Writing a slot, when no other slot holds the key: the old binding of the slot goes, the new one comes.\<close>

lemma slot_store:
  assumes ok: "slots_ok used key es" and i: "i < length es" and e: "used e" "key e = k"
    and other: "\<And>j. j < length es \<Longrightarrow> j \<noteq> i \<Longrightarrow> \<not> (used (es ! j) \<and> key (es ! j) = k)"
  shows "slots_ok used key (es[i := e]) \<and>
    slot_lookup used key val (es[i := e]) =
      (if used (es ! i) then (slot_lookup used key val es)(key (es ! i) := None) else slot_lookup used key val es)(k \<mapsto> val e)"
proof (intro conjI ext)
  show ok': "slots_ok used key (es[i := e])"
    unfolding slots_ok_def
  proof (intro allI impI)
    fix a b
    assume "a < length (es[i := e])" "b < length (es[i := e])"
      and "used (es[i := e] ! a) \<and> used (es[i := e] ! b) \<and> key (es[i := e] ! a) = key (es[i := e] ! b)"
    then show "a = b"
      using e ok other[of a] other[of b] unfolding slots_ok_def by (cases "a = i"; cases "b = i") auto
  qed
  fix q
  let ?r = "((if used (es ! i) then (slot_lookup used key val es)(key (es ! i) := None)
      else slot_lookup used key val es)(k \<mapsto> val e)) q"
  show "slot_lookup used key val (es[i := e]) q = ?r"
  proof (cases "q = k")
    case True
    then show ?thesis using slot_lookup_at[OF ok', of i k val] i e by simp
  next
    case False
    show ?thesis
    proof (cases "slot_lookup used key val (es[i := e]) q")
      case None
      then have no: "\<not> (used (es ! j) \<and> key (es ! j) = q)" if "j < length es" "j \<noteq> i" for j
        using that slot_lookup_none[of used key val "es[i := e]" q] by auto
      have "?r = None"
      proof (cases "used (es ! i) \<and> key (es ! i) = q")
        case True
        then show ?thesis using False by simp
      next
        case no': False
        then have "slot_lookup used key val es q = None" using no slot_lookup_none[of used key val es q] by blast
        then show ?thesis using False by simp
      qed
      then show ?thesis using None by simp
    next
      case (Some v)
      then obtain j where j: "j < length es" "used (es[i := e] ! j)" "key (es[i := e] ! j) = q" "v = val (es[i := e] ! j)"
        by (auto simp: slot_lookup_def dest: find_upt_Some)
      have ji: "j \<noteq> i" using j e i False by auto
      then have "slot_lookup used key val es q = Some v" using slot_lookup_at[OF ok j(1), of q val] j by simp
      moreover have "\<not> (used (es ! i) \<and> key (es ! i) = q)"
        using ok i j ji unfolding slots_ok_def by auto
      ultimately show ?thesis using Some False by auto
    qed
  qed
qed

section \<open>The ARP cache\<close>

definition arp_ok :: "'a net_scheme \<Rightarrow> bool" where
  "arp_ok s \<longleftrightarrow> length (g_cache s) = ARP_CACHE_SIZE \<and> slots_ok ae_used ae_ip (g_cache s)"

text \<open>All slots are in use, so that a new address takes the place of another.\<close>

definition arp_full :: "'a net_scheme \<Rightarrow> bool" where
  "arp_full s \<longleftrightarrow> (\<forall>e \<in> set (g_cache s). ae_used e)"

lemma arp_lookup_slot: "arp_ok s \<Longrightarrow> arp_cache_lookup s = slot_lookup ae_used ae_ip ae_mac (g_cache s)"
  by (simp add: arp_ok_def arp_cache_lookup_def slot_lookup_def fun_eq_iff)

lemma arp_insert_frame [simp]:
  "g_local_mac (arp_cache_insert s ip mac) = g_local_mac s" "g_local_ip (arp_cache_insert s ip mac) = g_local_ip s"
  "g_netmask (arp_cache_insert s ip mac) = g_netmask s" "g_gateway (arp_cache_insert s ip mac) = g_gateway s"
  "g_ip_id (arp_cache_insert s ip mac) = g_ip_id s" "g_bindings (arp_cache_insert s ip mac) = g_bindings s"
  "frames (arp_cache_insert s ip mac) = frames s" "delivered (arp_cache_insert s ip mac) = delivered s"
  "uptime (arp_cache_insert s ip mac) = uptime s"
  by (simp_all add: arp_cache_insert_def split: option.splits)

lemma arp_insert:
  assumes "arp_ok s"
  shows "arp_ok (arp_cache_insert s ip mac) \<and>
    arp_cache_lookup (arp_cache_insert s ip mac) =
      (if arp_full s \<and> arp_cache_lookup s ip = None
       then (arp_cache_lookup s)(ae_ip (g_cache s ! 0) := None) else arp_cache_lookup s)(ip \<mapsto> mac)"
proof -
  let ?es = "g_cache s" and ?L = "slot_lookup ae_used ae_ip ae_mac"
  have len: "length ?es = ARP_CACHE_SIZE" and ok: "slots_ok ae_used ae_ip ?es" using assms by (auto simp: arp_ok_def)
  have finish: "arp_ok s' \<and> arp_cache_lookup s' = m"
    if "g_cache s' = ?es[i := e]" "slots_ok ae_used ae_ip (?es[i := e])" "?L (?es[i := e]) = m" for s' i e m
    using that len arp_lookup_slot[of s'] by (simp add: arp_ok_def)
  note L = arp_lookup_slot[OF assms]
  show ?thesis
  proof (cases "find (\<lambda>i. ae_used (?es ! i) \<and> ae_ip (?es ! i) = ip) [0..<ARP_CACHE_SIZE]")
    case (Some i)
    let ?e = "(?es ! i)\<lparr>ae_mac := mac\<rparr>"
    have i: "i < length ?es" "ae_used (?es ! i)" "ae_ip (?es ! i) = ip" using find_upt_Some[OF Some] len by auto
    have st: "slots_ok ae_used ae_ip (?es[i := ?e])" "?L (?es[i := ?e]) = (?L ?es)(ip \<mapsto> mac)"
      using slot_store[OF ok i(1), of ?e ip ae_mac] i ok by (auto simp: slots_ok_def)
    have "arp_cache_lookup s ip \<noteq> None" using slot_lookup_at[OF ok i, of ae_mac] by (simp add: L)
    then show ?thesis using Some st L by (intro finish[of _ i ?e]) (auto simp: arp_cache_insert_def)
  next
    case None
    let ?e = "\<lparr>ae_used = True, ae_ip = ip, ae_mac = mac\<rparr>"
    have none: "\<not> (ae_used (?es ! j) \<and> ae_ip (?es ! j) = ip)" if "j < length ?es" for j
      using None that len by (simp add: find_upt_None)
    have st: "slots_ok ae_used ae_ip (?es[i := ?e])" "?L (?es[i := ?e]) =
        (if ae_used (?es ! i) then (?L ?es)(ae_ip (?es ! i) := None) else ?L ?es)(ip \<mapsto> mac)" if "i < length ?es" for i
      using slot_store[OF ok that, of ?e ip ae_mac] none by auto
    have n: "arp_cache_lookup s ip = None" using none by (simp add: L slot_lookup_none)
    show ?thesis
    proof (cases "find (\<lambda>i. \<not> ae_used (?es ! i)) [0..<ARP_CACHE_SIZE]")
      case (Some i)
      have i: "i < length ?es" "\<not> ae_used (?es ! i)" using find_upt_Some[OF Some] len by auto
      have "\<not> arp_full s" using i by (auto simp: arp_full_def)
      then show ?thesis using None Some st[OF i(1)] i L by (intro finish[of _ i ?e]) (auto simp: arp_cache_insert_def)
    next
      case free: None
      have all: "ae_used (?es ! j)" if "j < length ?es" for j using free that len by (simp add: find_upt_None)
      have full: "arp_full s" using all by (auto simp: arp_full_def in_set_conv_nth)
      have z: "0 < length ?es" using len by (simp add: ARP_CACHE_SIZE_def)
      show ?thesis using None free st[OF z] all[OF z] full n L by (intro finish[of _ 0 ?e]) (auto simp: arp_cache_insert_def)
    qed
  qed
qed

lemma arp_init_ok: "arp_ok (arp_init s)" "arp_cache_lookup (arp_init s) = Map.empty"
  by (auto simp: arp_ok_def arp_init_def slots_ok_def arp_cache_lookup_def fun_eq_iff find_upt_None)

text \<open>
  What the layers above use of the cache, and what follows from it: a sender that has just been learnt
  is resolved at once, without a request and without polling.
\<close>

locale neighbour_cache =
  fixes ok :: "'s \<Rightarrow> bool" and insert_entry :: "'s \<Rightarrow> ip \<Rightarrow> mac \<Rightarrow> 's" and lookup :: "'s \<Rightarrow> ip \<Rightarrow> mac option"
  assumes keeps_ok: "ok s \<Longrightarrow> ok (insert_entry s ip mac)"
    and finds_new: "ok s \<Longrightarrow> lookup (insert_entry s ip mac) ip = Some mac"
begin

lemma finds_latest:
  "ok s \<Longrightarrow> lookup (insert_entry (foldl (\<lambda>s (ip, mac). insert_entry s ip mac) s learnt) ip mac) ip = Some mac"
proof (induction learnt arbitrary: s)
  case Nil
  then show ?case by (simp add: finds_new)
next
  case (Cons a learnt)
  then show ?case by (cases a) (simp add: keeps_ok)
qed

end

interpretation arp: neighbour_cache arp_ok arp_cache_insert arp_cache_lookup
  by unfold_locales (auto simp: arp_insert)

lemma arp_resolve_hit: "arp_cache_lookup s ip = Some mac \<Longrightarrow> arp_resolve poll s ip t = Some (Some mac, s)"
  by (simp add: arp_resolve_def)

section \<open>The UDP table\<close>

definition udp_ok :: "'a net_scheme \<Rightarrow> bool" where
  "udp_ok s \<longleftrightarrow> length (g_bindings s) = UDP_MAX_HANDLERS \<and> slots_ok ub_used ub_port (g_bindings s)"

abbreviation udp_lookup :: "'a net_scheme \<Rightarrow> u16 \<Rightarrow> nat option" where
  "udp_lookup s \<equiv> slot_lookup ub_used ub_port ub_handler (g_bindings s)"

lemma udp_register:
  assumes "udp_ok s"
  shows "case udp_register_handler s port h of (done, s') \<Rightarrow>
    udp_ok s' \<and>
    (done \<longleftrightarrow> udp_lookup s port \<noteq> None \<or> (\<exists>b \<in> set (g_bindings s). \<not> ub_used b)) \<and>
    udp_lookup s' = (if done then (udp_lookup s)(port \<mapsto> h) else udp_lookup s)"
proof -
  let ?es = "g_bindings s"
  have len: "length ?es = UDP_MAX_HANDLERS" and ok: "slots_ok ub_used ub_port ?es" using assms by (auto simp: udp_ok_def)
  show ?thesis
  proof (cases "find (\<lambda>i. ub_used (?es ! i) \<and> ub_port (?es ! i) = port) [0..<UDP_MAX_HANDLERS]")
    case (Some i)
    let ?e = "(?es ! i)\<lparr>ub_handler := h\<rparr>"
    have i: "i < length ?es" "ub_used (?es ! i)" "ub_port (?es ! i) = port" using find_upt_Some[OF Some] len by auto
    have st: "slots_ok ub_used ub_port (?es[i := ?e])"
      "slot_lookup ub_used ub_port ub_handler (?es[i := ?e]) = (udp_lookup s)(port \<mapsto> h)"
      using slot_store[OF ok i(1), of ?e port ub_handler] i ok by (auto simp: slots_ok_def)
    have "udp_lookup s port \<noteq> None" using slot_lookup_at[OF ok i, of ub_handler] by simp
    then show ?thesis using Some st len by (simp add: udp_register_handler_def udp_ok_def)
  next
    case None
    let ?e = "\<lparr>ub_used = True, ub_port = port, ub_handler = h\<rparr>"
    have none: "\<not> (ub_used (?es ! j) \<and> ub_port (?es ! j) = port)" if "j < length ?es" for j
      using None that len by (simp add: find_upt_None)
    then have n: "udp_lookup s port = None" by (simp add: slot_lookup_none)
    show ?thesis
    proof (cases "find (\<lambda>i. \<not> ub_used (?es ! i)) [0..<UDP_MAX_HANDLERS]")
      case (Some i)
      have i: "i < length ?es" "\<not> ub_used (?es ! i)" using find_upt_Some[OF Some] len by auto
      have "slots_ok ub_used ub_port (?es[i := ?e])"
        "slot_lookup ub_used ub_port ub_handler (?es[i := ?e]) = (udp_lookup s)(port \<mapsto> h)"
        using slot_store[OF ok i(1), of ?e port ub_handler] i none by auto
      moreover have "\<exists>b \<in> set ?es. \<not> ub_used b" using i nth_mem by blast
      ultimately show ?thesis using None Some len by (simp add: udp_register_handler_def udp_ok_def)
    next
      case free: None
      have "\<not> (\<exists>b \<in> set ?es. \<not> ub_used b)" using free len by (auto simp: find_upt_None in_set_conv_nth)
      then show ?thesis using None free n assms by (simp add: udp_register_handler_def)
    qed
  qed
qed

lemma udp_unregister:
  assumes "udp_ok s"
  shows "udp_ok (udp_unregister_handler s port) \<and>
    udp_lookup (udp_unregister_handler s port) = (udp_lookup s)(port := None)"
proof -
  let ?es = "g_bindings s" and ?f = "\<lambda>b. if ub_used b \<and> ub_port b = port then b\<lparr>ub_used := False\<rparr> else b"
  have f: "ub_port (?f b) = ub_port b" "ub_used (?f b) \<longleftrightarrow> ub_used b \<and> ub_port b \<noteq> port"
    "ub_used (?f b) \<Longrightarrow> ub_handler (?f b) = ub_handler b" for b by auto
  have ok: "slots_ok ub_used ub_port ?es" using assms by (simp add: udp_ok_def)
  then have "slots_ok ub_used ub_port (map ?f ?es)" by (auto simp: slots_ok_def f simp del: if_split_asm)
  moreover have "slot_lookup ub_used ub_port ub_handler (map ?f ?es) q = ((udp_lookup s)(port := None)) q" for q
  proof -
    have "find (\<lambda>i. ub_used (map ?f ?es ! i) \<and> ub_port (map ?f ?es ! i) = q) [0..<length ?es] =
        (if q = port then None else find (\<lambda>i. ub_used (?es ! i) \<and> ub_port (?es ! i) = q) [0..<length ?es])"
    proof (cases "q = port")
      case True
      then show ?thesis by (auto simp: find_upt_None f)
    next
      case False
      then show ?thesis using find_cong[of "[0..<length ?es]" "[0..<length ?es]"
          "\<lambda>i. ub_used (map ?f ?es ! i) \<and> ub_port (map ?f ?es ! i) = q" "\<lambda>i. ub_used (?es ! i) \<and> ub_port (?es ! i) = q"]
        by (auto simp: f)
    qed
    then show ?thesis
      by (cases "find (\<lambda>i. ub_used (?es ! i) \<and> ub_port (?es ! i) = q) [0..<length ?es]")
        (auto simp: slot_lookup_def dest!: find_upt_Some)
  qed
  ultimately show ?thesis using assms by (auto simp: udp_ok_def udp_unregister_handler_def fun_eq_iff)
qed

lemma udp_init_ok: "udp_ok (udp_init s)" "udp_lookup (udp_init s) = Map.empty"
  by (auto simp: udp_ok_def udp_init_def slots_ok_def slot_lookup_none fun_eq_iff)

section \<open>Fields of the headers\<close>

lemma be_value_2: "be_value [a, b] = unat a * 256 + unat b"
  by (simp add: be_value_def)

lemma be_port [simp]: "of_nat (be_value (be_bytes 2 (unat p))) = (p :: u16)"
proof -
  have "unat p < 65536" using unsigned_less[of p] by simp
  then show ?thesis by (simp add: be_value_bytes)
qed

lemma be_ip [simp]: "of_nat (be_value (be_bytes 4 (unat a))) = (a :: u32)"
proof -
  have "unat a < 256 ^ 4" using unsigned_less[of a] by simp
  then show ?thesis by (simp add: be_value_bytes)
qed

lemmas header_slices = slice_skip slice_here slice_here[of _ _ "[]", simplified]

lemma slice_nested: "slice (xs @ ys @ zs) (length xs) (length ys) = ys"
  by (simp add: slice_def)

lemma ip_header_fields [simp]:
  "slice (ip_header n i p c src dst @ rest) 2 2 = be_bytes 2 n"
  "slice (ip_header n i p c src dst @ rest) 12 4 = be_bytes 4 (unat src)"
  "slice (ip_header n i p c src dst @ rest) 16 4 = be_bytes 4 (unat dst)"
  "(ip_header n i p c src dst @ rest) ! 0 = 0x45"
  "(ip_header n i p c src dst @ rest) ! 9 = p"
  "drop 20 (ip_header n i p c src dst @ rest) = rest"
  by (simp_all add: ip_header_def slice_def nth_append)

lemma length_udp_header [simp]: "length (udp_header sp dp n c) = 8"
  by (simp add: udp_header_def)

lemma udp_header_fields [simp]:
  "slice (udp_header sp dp n c @ rest) 0 2 = be_bytes 2 (unat sp)"
  "slice (udp_header sp dp n c @ rest) 2 2 = be_bytes 2 (unat dp)"
  "slice (udp_header sp dp n c @ rest) 4 2 = be_bytes 2 n"
  "drop 8 (udp_header sp dp n c @ rest) = rest"
  by (simp_all add: udp_header_def slice_def)

section \<open>Addresses as text\<close>

lemma ip_parse_digits:
  "(\<And>x. x \<in> set ds \<Longrightarrow> is_digit x) \<Longrightarrow>
   ip_parse_loop (ds @ rest) r octet = ip_parse_loop rest r (foldl (\<lambda>v c. v * 10 + (ucast c - 48)) octet ds)"
  by (induction ds arbitrary: octet) (auto simp: is_digit_def)

lemma octet_low:
  "foldl (\<lambda>v c. v * 10 + (ucast c - 48)) 0 (map (\<lambda>d. of_nat (48 + d) :: u8) (rev (low_digits v))) = (of_nat v :: u32)"
proof (induction v rule: low_digits.induct)
  case (1 v)
  show ?case
  proof (cases "v = 0")
    case False
    have "v mod 10 < 10" by simp
    then have d: "ucast (of_nat (48 + v mod 10) :: u8) = (of_nat (48 + v mod 10) :: u32)"
      by (intro unsigned_word_eqI)
        (simp add: unsigned_ucast_eq unat_of_nat_u8 unsigned_of_nat take_bit_eq_mod del: of_nat_add)
    have "foldl (\<lambda>v c. v * 10 + (ucast c - 48)) 0 (map (\<lambda>d. of_nat (48 + d) :: u8) (rev (low_digits v))) =
        (of_nat (v div 10) * 10 + (of_nat (48 + v mod 10) - 48) :: u32)"
      using 1[OF False] False d by (subst low_digits.simps) (simp del: of_nat_add)
    also have "\<dots> = of_nat (v div 10 * 10 + v mod 10)" by (simp only: of_nat_add of_nat_mult) simp
    finally show ?thesis by (simp only: div_mult_mod_eq)
  qed simp
qed

lemma octet_text: "foldl (\<lambda>v c. v * 10 + (ucast c - 48)) 0 (uint_to_str v) = (of_nat v :: u32)"
  using octet_low[of v] by (simp add: uint_to_str_digits del: of_nat_add)

text \<open>The text of an address: its four octets in decimal, separated by dots.\<close>

definition dotted :: "ip \<Rightarrow> bytes" where
  "dotted ip = uint_to_str (unat (drop_bit 24 ip AND 0xFF)) @ [46] @ uint_to_str (unat (drop_bit 16 ip AND 0xFF)) @ [46] @
     uint_to_str (unat (drop_bit 8 ip AND 0xFF)) @ [46] @ uint_to_str (unat (ip AND 0xFF))"

lemma octets_compose:
  "push_bit 8 (push_bit 8 (push_bit 8 (drop_bit 24 ip AND 0xFF) OR (drop_bit 16 ip AND 0xFF)) OR (drop_bit 8 ip AND 0xFF)) OR
     (ip AND 0xFF) = (ip :: u32)"
proof -
  have m: "(0xFF :: u32) = mask 8" by (simp add: mask_eq_exp_minus_1)
  show ?thesis unfolding m
  proof (rule bit_word_eqI)
    fix n assume "n < LENGTH(32)"
    then consider "n < 8" | "8 \<le> n" "n < 16" | "16 \<le> n" "n < 24" | "24 \<le> n" "n < 32" by fastforce
    then show "bit (push_bit 8 (push_bit 8 (push_bit 8 (drop_bit 24 ip AND mask 8) OR (drop_bit 16 ip AND mask 8)) OR
        (drop_bit 8 ip AND mask 8)) OR (ip AND mask 8)) n = bit ip n"
      by cases (simp_all add: bit_simps less_diff_conv2)
  qed
qed

lemma ip_parse_dotted: "ip_parse (dotted ip) = ip"
proof -
  have d: "\<And>x. x \<in> set (uint_to_str v) \<Longrightarrow> is_digit x" for v by (rule uint_to_str_is_digit)
  have e: "ip_parse_loop (uint_to_str v) r 0 = push_bit 8 r OR (of_nat v AND 0xFF)" for v r
    using ip_parse_digits[of "uint_to_str v" "[]", OF d] by (simp add: octet_text)
  have "ip_parse (dotted ip) = push_bit 8 (push_bit 8 (push_bit 8 (drop_bit 24 ip AND 0xFF) OR
      (drop_bit 16 ip AND 0xFF)) OR (drop_bit 8 ip AND 0xFF)) OR (ip AND 0xFF)"
    unfolding ip_parse_def dotted_def by (simp add: ip_parse_digits[OF d] octet_text e and.assoc)
  then show ?thesis by (simp only: octets_compose)
qed

lemma and_255_less: "unat ((x :: u32) AND 0xFF) < 256"
proof -
  have "x AND 0xFF \<le> 0xFF" by (rule word_and_le1)
  then show ?thesis by (simp add: word_le_nat_alt)
qed

lemma octet_length: "v < 256 \<Longrightarrow> length (uint_to_str v) \<le> 3"
  using low_digits_length[of 3 v] by (auto simp: uint_to_str_digits)

lemma dotted_length: "length (dotted ip) \<le> 15"
proof -
  note o = octet_length[OF and_255_less]
  show ?thesis using o[of "drop_bit 24 ip"] o[of "drop_bit 16 ip"] o[of "drop_bit 8 ip"] o[of ip]
    by (simp add: dotted_def)
qed

lemma ucast_up_down: "ucast (ucast x :: u64) = (x :: u32)"
  by (rule bit_word_eqI) (simp add: bit_simps)

lemma unsigned_octet: "unsigned_arg False (ip_octet ip k) = unat (drop_bit k ip AND 0xFF)"
  unfolding unsigned_arg_def ip_octet_def ucast_up_down by simp

lemma render_dotted:
  "render (map char_byte ''%u.%u.%u.%u'') [Val (ip_octet ip 24), Val (ip_octet ip 16), Val (ip_octet ip 8), Val (ip_octet ip 0)] =
     Some (dotted ip)"
  by (simp add: parse_spec_def render_conv_def padded_def char_byte_def unsigned_octet dotted_def)

section \<open>A datagram on the wire\<close>

lemma eth_send_frame: "length payload \<le> ETH_MTU \<Longrightarrow>
   eth_send s mac ty payload = s\<lparr>frames := frames s @ [mac @ g_local_mac s @ be_bytes 2 ty @ payload]\<rparr>"
  by (simp add: eth_send_def)

lemma ip_transmit_ok:
  assumes "20 + length payload \<le> ETH_MTU"
  shows "ip_transmit s mac dst p payload = Some (True, s\<lparr>g_ip_id := g_ip_id s + 1, frames := frames s @
     [mac @ g_local_mac s @ be_bytes 2 ETHERTYPE_IPV4 @
      ip_header (20 + length payload) (g_ip_id s) p
        (net_ip_checksum (ip_header (20 + length payload) (g_ip_id s) p 0 (g_local_ip s) dst)) (g_local_ip s) dst @ payload]\<rparr>)"
proof -
  have "w16 (20 + length payload) = 20 + length payload" using assms by (simp add: w16_def ETH_MTU_def)
  then show ?thesis using assms by (simp add: ip_transmit_def eth_send_frame Let_def)
qed

lemma frame_fields:
  assumes "length dst = 6" "length src = 6"
  shows "slice (dst @ src @ be_bytes 2 ty @ rest) 12 2 = be_bytes 2 ty"
    "slice (dst @ src @ be_bytes 2 ty @ rest) 6 6 = src"
    "drop 14 (dst @ src @ be_bytes 2 ty @ rest) = rest"
  using assms by (simp_all add: slice_def)

lemma eth_ipv4_frame:
  assumes "length dst = 6" "length src = 6"
  shows "eth_handle_frame s (dst @ src @ be_bytes 2 ETHERTYPE_IPV4 @ pkt) (14 + n) =
    (let s = eth_learn_sender s src pkt n; up = ip_handle_packet s pkt n
     in case up of To_Udp src_ip data k \<Rightarrow> (udp_handle_packet s src_ip data k, up) | _ \<Rightarrow> (s, up))"
proof -
  have ty: "be_value (be_bytes 2 ETHERTYPE_IPV4) = ETHERTYPE_IPV4" "ETHERTYPE_IPV4 \<noteq> ETHERTYPE_ARP"
    by (simp_all add: be_value_bytes ETHERTYPE_IPV4_def ETHERTYPE_ARP_def)
  have n: "14 + n - 14 = n" "\<not> 14 + n < 14" by simp_all
  show ?thesis unfolding eth_handle_frame_def Let_def frame_fields[OF assms] n ty(1) using ty(2) by simp
qed

lemma ip_receive:
  assumes "n = 20 + length payload" "20 + length payload + length pad \<le> 65535"
    and "g_local_ip s = dst \<or> dst = 0xFFFFFFFF"
  shows "ip_handle_packet s (ip_header n i p c src dst @ payload @ pad) (n + length pad) =
    (if p = IP_PROTO_UDP then To_Udp src (payload @ pad) (length payload)
     else if p = IP_PROTO_TCP then To_Tcp src (payload @ pad) (length payload) else Nothing)"
proof -
  have v: "be_value (be_bytes 2 n) = n" using assms(1,2) by (simp add: be_value_bytes)
  have w: "w16 (n + 2 ^ 16 - 20) = length payload" using assms(1,2) by (simp add: w16_def)
  have h: "unat (0x45 AND 0x0F :: u8) * 4 = 20" "drop_bit 4 (0x45 :: u8) = 4" by simp_all
  show ?thesis using assms(1,3) unfolding ip_handle_packet_def Let_def ip_header_fields h v be_ip w
    by auto
qed

lemma udp_deliver:
  assumes ok: "udp_ok s" and h: "udp_lookup s dp = Some h" "h \<noteq> 0" and n: "n = 8 + length payload" "n \<le> 65535"
  shows "udp_handle_packet s src (udp_header sp dp n c @ payload @ pad) n =
    s\<lparr>delivered := delivered s @ [(h, src, sp, payload)]\<rparr>"
proof -
  let ?bs = "g_bindings s"
  obtain i where i: "i < length ?bs" "ub_used (?bs ! i)" "ub_port (?bs ! i) = dp" "ub_handler (?bs ! i) = h"
    using h(1) by (auto simp: slot_lookup_def dest!: find_upt_Some)
  have len: "length ?bs = UDP_MAX_HANDLERS" using ok by (simp add: udp_ok_def)
  have f: "find (\<lambda>i. ub_used (?bs ! i) \<and> ub_port (?bs ! i) = dp \<and> ub_handler (?bs ! i) \<noteq> 0) [0..<UDP_MAX_HANDLERS] = Some i"
    using i h(2) len ok by (intro find_upt_unique) (auto simp: udp_ok_def slots_ok_def)
  have v: "be_value (be_bytes 2 n) = n" using n by (simp add: be_value_bytes)
  show ?thesis using n i(4) unfolding udp_handle_packet_def Let_def udp_header_fields be_port v f by simp
qed

lemma udp_send_frame:
  assumes "28 + length payload \<le> ETH_MTU" "dst \<noteq> 0xFFFFFFFF" "arp_cache_lookup a (next_hop a dst) = Some mac"
  shows "\<exists>c i k. udp_send poll a dst sp dp payload = Some (True, a\<lparr>g_ip_id := g_ip_id a + 1, frames := frames a @
     [mac @ g_local_mac a @ be_bytes 2 ETHERTYPE_IPV4 @
      ip_header (20 + (8 + length payload)) i IP_PROTO_UDP k (g_local_ip a) dst @
      udp_header sp dp (8 + length payload) c @ payload]\<rparr>)"
proof -
  have w: "w16 (8 + length payload) = 8 + length payload" using assms(1) by (simp add: w16_def ETH_MTU_def)
  have "20 + length (udp_header sp dp (8 + length payload) c @ payload) \<le> ETH_MTU" for c
    using assms(1) by simp
  note t = ip_transmit_ok[OF this]
  define c where "c = net_udp_checksum (g_local_ip a) dst (udp_header sp dp (8 + length payload) 0 @ payload) (8 + length payload)"
  define c' where "c' = (if c = 0 then 0xFFFF else c)"
  have "udp_send poll a dst sp dp payload =
      ip_send poll a dst IP_PROTO_UDP (udp_header sp dp (8 + length payload) c' @ payload)"
    using assms(1) unfolding udp_send_def Let_def w c'_def c_def by simp
  also have "\<dots> = ip_transmit a mac dst IP_PROTO_UDP (udp_header sp dp (8 + length payload) c' @ payload)"
    using assms(2) unfolding ip_send_def arp_resolve_hit[OF assms(3)] by simp
  finally show ?thesis unfolding t length_append length_udp_header by blast
qed

lemma arp_wait_returns:
  assumes clock: "\<And>s. uptime s \<le> uptime (poll s)"
  shows "\<exists>m s'. arp_wait poll s ip start t = Some (m, s') \<and>
    (case m of Some mac \<Rightarrow> arp_cache_lookup s' ip = Some mac | None \<Rightarrow> t \<le> uptime s' - start)"
proof (induction "start + t - uptime s" arbitrary: s rule: less_induct)
  case less
  show ?case
  proof (cases "uptime s - start < t \<and> arp_cache_lookup (poll s) ip = None")
    case True
    let ?s = "(poll s)\<lparr>uptime := uptime (poll s) + 2\<rparr>"
    have "uptime s < uptime ?s" using clock[of s] by simp
    then have "start + t - uptime ?s < start + t - uptime s" using True by linarith
    from less[OF this] show ?thesis using True by (subst arp_wait.simps) (simp add: Let_def)
  next
    case False
    then show ?thesis by (subst arp_wait.simps) (auto simp: Let_def split: option.splits)
  qed
qed

section \<open>Properties\<close>



text \<open>
  C30. An address survives its text form: \<^verbatim>\<open>ip_to_string\<close> prints the four octets within the sixteen bytes it
  is given, and \<^verbatim>\<open>ip_parse\<close> reads the same address back from that text.
\<close>

theorem ip_string_roundtrip:
  assumes "16 \<le> length out"
  shows "\<exists>out'. ip_to_string ip out = Some (int (length (dotted ip)), out') \<and> length out' = length out \<and>
    c_chars out' = dotted ip \<and> ip_parse (c_chars out') = ip"
proof -
  have l: "length (dotted ip) \<le> 15" by (rule dotted_length)
  let ?out = "put_bytes out 0 (dotted ip @ [0])"
  have "ip_to_string ip out = Some (s32 (int (length (dotted ip))), ?out)"
    using snprintf_some[OF _ assms render_dotted, of ip] l by (simp add: ip_to_string_def min_def)
  moreover have "s32 (int (length (dotted ip))) = int (length (dotted ip))" using l by (simp add: s32_def)
  moreover have "0 \<notin> set (dotted ip)"
    using uint_to_str_is_digit[of 0] by (auto simp: dotted_def is_digit_def)
  then have "c_chars ?out = dotted ip"
    unfolding put_bytes_def c_chars_def
    by (simp only: append.simps append_assoc take_0, subst takeWhile_append2) auto
  moreover have "length ?out = length out" using l assms by (simp add: put_bytes_def)
  ultimately show ?thesis by (simp add: ip_parse_dotted)
qed

theorem ip_string_roundtrip_witness:
  "\<exists>out'. ip_to_string 0x0A00020F (replicate 16 7) = Some (int (length (dotted 0x0A00020F)), out') \<and>
     length out' = length (replicate 16 (7 :: u8)) \<and> c_chars out' = dotted 0x0A00020F \<and> ip_parse (c_chars out') = 0x0A00020F"
  using ip_string_roundtrip[of "replicate 16 7" "0x0A00020F"] by simp

text \<open>
  C23. The ARP cache is a map of bounded size: learning an address makes it resolve to the learnt hardware
  address, keeps every other binding unless all sixteen slots were taken by other addresses, in which
  case exactly the binding of the first slot is given up, and never leaves an address in two slots.
\<close>

theorem arp_cache_refines_map:
  assumes "arp_ok s"
  shows "arp_ok (arp_cache_insert s ip mac) \<and>
    arp_cache_lookup (arp_cache_insert s ip mac) =
      (if arp_full s \<and> arp_cache_lookup s ip = None
       then (arp_cache_lookup s)(ae_ip (g_cache s ! 0) := None) else arp_cache_lookup s)(ip \<mapsto> mac)"
  by (rule arp_insert[OF assms])

definition net_demo :: net where
  "net_demo = arp_cache_insert (udp_init (arp_init
     \<lparr>g_local_mac = [2, 0, 0, 0, 0, 1], g_cache = [], g_local_ip = 0x0A000001, g_netmask = 0xFFFFFF00, g_gateway = 0x0A0000FE,
      g_dns_ip = 0, g_ip_id = 1, g_bindings = [], frames = [], delivered = [], uptime = 0\<rparr>)) 0x0A000002 [2, 0, 0, 0, 0, 2]"

lemma net_demo_fields [simp]:
  "g_local_mac net_demo = [2, 0, 0, 0, 0, 1]" "g_local_ip net_demo = 0x0A000001" "g_netmask net_demo = 0xFFFFFF00"
  "frames net_demo = []" "delivered net_demo = []" "uptime net_demo = 0"
  by (simp_all add: net_demo_def udp_init_def arp_init_def)

lemma net_demo_ok: "arp_ok net_demo" "arp_cache_lookup net_demo 0x0A000002 = Some [2, 0, 0, 0, 0, 2]" "udp_ok net_demo"
proof -
  have "arp_ok (udp_init s)" if "arp_ok s" for s :: net using that by (simp add: arp_ok_def udp_init_def)
  then have ok: "arp_ok (udp_init (arp_init s))" for s :: net by (simp add: arp_init_ok)
  show "arp_ok net_demo" "arp_cache_lookup net_demo 0x0A000002 = Some [2, 0, 0, 0, 0, 2]"
    unfolding net_demo_def using arp_insert[OF ok] by simp_all
  show "udp_ok net_demo" using udp_init_ok(1) by (simp add: net_demo_def udp_ok_def)
qed

theorem arp_cache_refines_map_witness:
  "arp_ok net_demo \<and> arp_cache_lookup (arp_cache_insert net_demo 0x0A000003 [2, 0, 0, 0, 0, 3]) 0x0A000003 = Some [2, 0, 0, 0, 0, 3]"
  using arp_cache_refines_map[of net_demo "0x0A000003" "[2, 0, 0, 0, 0, 3]"] net_demo_ok by simp

text \<open>
  C10. A datagram arrives: when the next hop is in the ARP cache, \<^verbatim>\<open>udp_send\<close> succeeds without waiting and
  puts exactly one frame on the wire; the host whose address is the destination, given this frame with
  any padding, calls the handler bound to the destination port with the sender's address and port and
  exactly the payload that was sent.
\<close>

theorem udp_end_to_end:
  assumes "28 + length payload \<le> ETH_MTU" "dst \<noteq> 0xFFFFFFFF" "arp_cache_lookup a (next_hop a dst) = Some mac"
    and "length mac = 6" "length (g_local_mac a) = 6" "length pad \<le> 64"
    and "g_local_ip b = dst" "udp_ok b" "udp_lookup b dp = Some h" "h \<noteq> 0"
  shows "\<exists>a' frame. udp_send poll a dst sp dp payload = Some (True, a') \<and> frames a' = frames a @ [frame] \<and>
    delivered (fst (eth_handle_frame b (frame @ pad) (length (frame @ pad)))) = delivered b @ [(h, g_local_ip a, sp, payload)]"
proof -
  let ?p = "ip_header (20 + (8 + length payload))" and ?u = "\<lambda>c. udp_header sp dp (8 + length payload) c @ payload"
  obtain c i k where send: "udp_send poll a dst sp dp payload = Some (True, a\<lparr>g_ip_id := g_ip_id a + 1, frames := frames a @
     [mac @ g_local_mac a @ be_bytes 2 ETHERTYPE_IPV4 @ ?p i IP_PROTO_UDP k (g_local_ip a) dst @ ?u c]\<rparr>)"
    using udp_send_frame[OF assms(1-3)] by blast
  define pkt where "pkt = ?p i IP_PROTO_UDP k (g_local_ip a) dst @ ?u c @ pad"
  define frame where "frame = mac @ g_local_mac a @ be_bytes 2 ETHERTYPE_IPV4 @ ?p i IP_PROTO_UDP k (g_local_ip a) dst @ ?u c"
  have fr: "frame @ pad = mac @ g_local_mac a @ be_bytes 2 ETHERTYPE_IPV4 @ pkt" by (simp add: frame_def pkt_def)
  have len: "length (frame @ pad) = 14 + (20 + (8 + length payload) + length pad)"
    using assms(4,5) by (simp add: fr pkt_def)
  define b' where "b' = eth_learn_sender b (g_local_mac a) pkt (20 + (8 + length payload) + length pad)"
  have b': "g_local_ip b' = dst" "udp_ok b'" "udp_lookup b' dp = Some h" "delivered b' = delivered b"
    using assms(7-9) by (auto simp: b'_def eth_learn_sender_def udp_ok_def Let_def)
  have rcv: "ip_handle_packet b' pkt (20 + (8 + length payload) + length pad) = To_Udp (g_local_ip a) (?u c @ pad) (8 + length payload)"
    unfolding pkt_def using ip_receive[of "20 + (8 + length payload)" "?u c" pad b' dst i IP_PROTO_UDP k "g_local_ip a"] assms(1,6) b'(1)
    by (simp add: ETH_MTU_def)
  have dl: "udp_handle_packet b' (g_local_ip a) (?u c @ pad) (8 + length payload) =
      b'\<lparr>delivered := delivered b' @ [(h, g_local_ip a, sp, payload)]\<rparr>"
    using udp_deliver[OF b'(2,3) assms(10) refl] assms(1) by (simp add: ETH_MTU_def)
  have "eth_handle_frame b (frame @ pad) (length (frame @ pad)) =
      (b'\<lparr>delivered := delivered b' @ [(h, g_local_ip a, sp, payload)]\<rparr>, To_Udp (g_local_ip a) (?u c @ pad) (8 + length payload))"
    unfolding len unfolding fr eth_ipv4_frame[OF assms(4,5)] b'_def[symmetric] Let_def rcv by (simp only: upcall.case dl)
  then have D: "delivered (fst (eth_handle_frame b (frame @ pad) (length (frame @ pad)))) =
      delivered b @ [(h, g_local_ip a, sp, payload)]" by (simp only: fst_conv b'(4)) simp
  show ?thesis
    by (rule exI, rule exI[of _ frame], intro conjI, rule send[folded frame_def], simp, rule D)
qed

theorem udp_end_to_end_witness:
  "\<exists>a' frame. udp_send (\<lambda>s. s) net_demo 0x0A000002 68 67 [1, 2, 3] = Some (True, a') \<and> frames a' = [] @ [frame] \<and>
    delivered (fst (eth_handle_frame (snd (udp_register_handler (ip_configure net_demo 0x0A000002 0xFFFFFF00 0) 67 9))
      (frame @ [0]) (length (frame @ [0])))) = [] @ [(9, 0x0A000001, 68, [1, 2, 3])]"
proof -
  let ?c = "ip_configure net_demo 0x0A000002 0xFFFFFF00 0" and ?b = "snd (udp_register_handler (ip_configure net_demo 0x0A000002 0xFFFFFF00 0) 67 9)"
  have c: "udp_ok ?c" "g_bindings ?c = g_bindings net_demo" using net_demo_ok(3) by (simp_all add: ip_configure_def udp_ok_def)
  have free: "\<exists>b \<in> set (g_bindings ?c). \<not> ub_used b"
    unfolding c(2) by (simp add: net_demo_def udp_init_def UDP_MAX_HANDLERS_def)
  have b: "udp_ok ?b" "udp_lookup ?b 67 = Some 9"
    using udp_register[OF c(1), of 67 9] free by (auto split: prod.splits)
  have f: "g_local_ip ?b = 0x0A000002" "delivered ?b = []"
    by (simp_all add: udp_register_handler_def ip_configure_def split: option.splits)
  have nh: "next_hop net_demo 0x0A000002 = 0x0A000002" by (simp add: next_hop_def)
  show ?thesis
    using udp_end_to_end[of "[1, 2, 3]" "0x0A000002" net_demo "[2, 0, 0, 0, 0, 2]" "[0]" ?b 67 9 "\<lambda>s. s" 68] net_demo_ok b f nh
    by (simp add: ETH_MTU_def)
qed

text \<open>
  C21. Answering a host that has just spoken is a cache hit: after an IPv4 frame from an address on the
  local network has been handled by a configured host, sending to that address neither polls nor waits,
  whatever polling would do, and goes to the hardware address the frame came from.
\<close>

theorem reply_needs_no_poll:
  assumes "arp_ok b" "length dmac = 6" "length smac = 6" "20 \<le> n"
    and src: "src = of_nat (be_value (slice pkt 12 4))"
    and "g_local_ip b \<noteq> 0" "src \<noteq> 0" "src \<noteq> g_local_ip b" "src \<noteq> 0xFFFFFFFF"
    and "g_netmask b \<noteq> 0" "(src AND g_netmask b) = (g_local_ip b AND g_netmask b)"
  shows "let b' = fst (eth_handle_frame b (dmac @ smac @ be_bytes 2 ETHERTYPE_IPV4 @ pkt) (14 + n))
    in arp_ok b' \<and> ip_send poll b' src proto payload = ip_transmit b' smac src proto payload"
proof -
  let ?b = "arp_cache_insert b src smac"
  let ?b' = "fst (eth_handle_frame b (dmac @ smac @ be_bytes 2 ETHERTYPE_IPV4 @ pkt) (14 + n))"
  have learn: "eth_learn_sender b smac pkt n = ?b"
    using assms(4-11) by (simp add: eth_learn_sender_def ip_is_configured_def Let_def)
  have cfg: "g_cache ?b' = g_cache ?b" "g_local_ip ?b' = g_local_ip b" "g_netmask ?b' = g_netmask b"
    unfolding eth_ipv4_frame[OF assms(2,3)] learn Let_def
    by (auto simp: udp_handle_packet_def Let_def split: upcall.splits option.splits)
  have hit: "arp_cache_lookup ?b' src = Some smac"
    using arp.finds_new[OF assms(1), of src smac] by (simp add: arp_cache_lookup_def cfg)
  have ok: "arp_ok ?b'" using arp.keeps_ok[OF assms(1), of src smac] by (simp add: arp_ok_def cfg)
  have "next_hop ?b' src = src" using assms(11) by (simp add: next_hop_def cfg)
  then have "ip_send poll ?b' src proto payload = ip_transmit ?b' smac src proto payload"
    using assms(9) arp_resolve_hit[OF hit] by (simp add: ip_send_def)
  then show ?thesis using ok by (simp add: Let_def)
qed

theorem reply_needs_no_poll_witness:
  "let b' = fst (eth_handle_frame net_demo ([2, 0, 0, 0, 0, 1] @ [2, 0, 0, 0, 0, 9] @ be_bytes 2 ETHERTYPE_IPV4 @
       replicate 12 0 @ [10, 0, 0, 9] @ replicate 4 0) (14 + 20))
   in arp_ok b' \<and> ip_send (\<lambda>s. s) b' 0x0A000009 17 [1] = ip_transmit b' [2, 0, 0, 0, 0, 9] 0x0A000009 17 [1]"
proof -
  let ?pkt = "replicate 12 0 @ [10, 0, 0, 9] @ replicate 4 0 :: bytes"
  have v: "slice ?pkt 12 4 = [10, 0, 0, 9]" by (simp add: slice_def)
  have "be_value [10, 0, 0, 9] = 0x0A000009" by (simp add: be_value_def)
  then have "0x0A000009 = (of_nat (be_value (slice ?pkt 12 4)) :: u32)" unfolding v by simp
  then show ?thesis
    using reply_needs_no_poll[of net_demo "[2, 0, 0, 0, 0, 1]" "[2, 0, 0, 0, 0, 9]" 20 "0x0A000009" ?pkt "\<lambda>s. s" 17 "[1]"] net_demo_ok
    by simp
qed



end
