(* ===== verification/Tcp.thy ===== *)
theory Tcp
  imports Net_Stack "HOL-Library.Monad_Syntax"
begin

text \<open>
  \<^verbatim>\<open>src/impl/net/tcp.c\<close>: connections, listeners, the receive path with its out-of-order ranges, and the sender.
  The connection table and the listener table extend the state of the lower layers; a connection pointer
  is an index of the table, and NULL is \<^const>\<open>None\<close>. Sequence numbers are 32-bit words.

  The functions that call \<^verbatim>\<open>network_manager_poll\<close> or send outside the receive path take \<open>poll\<close>, a transformer of
  the whole state. The receive path runs inside a poll, where polling again has no effect: it sends with
  \<open>busy_poll\<close>, the identity. Waiting loops are partial functions ended by the clock.
\<close>

section \<open>State\<close>

datatype tcp_state = TCP_CLOSED | TCP_SYN_SENT | TCP_ESTABLISHED | TCP_FIN_WAIT | TCP_CLOSE_WAIT | TCP_SYN_RCVD

definition TCP_FLAG_FIN :: u8 where "TCP_FLAG_FIN = 0x01"
definition TCP_FLAG_SYN :: u8 where "TCP_FLAG_SYN = 0x02"
definition TCP_FLAG_RST :: u8 where "TCP_FLAG_RST = 0x04"
definition TCP_FLAG_PSH :: u8 where "TCP_FLAG_PSH = 0x08"
definition TCP_FLAG_ACK :: u8 where "TCP_FLAG_ACK = 0x10"
definition TCP_MAX_CONNS :: nat where "TCP_MAX_CONNS = 8"
definition TCP_MAX_LISTENERS :: nat where "TCP_MAX_LISTENERS = 2"
definition TCP_MAX_BACKLOG :: nat where "TCP_MAX_BACKLOG = 4"
definition TCP_RX_BUF_SIZE :: nat where "TCP_RX_BUF_SIZE = 32768"
definition TCP_OOO_RANGES :: nat where "TCP_OOO_RANGES = 4"
definition TCP_RETRANSMIT_MS :: nat where "TCP_RETRANSMIT_MS = 500"
definition TCP_MAX_RETRIES :: nat where "TCP_MAX_RETRIES = 6"
definition TCP_SEG_SIZE :: nat where "TCP_SEG_SIZE = 1024"
definition TCP_SEND_WINDOW_SEGS :: nat where "TCP_SEND_WINDOW_SEGS = 4"
definition TCP_SYN_RCVD_TIMEOUT_MS :: nat where "TCP_SYN_RCVD_TIMEOUT_MS = 5000"

text \<open>\<open>ooo\<close> holds the first \<^verbatim>\<open>ooo_count\<close> entries of the two range arrays.\<close>

record tcp_conn =
  in_use :: bool
  conn_state :: tcp_state
  remote_ip :: ip
  remote_port :: u16
  local_port :: u16
  snd_nxt :: u32
  snd_una :: u32
  rcv_nxt :: u32
  rx_buf :: bytes
  rx_len :: nat
  ooo :: "(u32 \<times> u32) list"
  remote_closed :: bool
  reset :: bool
  last_activity_ms :: nat
  accept_pending :: bool
  accept_order :: u32

record tcp_listener =
  li_used :: bool
  li_port :: u16
  li_backlog :: nat

text \<open>\<open>randoms\<close> is what \<^verbatim>\<open>random_u64\<close> is going to return.\<close>

record tcp = net +
  g_conns :: "tcp_conn list"
  g_listeners :: "tcp_listener list"
  g_next_ephemeral_port :: u16
  g_accept_seq :: u32
  randoms :: "u64 list"

definition zero_conn :: tcp_conn where
  "zero_conn = \<lparr>in_use = False, conn_state = TCP_CLOSED, remote_ip = 0, remote_port = 0, local_port = 0,
     snd_nxt = 0, snd_una = 0, rcv_nxt = 0, rx_buf = replicate TCP_RX_BUF_SIZE 0, rx_len = 0, ooo = [],
     remote_closed = False, reset = False, last_activity_ms = 0, accept_pending = False, accept_order = 0\<rparr>"

definition upd_conn :: "tcp \<Rightarrow> nat \<Rightarrow> (tcp_conn \<Rightarrow> tcp_conn) \<Rightarrow> tcp" where
  "upd_conn s i f = s\<lparr>g_conns := (g_conns s)[i := f (g_conns s ! i)]\<rparr>"

definition busy_poll :: "tcp \<Rightarrow> tcp" where
  "busy_poll s = s"

definition pass_ms :: "tcp \<Rightarrow> nat \<Rightarrow> tcp" where
  "pass_ms s ms = s\<lparr>uptime := uptime s + ms\<rparr>"

definition tcp_init :: "tcp \<Rightarrow> tcp" where
  "tcp_init s = s\<lparr>g_conns := replicate TCP_MAX_CONNS zero_conn,
     g_listeners := replicate TCP_MAX_LISTENERS \<lparr>li_used = False, li_port = 0, li_backlog = 0\<rparr>, g_accept_seq := 0\<rparr>"

definition tcp_alloc :: "tcp \<Rightarrow> nat option" where
  "tcp_alloc s = find (\<lambda>i. \<not> in_use (g_conns s ! i)) [0..<TCP_MAX_CONNS]"

definition tcp_find :: "tcp \<Rightarrow> ip \<Rightarrow> u16 \<Rightarrow> u16 \<Rightarrow> nat option" where
  "tcp_find s rip rport lport =
     find (\<lambda>i. let c = g_conns s ! i in
             in_use c \<and> remote_ip c = rip \<and> remote_port c = rport \<and> local_port c = lport) [0..<TCP_MAX_CONNS]"

section \<open>Transmission\<close>

definition tcp_header :: "u16 \<Rightarrow> u16 \<Rightarrow> u32 \<Rightarrow> u32 \<Rightarrow> u8 \<Rightarrow> u8 \<Rightarrow> nat \<Rightarrow> nat \<Rightarrow> bytes" where
  "tcp_header src_port dst_port seq ack data_offset flags window checksum =
     be_bytes 2 (unat src_port) @ be_bytes 2 (unat dst_port) @ be_bytes 4 (unat seq) @ be_bytes 4 (unat ack) @
     [data_offset, flags] @ be_bytes 2 window @ be_bytes 2 checksum @ be_bytes 2 0"

definition tcp_send_raw ::
  "(tcp \<Rightarrow> tcp) \<Rightarrow> tcp \<Rightarrow> ip \<Rightarrow> u16 \<Rightarrow> u16 \<Rightarrow> u32 \<Rightarrow> u32 \<Rightarrow> u8 \<Rightarrow> nat \<Rightarrow> bytes \<Rightarrow> (bool \<times> tcp) option" where
  "tcp_send_raw poll s rip rport lport seq ack flags window data =
     (let hdr = tcp_header lport rport seq (if flags AND TCP_FLAG_ACK \<noteq> 0 then ack else 0) 0x50 flags window in
      if length data > ETH_MTU - 20 then Some (False, s)
      else
        let seg_len = 20 + length data;
            c = net_tcp_checksum (g_local_ip s) rip (hdr 0 @ data) seg_len
        in ip_send poll s rip IP_PROTO_TCP (hdr c @ data))"

definition tcp_send_segment :: "(tcp \<Rightarrow> tcp) \<Rightarrow> tcp \<Rightarrow> nat \<Rightarrow> u8 \<Rightarrow> bytes \<Rightarrow> (bool \<times> tcp) option" where
  "tcp_send_segment poll s i flags data =
     (let conn = g_conns s ! i;
          rx_space = (if rx_len conn < TCP_RX_BUF_SIZE then TCP_RX_BUF_SIZE - rx_len conn else 0);
          rx_space = (if rx_space > 0xFFFF then 0xFFFF else rx_space)
      in tcp_send_raw poll s (remote_ip conn) (remote_port conn) (local_port conn) (snd_nxt conn) (rcv_nxt conn)
           flags rx_space data)"

section \<open>Listeners\<close>

definition tcp_find_listener :: "tcp \<Rightarrow> u16 \<Rightarrow> nat option" where
  "tcp_find_listener s port =
     find (\<lambda>i. li_used (g_listeners s ! i) \<and> li_port (g_listeners s ! i) = port) [0..<TCP_MAX_LISTENERS]"

definition tcp_is_listening :: "tcp \<Rightarrow> u16 \<Rightarrow> bool" where
  "tcp_is_listening s port = (tcp_find_listener s port \<noteq> None)"

definition tcp_listen :: "tcp \<Rightarrow> u16 \<Rightarrow> nat \<Rightarrow> bool \<times> tcp" where
  "tcp_listen s port backlog =
     (if port = 0 then (False, s)
      else if tcp_find_listener s port \<noteq> None then (False, s)
      else
        let backlog = (if backlog = 0 then 1 else backlog);
            backlog = (if backlog > TCP_MAX_BACKLOG then TCP_MAX_BACKLOG else backlog)
        in case find (\<lambda>i. \<not> li_used (g_listeners s ! i)) [0..<TCP_MAX_LISTENERS] of
             Some i \<Rightarrow> (True, s\<lparr>g_listeners := (g_listeners s)[i := \<lparr>li_used = True, li_port = port, li_backlog = backlog\<rparr>]\<rparr>)
           | None \<Rightarrow> (False, s))"

definition drop_conn :: "tcp_conn \<Rightarrow> tcp_conn" where
  "drop_conn c = c\<lparr>in_use := False, accept_pending := False, conn_state := TCP_CLOSED\<rparr>"

definition tcp_unlisten :: "tcp \<Rightarrow> u16 \<Rightarrow> tcp" where
  "tcp_unlisten s port =
     (case tcp_find_listener s port of
        None \<Rightarrow> s
      | Some l \<Rightarrow>
          s\<lparr>g_listeners := (g_listeners s)[l := (g_listeners s ! l)\<lparr>li_used := False\<rparr>],
            g_conns := map (\<lambda>c. if in_use c \<and> accept_pending c \<and> local_port c = port then drop_conn c else c) (g_conns s)\<rparr>)"

definition stale :: "nat \<Rightarrow> tcp_conn \<Rightarrow> bool" where
  "stale now c \<longleftrightarrow>
     conn_state c = TCP_SYN_RCVD \<and> sub64 now (last_activity_ms c) > TCP_SYN_RCVD_TIMEOUT_MS \<or>
     accept_pending c \<and> conn_state c = TCP_CLOSED"

definition tcp_reap_stale :: "tcp \<Rightarrow> tcp" where
  "tcp_reap_stale s =
     s\<lparr>g_conns := map (\<lambda>c. if in_use c \<and> stale (uptime s) c then drop_conn c else c) (g_conns s)\<rparr>"

definition pending_count :: "tcp \<Rightarrow> u16 \<Rightarrow> nat" where
  "pending_count s port =
     length (filter (\<lambda>c. in_use c \<and> local_port c = port \<and> (conn_state c = TCP_SYN_RCVD \<or> accept_pending c)) (g_conns s))"

definition random_u64 :: "tcp \<Rightarrow> u64 \<times> tcp" where
  "random_u64 s = (case randoms s of [] \<Rightarrow> (0, s) | r # rs \<Rightarrow> (r, s\<lparr>randoms := rs\<rparr>))"

definition tcp_passive_open :: "tcp \<Rightarrow> ip \<Rightarrow> u16 \<Rightarrow> u16 \<Rightarrow> u32 \<Rightarrow> tcp option" where
  "tcp_passive_open s src_ip rport lport peer_seq =
     (case tcp_find_listener s lport of
        None \<Rightarrow> Some s
      | Some l \<Rightarrow>
          if pending_count s lport \<ge> li_backlog (g_listeners s ! l) then Some s
          else
            let (slot, s) = (case tcp_alloc s of
                               Some i \<Rightarrow> (Some i, s)
                             | None \<Rightarrow> let s = tcp_reap_stale s in (tcp_alloc s, s))
            in case slot of
                 None \<Rightarrow> Some s
               | Some i \<Rightarrow>
                   let (r, s) = random_u64 s; iss = ucast r :: u32;
                       s = s\<lparr>g_accept_seq := g_accept_seq s + 1\<rparr>;
                       s = upd_conn s i (\<lambda>c. zero_conn\<lparr>in_use := True, conn_state := TCP_SYN_RCVD, remote_ip := src_ip,
                             remote_port := rport, local_port := lport, rcv_nxt := peer_seq + 1, snd_una := iss, snd_nxt := iss,
                             last_activity_ms := uptime s, accept_pending := True, accept_order := g_accept_seq s\<rparr>)
                   in do {
                        (ok, s) \<leftarrow> tcp_send_segment busy_poll s i (TCP_FLAG_SYN OR TCP_FLAG_ACK) [];
                        Some (upd_conn s i (\<lambda>c. c\<lparr>snd_nxt := iss + 1\<rparr>))
                      })"

text \<open>The candidate loop of \<^verbatim>\<open>tcp_accept\<close>: tickets are compared by signed difference.\<close>

definition accept_ready :: "u16 \<Rightarrow> tcp_conn \<Rightarrow> bool" where
  "accept_ready port c \<longleftrightarrow> in_use c \<and> accept_pending c \<and> local_port c = port \<and>
     (conn_state c = TCP_ESTABLISHED \<or> conn_state c = TCP_CLOSE_WAIT)"

fun accept_scan :: "tcp_conn list \<Rightarrow> u16 \<Rightarrow> nat option \<Rightarrow> nat list \<Rightarrow> nat option" where
  "accept_scan cs port best [] = best"
| "accept_scan cs port best (i # is) =
     (if \<not> accept_ready port (cs ! i) then accept_scan cs port best is
      else if (case best of None \<Rightarrow> True | Some b \<Rightarrow> sint (accept_order (cs ! i) - accept_order (cs ! b)) < 0)
      then accept_scan cs port (Some i) is
      else accept_scan cs port best is)"

definition tcp_accept :: "tcp \<Rightarrow> u16 \<Rightarrow> (nat \<times> ip \<times> u16) option \<times> tcp" where
  "tcp_accept s port =
     (let s = tcp_reap_stale s in
      case accept_scan (g_conns s) port None [0..<TCP_MAX_CONNS] of
        None \<Rightarrow> (None, s)
      | Some i \<Rightarrow> (Some (i, remote_ip (g_conns s ! i), remote_port (g_conns s ! i)), upd_conn s i (\<lambda>c. c\<lparr>accept_pending := False\<rparr>)))"

section \<open>Active open\<close>

partial_function (option) ephemeral_port :: "tcp \<Rightarrow> (u16 \<times> tcp) option" where
  "ephemeral_port s =
     (let p = g_next_ephemeral_port s; q = p + 1; q = (if q = 0 then 49152 else q);
          s = s\<lparr>g_next_ephemeral_port := q\<rparr>
      in if tcp_is_listening s p then ephemeral_port s else Some (p, s))"

text \<open>One wait for the handshake: \<open>Some True\<close> established, \<open>Some False\<close> reset, \<^const>\<open>None\<close> timed out.\<close>

partial_function (option) connect_wait :: "(tcp \<Rightarrow> tcp) \<Rightarrow> tcp \<Rightarrow> nat \<Rightarrow> nat \<Rightarrow> (bool option \<times> tcp) option" where
  "connect_wait poll s i start =
     (if uptime s - start < TCP_RETRANSMIT_MS then
        (let s = poll s in
         if conn_state (g_conns s ! i) = TCP_ESTABLISHED then Some (Some True, s)
         else if reset (g_conns s ! i) then Some (Some False, s)
         else connect_wait poll (pass_ms s 5) i start)
      else Some (None, s))"

fun connect_attempts :: "(tcp \<Rightarrow> tcp) \<Rightarrow> nat \<Rightarrow> tcp \<Rightarrow> nat \<Rightarrow> (nat option \<times> tcp) option" where
  "connect_attempts poll 0 s i = Some (None, upd_conn s i (\<lambda>c. c\<lparr>in_use := False\<rparr>))"
| "connect_attempts poll (Suc n) s i =
     do {
       (ok, s) \<leftarrow> tcp_send_segment poll s i TCP_FLAG_SYN [];
       if \<not> ok then Some (None, upd_conn s i (\<lambda>c. c\<lparr>in_use := False\<rparr>))
       else do {
         (w, s) \<leftarrow> connect_wait poll s i (uptime s);
         case w of
           Some True \<Rightarrow> Some (Some i, s)
         | Some False \<Rightarrow> Some (None, upd_conn s i (\<lambda>c. c\<lparr>in_use := False\<rparr>))
         | None \<Rightarrow> connect_attempts poll n s i
       }
     }"

definition tcp_connect :: "(tcp \<Rightarrow> tcp) \<Rightarrow> tcp \<Rightarrow> ip \<Rightarrow> u16 \<Rightarrow> (nat option \<times> tcp) option" where
  "tcp_connect poll s dst_ip dst_port =
     (case tcp_alloc s of
        None \<Rightarrow> Some (None, s)
      | Some i \<Rightarrow>
          do {
            let s = upd_conn s i (\<lambda>c. zero_conn\<lparr>in_use := True, remote_ip := dst_ip, remote_port := dst_port\<rparr>);
            (port, s) \<leftarrow> ephemeral_port s;
            let iss = of_nat (uptime s) * 1000 + 1;
            let s = upd_conn s i (\<lambda>c. c\<lparr>local_port := port, snd_nxt := iss, snd_una := iss, conn_state := TCP_SYN_SENT,
                      last_activity_ms := uptime s\<rparr>);
            connect_attempts poll TCP_MAX_RETRIES s i
          })"

section \<open>Sending data\<close>

text \<open>Filling the window; a failed transmission ends it.\<close>

function fill_window ::
  "(tcp \<Rightarrow> tcp) \<Rightarrow> nat \<Rightarrow> bytes \<Rightarrow> u32 \<Rightarrow> nat \<Rightarrow> nat \<Rightarrow> tcp \<Rightarrow> (nat \<times> tcp) option" where
  "fill_window poll i data base acked_off sent_off s =
     (if sent_off < length data \<and> sub32 sent_off acked_off < TCP_SEG_SIZE * TCP_SEND_WINDOW_SEGS then
        (let n = (if length data - sent_off > TCP_SEG_SIZE then TCP_SEG_SIZE else length data - sent_off);
             s = upd_conn s i (\<lambda>c. c\<lparr>snd_nxt := base + of_nat sent_off\<rparr>)
         in case tcp_send_segment poll s i (TCP_FLAG_ACK OR TCP_FLAG_PSH) (slice data sent_off n) of
              None \<Rightarrow> None
            | Some (ok, s) \<Rightarrow>
                if ok then fill_window poll i data base acked_off (sent_off + n) s else Some (sent_off, s))
      else Some (sent_off, s))"
  by pat_completeness auto
termination
  by (relation "measure (\<lambda>(poll, i, data, base, acked_off, sent_off, s). length data - sent_off)")
    (auto simp: TCP_SEG_SIZE_def)

datatype ack_wait = Progressed nat | Gone | Timed_Out

partial_function (option) wait_ack ::
  "(tcp \<Rightarrow> tcp) \<Rightarrow> nat \<Rightarrow> nat \<Rightarrow> u32 \<Rightarrow> nat \<Rightarrow> nat \<Rightarrow> tcp \<Rightarrow> (ack_wait \<times> tcp) option" where
  "wait_ack poll i len base acked_off start s =
     (if uptime s - start < TCP_RETRANSMIT_MS then
        (let s = poll s; conn = g_conns s ! i;
             d = sint (snd_una conn - base); d = (if d < 0 then 0 else nat d); d = (if d > len then len else d)
         in if d > acked_off then Some (Progressed d, s)
            else if reset conn \<or> conn_state conn = TCP_CLOSED then Some (Gone, s)
            else wait_ack poll i len base acked_off start (pass_ms s 1))
      else Some (Timed_Out, s))"

partial_function (option) send_loop ::
  "(tcp \<Rightarrow> tcp) \<Rightarrow> nat \<Rightarrow> bytes \<Rightarrow> u32 \<Rightarrow> nat \<Rightarrow> nat \<Rightarrow> nat \<Rightarrow> tcp \<Rightarrow> (nat \<times> tcp) option" where
  "send_loop poll i data base sent_off acked_off retries s =
     (if acked_off < length data then
        (case fill_window poll i data base acked_off sent_off s of
           None \<Rightarrow> None
         | Some (sent_off, s) \<Rightarrow>
             (case wait_ack poll i (length data) base acked_off (uptime s) s of
                None \<Rightarrow> None
              | Some (w, s) \<Rightarrow>
                  (case w of
                     Progressed d \<Rightarrow> send_loop poll i data base (if sent_off < d then d else sent_off) d 0 s
                   | Gone \<Rightarrow> Some (acked_off, s)
                   | Timed_Out \<Rightarrow>
                       if retries + 1 \<ge> TCP_MAX_RETRIES then Some (acked_off, s)
                       else send_loop poll i data base acked_off acked_off (retries + 1) s)))
      else Some (acked_off, s))"

definition tcp_send :: "(tcp \<Rightarrow> tcp) \<Rightarrow> tcp \<Rightarrow> nat option \<Rightarrow> bytes \<Rightarrow> (int \<times> tcp) option" where
  "tcp_send poll s h data =
     (case h of
        None \<Rightarrow> Some (-1, s)
      | Some i \<Rightarrow>
          if \<not> in_use (g_conns s ! i) \<or> conn_state (g_conns s ! i) \<noteq> TCP_ESTABLISHED then Some (-1, s)
          else if data = [] then Some (0, s)
          else
            let base = snd_nxt (g_conns s ! i)
            in map_option (\<lambda>(acked_off, s). (s32 (int acked_off), upd_conn s i (\<lambda>c. c\<lparr>snd_nxt := base + of_nat acked_off\<rparr>)))
                 (send_loop poll i data base 0 0 0 s))"

section \<open>Out-of-order segments\<close>

definition tcp_ooo_extent :: "tcp_conn \<Rightarrow> nat" where
  "tcp_ooo_extent conn =
     foldl (\<lambda>extent (a, b). let e = b - rcv_nxt conn in if sint e > 0 \<and> unat e > extent then unat e else extent) 0 (ooo conn)"

text \<open>Removing a range: the last one takes its place.\<close>

definition swap_remove :: "'a list \<Rightarrow> nat \<Rightarrow> 'a list" where
  "swap_remove rs i = butlast (rs[i := last rs])"

lemma length_swap_remove [simp]: "length (swap_remove rs i) = length rs - 1"
  by (simp add: swap_remove_def)

function ooo_merge :: "u32 \<Rightarrow> u32 \<Rightarrow> nat \<Rightarrow> (u32 \<times> u32) list \<Rightarrow> (u32 \<times> u32) \<times> (u32 \<times> u32) list" where
  "ooo_merge start stop i rs =
     (if i < length rs then
        (let (a, b) = rs ! i in
         if sint (start - b) \<le> 0 \<and> sint (a - stop) \<le> 0 then
           ooo_merge (if sint (a - start) < 0 then a else start) (if sint (b - stop) > 0 then b else stop) i (swap_remove rs i)
         else ooo_merge start stop (i + 1) rs)
      else ((start, stop), rs))"
  by pat_completeness auto
termination
  by (relation "measure (\<lambda>(start, stop, i, rs). length rs - i)") auto

definition tcp_ooo_store :: "tcp_conn \<Rightarrow> u32 \<Rightarrow> bytes \<Rightarrow> tcp_conn" where
  "tcp_ooo_store conn seq data =
     (let ahead = sint (seq - rcv_nxt conn) in
      if ahead \<le> 0 then conn
      else if rx_len conn + nat ahead + length data > TCP_RX_BUF_SIZE then conn
      else
        let (range, rs) = ooo_merge seq (seq + of_nat (length data)) 0 (ooo conn) in
        if length rs \<ge> TCP_OOO_RANGES then conn\<lparr>ooo := rs\<rparr>
        else conn\<lparr>rx_buf := put_bytes (rx_buf conn) (rx_len conn + nat ahead) data, ooo := rs @ [range]\<rparr>)"

function tcp_ooo_join :: "tcp_conn \<Rightarrow> tcp_conn" where
  "tcp_ooo_join conn =
     (case find (\<lambda>i. sint (fst (ooo conn ! i) - rcv_nxt conn) \<le> 0) [0..<length (ooo conn)] of
        None \<Rightarrow> conn
      | Some i \<Rightarrow>
          let gain = sint (snd (ooo conn ! i) - rcv_nxt conn);
              conn = (if gain > 0 then conn\<lparr>rx_len := rx_len conn + nat gain, rcv_nxt := rcv_nxt conn + of_int gain\<rparr> else conn)
          in tcp_ooo_join (conn\<lparr>ooo := swap_remove (ooo conn) i\<rparr>))"
  by pat_completeness auto
termination
  by (relation "measure (\<lambda>c. length (ooo c))") (auto dest!: find_upt_Some)

declare fill_window.simps [simp del] ooo_merge.simps [simp del] tcp_ooo_join.simps [simp del]

section \<open>Receiving, closing\<close>

definition tcp_recv :: "(tcp \<Rightarrow> tcp) \<Rightarrow> tcp \<Rightarrow> nat option \<Rightarrow> nat \<Rightarrow> int \<times> bytes \<times> tcp" where
  "tcp_recv poll s h maxlen =
     (case h of
        None \<Rightarrow> (-1, [], s)
      | Some i \<Rightarrow>
          if \<not> in_use (g_conns s ! i) then (-1, [], s)
          else
            let s = poll s; conn = g_conns s ! i in
            if rx_len conn = 0 then (if remote_closed conn \<or> reset conn then -1 else 0, [], s)
            else
              let copy_len = (if rx_len conn < maxlen then rx_len conn else maxlen);
                  out = take copy_len (rx_buf conn);
                  moved = slice (rx_buf conn) copy_len (rx_len conn - copy_len + tcp_ooo_extent conn)
              in (s32 (int copy_len), out,
                  upd_conn s i (\<lambda>c. c\<lparr>rx_buf := put_bytes (rx_buf c) 0 moved, rx_len := rx_len c - copy_len\<rparr>)))"

definition tcp_is_closed :: "tcp \<Rightarrow> nat option \<Rightarrow> bool" where
  "tcp_is_closed s h = (case h of None \<Rightarrow> True | Some i \<Rightarrow> conn_state (g_conns s ! i) = TCP_CLOSED)"

partial_function (option) close_wait :: "(tcp \<Rightarrow> tcp) \<Rightarrow> tcp \<Rightarrow> nat \<Rightarrow> nat \<Rightarrow> tcp option" where
  "close_wait poll s i start =
     (if uptime s - start < 500 then
        (let s = poll s in
         if conn_state (g_conns s ! i) = TCP_CLOSED then Some s else close_wait poll (pass_ms s 5) i start)
      else Some s)"

definition tcp_close :: "(tcp \<Rightarrow> tcp) \<Rightarrow> tcp \<Rightarrow> nat option \<Rightarrow> tcp option" where
  "tcp_close poll s h =
     (case h of
        None \<Rightarrow> Some s
      | Some i \<Rightarrow>
          if \<not> in_use (g_conns s ! i) then Some s
          else
            map_option (\<lambda>s. upd_conn s i drop_conn)
              (if conn_state (g_conns s ! i) = TCP_ESTABLISHED \<or> conn_state (g_conns s ! i) = TCP_CLOSE_WAIT then
                 do {
                   (ok, s) \<leftarrow> tcp_send_segment poll s i (TCP_FLAG_FIN OR TCP_FLAG_ACK) [];
                   let s = upd_conn s i (\<lambda>c. c\<lparr>snd_nxt := snd_nxt c + 1, conn_state := TCP_FIN_WAIT\<rparr>);
                   close_wait poll s i (uptime s)
                 }
               else Some s))"

definition tcp_abort :: "(tcp \<Rightarrow> tcp) \<Rightarrow> tcp \<Rightarrow> nat option \<Rightarrow> tcp option" where
  "tcp_abort poll s h =
     (case h of
        None \<Rightarrow> Some s
      | Some i \<Rightarrow>
          if \<not> in_use (g_conns s ! i) then Some s
          else
            map_option (\<lambda>s. upd_conn s i drop_conn)
              (if conn_state (g_conns s ! i) \<in> {TCP_ESTABLISHED, TCP_CLOSE_WAIT, TCP_FIN_WAIT, TCP_SYN_RCVD}
               then map_option snd (tcp_send_segment poll s i (TCP_FLAG_RST OR TCP_FLAG_ACK) [])
               else Some s))"

section \<open>The receive path\<close>

definition has :: "u8 \<Rightarrow> u8 \<Rightarrow> bool" where
  "has flags f = (flags AND f \<noteq> 0)"

definition tcp_reply_rst :: "tcp \<Rightarrow> ip \<Rightarrow> u16 \<Rightarrow> u16 \<Rightarrow> u32 \<Rightarrow> u32 \<Rightarrow> u8 \<Rightarrow> nat \<Rightarrow> tcp option" where
  "tcp_reply_rst s src_ip rport lport seq ack flags data_len =
     (if has flags TCP_FLAG_RST then Some s
      else if \<not> ip_is_configured s then Some s
      else if has flags TCP_FLAG_ACK then
        map_option snd (tcp_send_raw busy_poll s src_ip rport lport ack 0 TCP_FLAG_RST 0 [])
      else
        let seg_len = data_len + (if has flags TCP_FLAG_SYN then 1 else 0) + (if has flags TCP_FLAG_FIN then 1 else 0)
        in map_option snd (tcp_send_raw busy_poll s src_ip rport lport 0 (seq + of_nat seg_len)
             (TCP_FLAG_RST OR TCP_FLAG_ACK) 0 []))"

definition send_ack :: "tcp \<Rightarrow> nat \<Rightarrow> tcp option" where
  "send_ack s i = map_option snd (tcp_send_segment busy_poll s i TCP_FLAG_ACK [])"

text \<open>The data of a segment: in order, it is appended and what follows it is joined; otherwise it is kept.\<close>

definition conn_append :: "tcp_conn \<Rightarrow> bytes \<Rightarrow> tcp_conn" where
  "conn_append c data =
     (let space = TCP_RX_BUF_SIZE - rx_len c;
          copy_len = (if length data < space then length data else space)
      in tcp_ooo_join (c\<lparr>rx_buf := put_bytes (rx_buf c) (rx_len c) (take copy_len data),
           rx_len := rx_len c + copy_len, rcv_nxt := rcv_nxt c + of_nat copy_len\<rparr>))"

definition input_data :: "tcp \<Rightarrow> nat \<Rightarrow> u32 \<Rightarrow> bytes \<Rightarrow> tcp option" where
  "input_data s i seq data =
     (if data \<noteq> [] \<and> seq = rcv_nxt (g_conns s ! i) then send_ack (upd_conn s i (\<lambda>c. conn_append c data)) i
      else if data \<noteq> [] then send_ack (upd_conn s i (\<lambda>c. tcp_ooo_store c seq data)) i
      else Some s)"

definition input_fin :: "tcp \<Rightarrow> nat \<Rightarrow> u32 \<Rightarrow> u8 \<Rightarrow> nat \<Rightarrow> tcp option" where
  "input_fin s i seq flags data_len =
     (let conn = g_conns s ! i in
      if has flags TCP_FLAG_FIN \<and> seq + of_nat data_len = rcv_nxt conn then
        map_option (\<lambda>s. upd_conn s i (\<lambda>c.
            if conn_state c = TCP_ESTABLISHED then c\<lparr>conn_state := TCP_CLOSE_WAIT\<rparr>
            else if conn_state c = TCP_FIN_WAIT then c\<lparr>conn_state := TCP_CLOSED\<rparr> else c))
          (send_ack (upd_conn s i (\<lambda>c. c\<lparr>rcv_nxt := rcv_nxt c + 1, remote_closed := True\<rparr>)) i)
      else if has flags TCP_FLAG_ACK \<and> conn_state conn = TCP_FIN_WAIT \<and> snd_una conn = snd_nxt conn
      then Some (upd_conn s i (\<lambda>c. c\<lparr>conn_state := TCP_CLOSED\<rparr>))
      else Some s)"

text \<open>A segment for a connection past the handshake of a passive open.\<close>

definition input_segment :: "tcp \<Rightarrow> nat \<Rightarrow> u32 \<Rightarrow> u32 \<Rightarrow> u8 \<Rightarrow> bytes \<Rightarrow> tcp option" where
  "input_segment s i seq ack flags data =
     (if has flags TCP_FLAG_RST then Some (upd_conn s i (\<lambda>c. c\<lparr>reset := True, conn_state := TCP_CLOSED\<rparr>))
      else if conn_state (g_conns s ! i) = TCP_SYN_SENT then
        (if has flags TCP_FLAG_SYN \<and> has flags TCP_FLAG_ACK then
           send_ack (upd_conn s i (\<lambda>c. c\<lparr>rcv_nxt := seq + 1, snd_una := ack,
             snd_nxt := (if snd_nxt c < ack then ack else snd_nxt c), conn_state := TCP_ESTABLISHED\<rparr>)) i
         else Some s)
      else
        let s = (if has flags TCP_FLAG_ACK then upd_conn s i (\<lambda>c. if ack > snd_una c then c\<lparr>snd_una := ack\<rparr> else c) else s)
        in do {
             s \<leftarrow> input_data s i seq data;
             input_fin s i seq flags (length data)
           })"

text \<open>A segment for a connection of the table: the passive handshake first.\<close>

definition input_conn :: "tcp \<Rightarrow> nat \<Rightarrow> u32 \<Rightarrow> u32 \<Rightarrow> u8 \<Rightarrow> bytes \<Rightarrow> tcp option" where
  "input_conn s i seq ack flags data =
     (let s = upd_conn s i (\<lambda>c. c\<lparr>last_activity_ms := uptime s\<rparr>); conn = g_conns s ! i in
      if conn_state conn = TCP_SYN_RCVD then
        (if has flags TCP_FLAG_RST then Some (upd_conn s i drop_conn)
         else if has flags TCP_FLAG_SYN \<and> \<not> has flags TCP_FLAG_ACK then
           map_option (\<lambda>(ok, s). upd_conn s i (\<lambda>c. c\<lparr>snd_nxt := snd_una c + 1\<rparr>))
             (tcp_send_segment busy_poll (upd_conn s i (\<lambda>c. c\<lparr>snd_nxt := snd_una c\<rparr>)) i (TCP_FLAG_SYN OR TCP_FLAG_ACK) [])
         else if \<not> has flags TCP_FLAG_ACK \<or> ack \<noteq> snd_nxt conn then Some s
         else input_segment (upd_conn s i (\<lambda>c. c\<lparr>snd_una := ack, conn_state := TCP_ESTABLISHED\<rparr>)) i seq ack flags data)
      else input_segment s i seq ack flags data)"

definition tcp_handle_packet :: "tcp \<Rightarrow> ip \<Rightarrow> bytes \<Rightarrow> nat \<Rightarrow> tcp option" where
  "tcp_handle_packet s src_ip seg len =
     (if len < 20 then Some s
      else
        let lport = of_nat (be_value (slice seg 2 2)); rport = of_nat (be_value (slice seg 0 2));
            data_off = unat (drop_bit 4 (seg ! 12)) * 4;
            data = take (len - data_off) (drop data_off seg);
            seq = of_nat (be_value (slice seg 4 4)); ack = of_nat (be_value (slice seg 8 4)); flags = seg ! 13
        in if data_off < 20 \<or> data_off > len then Some s
           else case tcp_find s src_ip rport lport of
             None \<Rightarrow>
               if has flags TCP_FLAG_SYN \<and> \<not> has flags TCP_FLAG_ACK \<and> tcp_is_listening s lport
               then tcp_passive_open s src_ip rport lport seq
               else tcp_reply_rst s src_ip rport lport seq ack flags (len - data_off)
           | Some i \<Rightarrow> input_conn s i seq ack flags data)"

text \<open>A frame from the driver, through all layers.\<close>

definition net_input :: "tcp \<Rightarrow> bytes \<Rightarrow> nat \<Rightarrow> tcp option" where
  "net_input s frame len =
     (case eth_handle_frame s frame len of
        (s, To_Tcp src_ip seg n) \<Rightarrow> tcp_handle_packet s src_ip seg n
      | (s, _) \<Rightarrow> Some s)"

end
