(* ===== verification/Tcp_Stream.thy ===== *)
theory Tcp_Stream
  imports Tcp
begin

text \<open>
  The receive side of a TCP connection: whatever order, duplication and loss the segments of the peer's
  stream arrive with, the bytes handed to the reader are a prefix of that stream.
\<close>

section \<open>Sending from the receive path\<close>

lemma more_conns: "net.more s' = net.more s \<Longrightarrow> g_conns s' = g_conns (s :: tcp)"
  by (cases s; cases s') simp

lemma more_listeners: "net.more s' = net.more s \<Longrightarrow> g_listeners s' = g_listeners (s :: tcp)"
  by (cases s; cases s') simp

definition busy_step :: "tcp \<Rightarrow> tcp \<Rightarrow> bool" where
  "busy_step s s' \<longleftrightarrow> net.more s' = net.more s \<and> g_local_ip s' = g_local_ip s \<and> g_netmask s' = g_netmask s \<and>
     g_cache s' = g_cache s \<and> g_local_mac s' = g_local_mac s \<and> delivered s' = delivered s \<and> g_bindings s' = g_bindings s"

lemma busy_stepD: "busy_step s s' \<Longrightarrow> g_conns s' = g_conns s" "busy_step s s' \<Longrightarrow> g_listeners s' = g_listeners s"
  by (auto simp: busy_step_def intro: more_conns more_listeners)

lemma arp_wait_busy: "\<exists>m s'. arp_wait busy_poll s ip start t = Some (m, s') \<and> busy_step s s'"
proof (induction "start + t - uptime s" arbitrary: s rule: less_induct)
  case less
  show ?case
  proof (cases "uptime s - start < t \<and> arp_cache_lookup s ip = None")
    case True
    let ?s = "s\<lparr>uptime := uptime s + 2\<rparr>"
    have "uptime s < start + t" using True by linarith
    then have "start + t - uptime ?s < start + t - uptime s" by simp
    from less[OF this] obtain m s' where w: "arp_wait busy_poll ?s ip start t = Some (m, s')" "busy_step ?s s'" by blast
    have "busy_step s s'" using w(2) by (simp add: busy_step_def)
    then show ?thesis using True w(1) by (subst arp_wait.simps) (simp add: Let_def busy_poll_def)
  next
    case False
    then show ?thesis
      by (subst arp_wait.simps) (auto simp: Let_def busy_poll_def busy_step_def split: option.splits)
  qed
qed

lemma ip_send_busy:
  assumes "20 + length payload \<le> ETH_MTU"
  shows "\<exists>ok s'. ip_send busy_poll s dst p payload = Some (ok, s') \<and> busy_step s s'"
proof -
  have tr: "\<exists>ok s'. ip_transmit s mac dst p payload = Some (ok, s') \<and> busy_step s s'" for s :: tcp and mac
    unfolding ip_transmit_ok[OF assms] by (auto simp: busy_step_def)
  have res: "\<exists>m s'. arp_resolve busy_poll s ip 1000 = Some (m, s') \<and> busy_step s s'" for ip
  proof (cases "arp_cache_lookup s ip")
    case None
    let ?s = "arp_send_request s ip"
    have e: "busy_step s ?s" by (simp add: busy_step_def arp_send_request_def eth_send_def Let_def)
    obtain m s' where "arp_wait busy_poll ?s ip (uptime ?s) 1000 = Some (m, s')" "busy_step ?s s'"
      using arp_wait_busy by blast
    then show ?thesis using None e by (auto simp: arp_resolve_def Let_def busy_step_def)
  next
    case (Some mac)
    then show ?thesis by (simp add: arp_resolve_def busy_step_def)
  qed
  show ?thesis
  proof (cases "dst = 0xFFFFFFFF")
    case True
    then show ?thesis using tr by (simp add: ip_send_def)
  next
    case False
    obtain m s1 where r: "arp_resolve busy_poll s (next_hop s dst) 1000 = Some (m, s1)" "busy_step s s1" using res by blast
    show ?thesis
    proof (cases m)
      case None
      then show ?thesis using r False by (auto simp: ip_send_def)
    next
      case (Some mac)
      obtain ok s2 where t: "ip_transmit s1 mac dst p payload = Some (ok, s2)" "busy_step s1 s2" using tr by blast
      have "busy_step s s2" using r(2) t(2) by (simp add: busy_step_def)
      then show ?thesis using r(1) t(1) False Some by (simp add: ip_send_def)
    qed
  qed
qed

lemma length_tcp_header [simp]: "length (tcp_header sp dp seq ack off fl win c) = 20"
  by (simp add: tcp_header_def)

lemma send_raw_busy:
  "length data \<le> 1460 \<Longrightarrow>
   \<exists>ok s'. tcp_send_raw busy_poll s rip rp lp seq ack fl win data = Some (ok, s') \<and> busy_step s s'"
  unfolding tcp_send_raw_def Let_def by (auto simp: ETH_MTU_def intro!: ip_send_busy)

lemma send_segment_busy:
  "length data \<le> 1460 \<Longrightarrow> \<exists>ok s'. tcp_send_segment busy_poll s i fl data = Some (ok, s') \<and> busy_step s s'"
  unfolding tcp_send_segment_def Let_def by (rule send_raw_busy)

lemma send_ack_total: "\<exists>s'. send_ack s i = Some s' \<and> busy_step s s'"
  using send_segment_busy[of "[]" s i TCP_FLAG_ACK] by (auto simp: send_ack_def)

section \<open>Sequence numbers\<close>

lemma seq_diff:
  assumes "x < 2 ^ 31" "y < 2 ^ 31"
  shows "sint (w + of_nat x - (w + of_nat y) :: u32) = int x - int y"
proof -
  have "w + of_nat x - (w + of_nat y) = (of_int (int x - int y) :: u32)" by simp
  also have "sint \<dots> = int x - int y"
    unfolding signed_of_int using assms signed_take_bit_int_eq_self[of 31 "int x - int y"] by simp
  finally show ?thesis .
qed

lemma seq_diff': "x < 2 ^ 31 \<Longrightarrow> y < 2 ^ 31 \<Longrightarrow> w + of_nat x = (w + of_nat y :: u32) \<longleftrightarrow> x = y"
  using seq_diff[of x y w] by auto

section \<open>The stream invariant\<close>

text \<open>
  The peer's stream \<open>stream\<close> starts at sequence number \<open>w\<close>; \<open>got\<close> is what the reader has taken. A range holds
  the bytes \<open>[A, B)\<close> of the stream at their place in the buffer. Streams are shorter than two gibibytes,
  so that a sequence number stands for one position only.
\<close>

definition range_holds :: "u32 \<Rightarrow> bytes \<Rightarrow> nat \<Rightarrow> nat \<Rightarrow> bytes \<Rightarrow> u32 \<times> u32 \<Rightarrow> bool" where
  "range_holds w stream d low buf r \<longleftrightarrow>
     (\<exists>A B. r = (w + of_nat A, w + of_nat B) \<and> low \<le> A \<and> A < B \<and> B \<le> length stream \<and> B \<le> d + TCP_RX_BUF_SIZE \<and>
        (\<forall>k. A \<le> k \<and> k < B \<longrightarrow> d \<le> k \<longrightarrow> buf ! (k - d) = stream ! k))"

text \<open>\<open>low\<close> bounds the ranges from below: the position after the next expected byte, except while joining.\<close>

definition stream_part :: "u32 \<Rightarrow> bytes \<Rightarrow> bytes \<Rightarrow> nat \<Rightarrow> tcp_conn \<Rightarrow> bool" where
  "stream_part w stream got low c \<longleftrightarrow>
     length stream < 2 ^ 30 \<and> length (rx_buf c) = TCP_RX_BUF_SIZE \<and> rx_len c \<le> TCP_RX_BUF_SIZE \<and>
     length got + rx_len c \<le> length stream \<and>
     got @ take (rx_len c) (rx_buf c) = take (length got + rx_len c) stream \<and>
     rcv_nxt c = w + of_nat (length got + rx_len c + (if remote_closed c then 1 else 0)) \<and>
     (remote_closed c \<longrightarrow> length got + rx_len c = length stream) \<and>
     length (ooo c) \<le> TCP_OOO_RANGES \<and>
     (\<forall>r \<in> set (ooo c). range_holds w stream (length got) low (rx_buf c) r)"

definition stream_ok :: "u32 \<Rightarrow> bytes \<Rightarrow> bytes \<Rightarrow> tcp_conn \<Rightarrow> bool" where
  "stream_ok w stream got c \<longleftrightarrow> stream_part w stream got (length got + rx_len c + 1) c"

lemma stream_part_low: "stream_part w stream got low c \<Longrightarrow> low' \<le> low \<Longrightarrow> stream_part w stream got low' c"
  unfolding stream_part_def range_holds_def by (meson le_trans)

lemma set_swap_remove: "i < length rs \<Longrightarrow> set (swap_remove rs i) \<subseteq> set rs"
proof -
  assume "i < length rs"
  then have "last rs \<in> set rs" by (auto intro: last_in_set)
  then show ?thesis unfolding swap_remove_def using set_update_subset_insert[of rs i "last rs"]
    by (auto dest: in_set_butlastD)
qed

lemma stream_part_sub:
  "stream_part w stream got low c \<Longrightarrow> set rs \<subseteq> set (ooo c) \<Longrightarrow> length rs \<le> length (ooo c) \<Longrightarrow>
   stream_part w stream got low (c\<lparr>ooo := rs\<rparr>)"
  unfolding stream_part_def by auto

text \<open>Extending the received part by bytes that are already in the buffer.\<close>

lemma stream_part_extend:
  assumes "stream_part w stream got low c" "\<not> remote_closed c"
    and "length got + rx_len c \<le> B" "B \<le> length stream" "B \<le> length got + TCP_RX_BUF_SIZE"
    and bytes: "\<And>k. length got + rx_len c \<le> k \<Longrightarrow> k < B \<Longrightarrow> rx_buf c ! (k - length got) = stream ! k"
  shows "stream_part w stream got low (c\<lparr>rx_len := B - length got, rcv_nxt := w + of_nat B\<rparr>)"
proof -
  note sp = assms(1)[unfolded stream_part_def]
  have eq: "got @ take (rx_len c) (rx_buf c) = take (length got + rx_len c) stream" using sp by simp
  have "got @ take (B - length got) (rx_buf c) = take B stream"
  proof (rule nth_equalityI)
    show "length (got @ take (B - length got) (rx_buf c)) = length (take B stream)" using assms(3-5) sp by simp
    fix k assume "k < length (got @ take (B - length got) (rx_buf c))"
    then have k: "k < B" using assms(3) by auto
    show "(got @ take (B - length got) (rx_buf c)) ! k = take B stream ! k"
    proof (cases "k < length got + rx_len c")
      case True
      have "(got @ take (B - length got) (rx_buf c)) ! k = (got @ take (rx_len c) (rx_buf c)) ! k"
        using k True assms(3) by (auto simp: nth_append)
      then show ?thesis using k True by (simp add: eq)
    next
      case False
      then show ?thesis using k bytes[of k] by (simp add: nth_append)
    qed
  qed
  then show ?thesis using assms(2-5) sp by (auto simp: stream_part_def)
qed

lemma join_ok:
  assumes "stream_part w stream got low c" "\<not> remote_closed c"
  shows "stream_ok w stream got (tcp_ooo_join c) \<and> \<not> remote_closed (tcp_ooo_join c) \<and> rx_len c \<le> rx_len (tcp_ooo_join c)"
  using assms
proof (induction c rule: tcp_ooo_join.induct)
  case (1 c)
  let ?off = "length got + rx_len c"
  note sp = 1(2)[unfolded stream_part_def]
  have st: "length stream < 2 ^ 30" and rn: "rcv_nxt c = w + of_nat ?off" and len: "?off \<le> length stream"
    using sp 1(3) by auto
  have rh: "range_holds w stream (length got) low (rx_buf c) (ooo c ! j)" if "j < length (ooo c)" for j
    using sp that by auto
  show ?case
  proof (cases "find (\<lambda>i. sint (fst (ooo c ! i) - rcv_nxt c) \<le> 0) [0..<length (ooo c)]")
    case None
    have "range_holds w stream (length got) (?off + 1) (rx_buf c) (ooo c ! j)" if j: "j < length (ooo c)" for j
    proof -
      obtain A B where r: "ooo c ! j = (w + of_nat A, w + of_nat B)" "A < B" "B \<le> length stream"
          "B \<le> length got + TCP_RX_BUF_SIZE" "\<And>k. A \<le> k \<and> k < B \<Longrightarrow> length got \<le> k \<Longrightarrow> rx_buf c ! (k - length got) = stream ! k"
        using rh[OF j] unfolding range_holds_def by blast
      have "\<not> sint (fst (ooo c ! j) - rcv_nxt c) \<le> 0" using None j unfolding find_upt_None by blast
      then have "?off < A" using seq_diff[of A ?off w] r(1-3) st rn len by simp
      then show ?thesis unfolding range_holds_def using r by (intro exI[of _ A] exI[of _ B]) auto
    qed
    then have "\<forall>r \<in> set (ooo c). range_holds w stream (length got) (?off + 1) (rx_buf c) r"
      by (metis in_set_conv_nth)
    then have "stream_ok w stream got c" using sp unfolding stream_ok_def stream_part_def by blast
    moreover have "tcp_ooo_join c = c" using None by (subst tcp_ooo_join.simps) simp
    ultimately show ?thesis using 1(3) by simp
  next
    case (Some i)
    have i: "i < length (ooo c)" "sint (fst (ooo c ! i) - rcv_nxt c) \<le> 0" using find_upt_Some[OF Some] by auto
    obtain A B where r: "ooo c ! i = (w + of_nat A, w + of_nat B)" "A < B" "B \<le> length stream"
        "B \<le> length got + TCP_RX_BUF_SIZE" "\<And>k. A \<le> k \<and> k < B \<Longrightarrow> length got \<le> k \<Longrightarrow> rx_buf c ! (k - length got) = stream ! k"
      using rh[OF i(1)] unfolding range_holds_def by blast
    have A: "A \<le> ?off" using seq_diff[of A ?off w] i(2) r(1-3) st rn len by simp
    define gain where "gain = sint (snd (ooo c ! i) - rcv_nxt c)"
    have gain: "gain = int B - int ?off" using seq_diff[of B ?off w] r st rn len by (simp add: gain_def)
    define c1 where "c1 = (if gain > 0 then c\<lparr>rx_len := rx_len c + nat gain, rcv_nxt := rcv_nxt c + of_int gain\<rparr> else c)"
    have c1: "stream_part w stream got low c1 \<and> rx_len c \<le> rx_len c1"
    proof (cases "gain > 0")
      case True
      then have "rx_len c + nat gain = B - length got" "rcv_nxt c + of_int gain = w + of_nat B"
        using gain by (auto simp: rn)
      then have c1': "c1 = c\<lparr>rx_len := B - length got, rcv_nxt := w + of_nat B\<rparr>" using True by (simp add: c1_def)
      show ?thesis unfolding c1' using stream_part_extend[OF 1(2,3), of B] r A True gain by auto
    qed (simp add: c1_def 1(2))
    have o: "ooo c1 = ooo c" "\<not> remote_closed c1" using 1(3) by (auto simp: c1_def)
    let ?c2 = "c1\<lparr>ooo := swap_remove (ooo c1) i\<rparr>"
    have "stream_part w stream got low ?c2"
      using c1 set_swap_remove[of i "ooo c1"] i(1) o by (intro stream_part_sub) auto
    moreover have "tcp_ooo_join c = tcp_ooo_join ?c2"
      using Some by (subst tcp_ooo_join.simps) (simp add: Let_def c1_def gain_def)
    ultimately show ?thesis
      using 1(1)[OF Some gain_def c1_def] o c1 by auto
  qed
qed

lemma put_bytes_nth:
  "i + length ys \<le> length xs \<Longrightarrow> k < length xs \<Longrightarrow>
   put_bytes xs i ys ! k = (if i \<le> k \<and> k < i + length ys then ys ! (k - i) else xs ! k)"
  by (auto simp: put_bytes_def nth_append)

text \<open>Writing bytes of the stream at their place keeps what the buffer holds.\<close>

lemma stream_part_write:
  assumes sp: "stream_part w stream got low c" and A: "length got + rx_len c \<le> A"
    and n: "n \<le> length stream - A" "A - length got + n \<le> TCP_RX_BUF_SIZE" "A \<le> length stream"
  shows "stream_part w stream got low (c\<lparr>rx_buf := put_bytes (rx_buf c) (A - length got) (slice stream A n)\<rparr>)"
    and "\<And>k. A \<le> k \<Longrightarrow> k < A + n \<Longrightarrow> put_bytes (rx_buf c) (A - length got) (slice stream A n) ! (k - length got) = stream ! k"
proof -
  let ?buf = "put_bytes (rx_buf c) (A - length got) (slice stream A n)"
  have len: "length (rx_buf c) = TCP_RX_BUF_SIZE" using sp by (simp add: stream_part_def)
  have ls: "length (slice stream A n) = n" using n by (simp add: slice_def)
  have fit: "A - length got + length (slice stream A n) \<le> length (rx_buf c)" using n ls len by simp
  have lb: "length ?buf = TCP_RX_BUF_SIZE" using length_put_bytes[OF fit] len by simp
  have new: "?buf ! (k - length got) = stream ! k" if "A \<le> k" "k < A + n" for k
  proof -
    have "k - length got < length (rx_buf c)" "A - length got \<le> k - length got" "k - length got < A - length got + n"
      using that A fit ls by auto
    then show ?thesis using put_bytes_nth[OF fit, of "k - length got"] that A n ls by (simp add: slice_def)
  qed
  show "\<And>k. A \<le> k \<Longrightarrow> k < A + n \<Longrightarrow> ?buf ! (k - length got) = stream ! k" by (rule new)
  have old: "?buf ! (k - length got) = stream ! k"
    if "rx_buf c ! (k - length got) = stream ! k" "length got \<le> k" "k < length got + TCP_RX_BUF_SIZE" for k
  proof (cases "A \<le> k \<and> k < A + n")
    case True
    then show ?thesis using new by blast
  next
    case False
    then have "\<not> (A - length got \<le> k - length got \<and> k - length got < A - length got + n)" using that(2) A by auto
    moreover have "k - length got < length (rx_buf c)" using that(2,3) len by auto
    ultimately show ?thesis using put_bytes_nth[OF fit, of "k - length got"] that(1) by (simp only: ls if_False)
  qed
  have tk: "take (rx_len c) ?buf = take (rx_len c) (rx_buf c)"
  proof -
    have "rx_len c \<le> A - length got" "A - length got \<le> length (rx_buf c)" using A fit by auto
    then show ?thesis by (simp add: put_bytes_def min_absorb1)
  qed
  have "range_holds w stream (length got) low ?buf r" if rh: "range_holds w stream (length got) low (rx_buf c) r" for r
  proof -
    obtain P Q where q: "r = (w + of_nat P, w + of_nat Q)" "low \<le> P" "P < Q" "Q \<le> length stream" "Q \<le> length got + TCP_RX_BUF_SIZE"
        "\<And>k. P \<le> k \<and> k < Q \<Longrightarrow> length got \<le> k \<Longrightarrow> rx_buf c ! (k - length got) = stream ! k"
      using rh unfolding range_holds_def by blast
    have "?buf ! (k - length got) = stream ! k" if "P \<le> k" "k < Q" "length got \<le> k" for k
      using old[of k] q(5,6) that by simp
    then show ?thesis unfolding range_holds_def using q by blast
  qed
  then show "stream_part w stream got low (c\<lparr>rx_buf := ?buf\<rparr>)"
    using sp tk lb unfolding stream_part_def by simp
qed

lemma append_ok:
  assumes ok: "stream_ok w stream got c" and seg: "data = slice stream A (length data)" "A + length data \<le> length stream"
    and seq: "w + of_nat A = rcv_nxt c"
  shows "stream_ok w stream got (conn_append c data) \<and>
    rx_len c + min (length data) (TCP_RX_BUF_SIZE - rx_len c) \<le> rx_len (conn_append c data)"
proof -
  note sp = ok[unfolded stream_ok_def]
  note f = sp[unfolded stream_part_def]
  let ?off = "length got + rx_len c"
  define e where "e = ?off + (if remote_closed c then 1 else 0)"
  have rn: "rcv_nxt c = w + of_nat e" using f unfolding e_def by blast
  have off: "?off \<le> length stream" "length stream < 2 ^ 30" "remote_closed c \<longrightarrow> ?off = length stream" using f by blast+
  then have "A < 2 ^ 31" "e < 2 ^ 31" using seg(2) by (auto simp: e_def)
  then have "A = e" using seq_diff'[of A e w] seq rn by simp
  then have A: "A = ?off" and open_: "\<not> remote_closed c" using seg(2) off by (auto simp: e_def split: if_splits)
  define n where "n = (if length data < TCP_RX_BUF_SIZE - rx_len c then length data else TCP_RX_BUF_SIZE - rx_len c)"
  have n: "n \<le> length data" "rx_len c + n \<le> TCP_RX_BUF_SIZE" using f by (auto simp: n_def)
  have td: "take n data = slice stream A n"
    by (subst seg(1)) (use n in \<open>simp add: slice_def min_def\<close>)
  let ?c = "c\<lparr>rx_buf := put_bytes (rx_buf c) (A - length got) (slice stream A n)\<rparr>"
  have w: "stream_part w stream got (?off + 1) ?c"
    and b: "\<And>k. A \<le> k \<Longrightarrow> k < A + n \<Longrightarrow> rx_buf ?c ! (k - length got) = stream ! k"
    using stream_part_write[OF sp, of A n] n seg(2) A by auto
  have "stream_part w stream got (?off + 1) (?c\<lparr>rx_len := (A + n) - length got, rcv_nxt := w + of_nat (A + n)\<rparr>)"
    using stream_part_extend[OF w, of "A + n"] b A open_ n seg(2) by auto
  from join_ok[OF this] open_
  have "stream_ok w stream got (tcp_ooo_join (?c\<lparr>rx_len := (A + n) - length got, rcv_nxt := w + of_nat (A + n)\<rparr>)) \<and>
      (A + n) - length got \<le> rx_len (tcp_ooo_join (?c\<lparr>rx_len := (A + n) - length got, rcv_nxt := w + of_nat (A + n)\<rparr>))"
    by simp
  moreover have "conn_append c data = tcp_ooo_join (?c\<lparr>rx_len := (A + n) - length got, rcv_nxt := w + of_nat (A + n)\<rparr>)"
    unfolding conn_append_def Let_def n_def[symmetric] td using A f open_ by (simp add: add.assoc)
  moreover have "rx_len c + min (length data) (TCP_RX_BUF_SIZE - rx_len c) = (A + n) - length got"
    using A by (simp add: n_def min_def)
  ultimately show ?thesis by simp
qed

lemma merge_ok:
  assumes "length stream < 2 ^ 30" "\<forall>r \<in> set rs. range_holds w stream d low buf r"
    and "start = w + of_nat A0" "stop = w + of_nat B0" "low \<le> A0" "A0 < B0" "B0 \<le> length stream" "B0 \<le> d + TCP_RX_BUF_SIZE"
    and "\<And>k. A0 \<le> k \<Longrightarrow> k < B0 \<Longrightarrow> d \<le> k \<Longrightarrow> P k" "\<And>k. d \<le> k \<Longrightarrow> buf ! (k - d) = stream ! k \<Longrightarrow> P k"
  shows "case ooo_merge start stop i rs of (r, rs') \<Rightarrow>
    set rs' \<subseteq> set rs \<and> length rs' \<le> length rs \<and>
    (\<exists>A B. r = (w + of_nat A, w + of_nat B) \<and> low \<le> A \<and> A < B \<and> B \<le> length stream \<and> B \<le> d + TCP_RX_BUF_SIZE \<and>
       (\<forall>k. A \<le> k \<and> k < B \<longrightarrow> d \<le> k \<longrightarrow> P k))"
  using assms(2-)
proof (induction start stop i rs arbitrary: A0 B0 rule: ooo_merge.induct)
  case (1 start stop i rs)
  show ?case
  proof (cases "i < length rs")
    case False
    then show ?thesis using 1(4-10) by (subst ooo_merge.simps) auto
  next
    case i: True
    obtain A B where r: "rs ! i = (w + of_nat A, w + of_nat B)" "low \<le> A" "A < B" "B \<le> length stream" "B \<le> d + TCP_RX_BUF_SIZE"
        "\<And>k. A \<le> k \<and> k < B \<Longrightarrow> d \<le> k \<Longrightarrow> buf ! (k - d) = stream ! k"
      using 1(3) i nth_mem unfolding range_holds_def by blast
    have lt: "A < 2 ^ 31" "B < 2 ^ 31" "A0 < 2 ^ 31" "B0 < 2 ^ 31" using r 1(7,8) assms(1) by auto
    have touch: "sint (start - (w + of_nat B)) \<le> 0 \<longleftrightarrow> A0 \<le> B" "sint (w + of_nat A - stop) \<le> 0 \<longleftrightarrow> A \<le> B0"
      "sint (w + of_nat A - start) < 0 \<longleftrightarrow> A < A0" "0 < sint (w + of_nat B - stop) \<longleftrightarrow> B0 < B"
      unfolding 1(4,5) seq_diff[OF lt(3,2)] seq_diff[OF lt(1,4)] seq_diff[OF lt(1,3)] seq_diff[OF lt(2,4)] by auto
    show ?thesis
    proof (cases "A0 \<le> B \<and> A \<le> B0")
      case True
      let ?A = "min A A0" and ?B = "max B B0"
      have st: "(if sint (w + of_nat A - start) < 0 then w + of_nat A else start) = w + of_nat ?A"
        "(if 0 < sint (w + of_nat B - stop) then w + of_nat B else stop) = w + of_nat ?B"
        using touch 1(4,5) by (auto simp: min_def max_def)
      have "P k" if "?A \<le> k" "k < ?B" "d \<le> k" for k
        using that True r(6)[of k] 1(10)[of k] 1(11)[of k] by (cases "A0 \<le> k \<and> k < B0") auto
      moreover have "\<forall>r \<in> set (swap_remove rs i). range_holds w stream d low buf r"
        using 1(3) set_swap_remove[OF i] by blast
      ultimately have "case ooo_merge (w + of_nat ?A) (w + of_nat ?B) i (swap_remove rs i) of (r, rs') \<Rightarrow>
          set rs' \<subseteq> set (swap_remove rs i) \<and> length rs' \<le> length (swap_remove rs i) \<and>
          (\<exists>A B. r = (w + of_nat A, w + of_nat B) \<and> low \<le> A \<and> A < B \<and> B \<le> length stream \<and> B \<le> d + TCP_RX_BUF_SIZE \<and>
             (\<forall>k. A \<le> k \<and> k < B \<longrightarrow> d \<le> k \<longrightarrow> P k))"
        using 1(1)[OF i refl r(1)[symmetric], of ?A ?B] touch True st r 1(6-9,11) by (auto simp: less_max_iff_disj)
      moreover have "ooo_merge start stop i rs = ooo_merge (w + of_nat ?A) (w + of_nat ?B) i (swap_remove rs i)"
        using i touch True st by (subst ooo_merge.simps) (simp add: r(1))
      ultimately show ?thesis using set_swap_remove[OF i] by (auto split: prod.splits)
    next
      case False
      have "ooo_merge start stop i rs = ooo_merge start stop (i + 1) rs"
        using i touch False by (subst ooo_merge.simps) (auto simp: r(1))
      then show ?thesis using 1(2)[OF i refl r(1)[symmetric]] touch False 1(3-11) by auto
    qed
  qed
qed

lemma store_ok:
  assumes ok: "stream_ok w stream got c" and data: "data = slice stream A (length data)" "A + length data \<le> length stream" "data \<noteq> []"
  shows "stream_ok w stream got (tcp_ooo_store c (w + of_nat A) data)"
proof -
  let ?off = "length got + rx_len c" and ?c' = "tcp_ooo_store c (w + of_nat A) data"
  note sp = ok[unfolded stream_ok_def]
  note f = sp[unfolded stream_part_def]
  define e where "e = ?off + (if remote_closed c then 1 else 0)"
  have rn: "rcv_nxt c = w + of_nat e" using f unfolding e_def by blast
  have off: "?off \<le> length stream" "length stream < 2 ^ 30" "remote_closed c \<longrightarrow> ?off = length stream" using f by blast+
  have n0: "0 < length data" using data(3) by simp
  have lt: "A < 2 ^ 31" "e < 2 ^ 31" using off data(2) by (auto simp: e_def)
  have ahead: "sint (w + of_nat A - rcv_nxt c) = int A - int e" unfolding rn by (rule seq_diff[OF lt])
  show ?thesis
  proof (cases "A \<le> e \<or> rx_len c + nat (int A - int e) + length data > TCP_RX_BUF_SIZE")
    case True
    then have "?c' = c" by (auto simp: tcp_ooo_store_def Let_def ahead)
    then show ?thesis using ok by simp
  next
    case False
    then have Ae: "e < A" and fit: "rx_len c + nat (int A - int e) + length data \<le> TCP_RX_BUF_SIZE" by auto
    have open_: "\<not> remote_closed c" using Ae off data(2) n0 by (auto simp: e_def)
    then have e: "e = ?off" by (simp add: e_def)
    let ?n = "length data" and ?buf = "put_bytes (rx_buf c) (A - length got) data"
    have pos: "rx_len c + nat (int A - int e) = A - length got" using Ae e by auto
    obtain r rs where m: "ooo_merge (w + of_nat A) (w + of_nat A + of_nat ?n) 0 (ooo c) = (r, rs)" by (cases "ooo_merge (w + of_nat A) (w + of_nat A + of_nat ?n) 0 (ooo c)")
    have wr: "stream_part w stream got (?off + 1) (c\<lparr>rx_buf := ?buf\<rparr>)"
      and nw: "\<And>k. A \<le> k \<Longrightarrow> k < A + ?n \<Longrightarrow> ?buf ! (k - length got) = stream ! k"
      using stream_part_write[OF sp, of A ?n, folded data(1)] data(2) Ae e fit pos by auto
    have "\<forall>r \<in> set (ooo c). range_holds w stream (length got) (?off + 1) ?buf r"
      using wr unfolding stream_part_def by simp
    from merge_ok[OF off(2) this, of "w + of_nat A" A "w + of_nat A + of_nat ?n" "A + ?n" "\<lambda>k. ?buf ! (k - length got) = stream ! k" 0]
    have mg: "set rs \<subseteq> set (ooo c)" "length rs \<le> length (ooo c)" "range_holds w stream (length got) (?off + 1) ?buf r"
      using Ae e data(2) n0 fit pos nw unfolding m range_holds_def by auto
    show ?thesis
    proof (cases "length rs \<ge> TCP_OOO_RANGES")
      case True
      then have "?c' = c\<lparr>ooo := rs\<rparr>" using Ae fit by (simp add: tcp_ooo_store_def Let_def ahead m)
      then show ?thesis using stream_part_sub[OF sp mg(1,2)] by (simp add: stream_ok_def)
    next
      case False
      then have "?c' = c\<lparr>rx_buf := ?buf, ooo := rs @ [r]\<rparr>" using Ae fit by (simp add: tcp_ooo_store_def Let_def ahead m pos)
      then show ?thesis using wr mg False unfolding stream_ok_def stream_part_def by auto
    qed
  qed
qed

lemma fin_ok:
  assumes ok: "stream_ok w stream got c" and "w + of_nat (length stream) = rcv_nxt c"
  shows "stream_ok w stream got (c\<lparr>rcv_nxt := rcv_nxt c + 1, remote_closed := True\<rparr>)"
proof -
  let ?off = "length got + rx_len c"
  note f = ok[unfolded stream_ok_def stream_part_def]
  define e where "e = ?off + (if remote_closed c then 1 else 0)"
  have rn: "rcv_nxt c = w + of_nat e" using f unfolding e_def by blast
  have off: "?off \<le> length stream" "length stream < 2 ^ 30" "remote_closed c \<longrightarrow> ?off = length stream" using f by blast+
  then have "e < 2 ^ 31" "length stream < 2 ^ 31" by (auto simp: e_def)
  then have "length stream = e" using seq_diff'[of "length stream" e w] assms(2) rn by simp
  then have "\<not> remote_closed c" "?off = length stream" using off by (auto simp: e_def split: if_splits)
  then show ?thesis using f unfolding stream_ok_def stream_part_def by simp
qed

section \<open>Reading\<close>

lemma extent_bounds:
  fixes ranges :: "(u32 \<times> u32) list" and rcv :: u32
  defines "g \<equiv> \<lambda>extent (a :: u32, b). let e = b - rcv in if sint e > 0 \<and> unat e > extent then unat e else extent"
  shows "x \<le> foldl g x ranges \<and> (\<forall>(a, b) \<in> set ranges. 0 < sint (b - rcv) \<longrightarrow> unat (b - rcv) \<le> foldl g x ranges) \<and>
    (x \<le> m \<longrightarrow> (\<forall>(a, b) \<in> set ranges. 0 < sint (b - rcv) \<longrightarrow> unat (b - rcv) \<le> m) \<longrightarrow> foldl g x ranges \<le> m)"
proof (induction ranges arbitrary: x)
  case (Cons r ranges)
  obtain a b where r: "r = (a, b)" by (cases r)
  have "foldl g x (r # ranges) = foldl g (g x (a, b)) ranges" by (simp add: r)
  moreover have "x \<le> g x (a, b)" "0 < sint (b - rcv) \<Longrightarrow> unat (b - rcv) \<le> g x (a, b)"
    "g x (a, b) = x \<or> 0 < sint (b - rcv) \<and> g x (a, b) = unat (b - rcv)" by (auto simp: g_def Let_def)
  ultimately show ?case using Cons[of "g x (a, b)"] by (auto simp: r)
qed simp

lemma stream_range:
  assumes ok: "stream_ok w stream got c" and r: "r \<in> set (ooo c)"
  shows "\<exists>A B. r = (w + of_nat A, w + of_nat B) \<and> length got + rx_len c < A \<and> A < B \<and> B \<le> length stream \<and> B \<le> length got + TCP_RX_BUF_SIZE \<and>
    (\<forall>k. A \<le> k \<longrightarrow> k < B \<longrightarrow> rx_buf c ! (k - length got) = stream ! k) \<and>
    sint (snd r - rcv_nxt c) = int B - int (length got + rx_len c) \<and> unat (snd r - rcv_nxt c) = B - (length got + rx_len c)"
proof -
  let ?off = "length got + rx_len c"
  note f = ok[unfolded stream_ok_def stream_part_def]
  obtain A B where q: "r = (w + of_nat A, w + of_nat B)" "?off + 1 \<le> A" "A < B" "B \<le> length stream" "B \<le> length got + TCP_RX_BUF_SIZE"
      "\<And>k. A \<le> k \<and> k < B \<Longrightarrow> length got \<le> k \<Longrightarrow> rx_buf c ! (k - length got) = stream ! k"
    using f r unfolding range_holds_def by blast
  have st: "length stream < 2 ^ 30" "remote_closed c \<longrightarrow> ?off = length stream" using f by blast+
  then have rn: "rcv_nxt c = w + of_nat ?off" using f q by auto
  have lt: "B < 2 ^ 31" "?off < 2 ^ 31" using q st by auto
  have "snd r - rcv_nxt c = of_nat (B - ?off)" using q rn by (simp add: of_nat_diff)
  then have "unat (snd r - rcv_nxt c) = B - ?off" using lt by (simp add: unat_of_nat del: of_nat_diff)
  moreover have "sint (snd r - rcv_nxt c) = int B - int ?off" unfolding rn q(1) snd_conv by (rule seq_diff[OF lt])
  moreover have "\<forall>k. A \<le> k \<longrightarrow> k < B \<longrightarrow> rx_buf c ! (k - length got) = stream ! k" using q by auto
  ultimately show ?thesis using q by (intro exI[of _ A] exI[of _ B]) auto
qed

lemma extent_ok:
  assumes ok: "stream_ok w stream got c"
  shows "rx_len c + tcp_ooo_extent c \<le> TCP_RX_BUF_SIZE"
    and "(w + of_nat A, w + of_nat B) \<in> set (ooo c) \<Longrightarrow> B \<le> length stream \<Longrightarrow> B \<le> length got + rx_len c + tcp_ooo_extent c"
proof -
  let ?off = "length got + rx_len c"
  note f = ok[unfolded stream_ok_def stream_part_def]
  have ge: "unat (b - rcv_nxt c) \<le> tcp_ooo_extent c" if "(a, b) \<in> set (ooo c)" "0 < sint (b - rcv_nxt c)" for a b
    unfolding tcp_ooo_extent_def using bspec[OF conjunct1[OF conjunct2[OF extent_bounds]] that(1)] that(2) by simp
  have "\<forall>(a, b) \<in> set (ooo c). 0 < sint (b - rcv_nxt c) \<longrightarrow> unat (b - rcv_nxt c) \<le> TCP_RX_BUF_SIZE - rx_len c"
    using stream_range[OF ok] by fastforce
  then have "tcp_ooo_extent c \<le> TCP_RX_BUF_SIZE - rx_len c"
    unfolding tcp_ooo_extent_def using conjunct2[OF conjunct2[OF extent_bounds]] by blast
  then show "rx_len c + tcp_ooo_extent c \<le> TCP_RX_BUF_SIZE" using f by auto
  assume r: "(w + of_nat A, w + of_nat B) \<in> set (ooo c)" "B \<le> length stream"
  obtain B' where B': "w + of_nat B = w + of_nat B'" "?off < B'" "B' \<le> length stream"
      "sint (w + of_nat B - rcv_nxt c) = int B' - int ?off" "unat (w + of_nat B - rcv_nxt c) = B' - ?off"
    using stream_range[OF ok r(1)] by auto
  have "B = B'" using B'(1,3) r(2) f seq_diff'[of B B' w] by simp
  then show "B \<le> ?off + tcp_ooo_extent c"
    using ge[OF r(1)] B'(2,4,5) by simp
qed

lemma recv_ok:
  assumes ok: "stream_ok w stream got c" and k: "k \<le> rx_len c"
  shows "stream_ok w stream (got @ take k (rx_buf c))
    (c\<lparr>rx_buf := put_bytes (rx_buf c) 0 (slice (rx_buf c) k (rx_len c - k + tcp_ooo_extent c)), rx_len := rx_len c - k\<rparr>)"
proof -
  note f = ok[unfolded stream_ok_def stream_part_def]
  let ?got = "got @ take k (rx_buf c)" and ?n = "rx_len c - k + tcp_ooo_extent c"
  let ?buf = "put_bytes (rx_buf c) 0 (slice (rx_buf c) k ?n)"
  have len: "length (rx_buf c) = TCP_RX_BUF_SIZE" "rx_len c \<le> TCP_RX_BUF_SIZE" using f by blast+
  have ext: "k + ?n \<le> length (rx_buf c)" using extent_ok(1)[OF ok] k len by linarith
  then have ls: "length (slice (rx_buf c) k ?n) = ?n" by (simp add: slice_def)
  have lb: "length ?buf = TCP_RX_BUF_SIZE" using ext ls len by (simp add: length_put_bytes)
  have nth: "?buf ! j = rx_buf c ! (k + j)" if "j < ?n" for j
    using put_bytes_nth[of 0 "slice (rx_buf c) k ?n" "rx_buf c" j] ext ls that by (simp add: slice_def)
  have lg: "length ?got = length got + k" using k len by simp
  have off: "length ?got + (rx_len c - k) = length got + rx_len c" using k lg by simp
  have "?got @ take (rx_len c - k) ?buf = got @ take (rx_len c) (rx_buf c)"
  proof -
    have "take (rx_len c - k) ?buf = take (rx_len c - k) (drop k (rx_buf c))"
      using ext ls by (simp add: put_bytes_def slice_def min_def)
    then show ?thesis using k take_add[of k "rx_len c - k" "rx_buf c"] by simp
  qed
  moreover have "range_holds w stream (length ?got) (length got + rx_len c + 1) ?buf r" if r: "r \<in> set (ooo c)" for r
  proof -
    obtain A B where q: "r = (w + of_nat A, w + of_nat B)" "length got + rx_len c < A" "A < B" "B \<le> length stream"
        "B \<le> length got + TCP_RX_BUF_SIZE" "\<forall>j. A \<le> j \<longrightarrow> j < B \<longrightarrow> rx_buf c ! (j - length got) = stream ! j"
      using stream_range[OF ok r] by auto
    have B: "B \<le> length got + rx_len c + tcp_ooo_extent c" using extent_ok(2)[OF ok, of A B] r q by simp
    have "?buf ! (j - length ?got) = stream ! j" if j: "A \<le> j" "j < B" for j
    proof -
      have "j - length ?got < ?n" using j B q(2) k lg by linarith
      then have "?buf ! (j - length ?got) = rx_buf c ! (k + (j - length ?got))" by (rule nth)
      also have "k + (j - length ?got) = j - length got" using j q(2) k lg by linarith
      finally show ?thesis using q(6) j by simp
    qed
    then show ?thesis unfolding range_holds_def lg using q by (intro exI[of _ A] exI[of _ B]) auto
  qed
  moreover define c' where "c' = c\<lparr>rx_buf := ?buf, rx_len := rx_len c - k\<rparr>"
  have c': "rx_buf c' = ?buf" "rx_len c' = rx_len c - k" "ooo c' = ooo c" "rcv_nxt c' = rcv_nxt c" "remote_closed c' = remote_closed c"
    by (simp_all add: c'_def)
  have "rx_len c - k \<le> TCP_RX_BUF_SIZE" using len by simp
  ultimately show ?thesis
    using f lb unfolding c'_def[symmetric] stream_ok_def stream_part_def c' off by (intro conjI) metis+
qed

section \<open>The connection in the table\<close>

definition conn_key :: "tcp_conn \<Rightarrow> bool \<times> ip \<times> u16 \<times> u16" where
  "conn_key c = (in_use c, remote_ip c, remote_port c, local_port c)"

lemma conn_key_eq: "conn_key c = conn_key c' \<longleftrightarrow>
    in_use c = in_use c' \<and> remote_ip c = remote_ip c' \<and> remote_port c = remote_port c' \<and> local_port c = local_port c'"
  by (simp add: conn_key_def)

text \<open>The connection is in the table under its addresses, past the handshake, and its data is in order.\<close>

definition conn_ok :: "nat \<Rightarrow> ip \<Rightarrow> u16 \<Rightarrow> u16 \<Rightarrow> u32 \<Rightarrow> bytes \<Rightarrow> bytes \<Rightarrow> tcp \<Rightarrow> bool" where
  "conn_ok i rip rp lp w stream got s \<longleftrightarrow>
     length (g_conns s) = TCP_MAX_CONNS \<and> tcp_find s rip rp lp = Some i \<and>
     conn_state (g_conns s ! i) \<noteq> TCP_SYN_SENT \<and> conn_state (g_conns s ! i) \<noteq> TCP_SYN_RCVD \<and>
     stream_ok w stream got (g_conns s ! i)"

lemma tcp_find_cong:
  "(\<And>j. j < TCP_MAX_CONNS \<Longrightarrow> conn_key (g_conns s' ! j) = conn_key (g_conns s ! j)) \<Longrightarrow> tcp_find s' rip rp lp = tcp_find s rip rp lp"
  unfolding tcp_find_def Let_def by (rule find_cong) (auto simp: conn_key_eq)

lemma tcp_find_index: "tcp_find s rip rp lp = Some i \<Longrightarrow> i < TCP_MAX_CONNS \<and> in_use (g_conns s ! i)"
  by (auto simp: tcp_find_def Let_def dest!: find_upt_Some)

lemma conns_upd [simp]: "g_conns (upd_conn s i f) = (g_conns s)[i := f (g_conns s ! i)]"
  by (simp add: upd_conn_def)

lemma conn_ok_upd:
  assumes "conn_ok i rip rp lp w stream got s" "conn_key (f (g_conns s ! i)) = conn_key (g_conns s ! i)"
    and "conn_state (f (g_conns s ! i)) \<noteq> TCP_SYN_SENT" "conn_state (f (g_conns s ! i)) \<noteq> TCP_SYN_RCVD"
    and "stream_ok w stream got' (f (g_conns s ! i))"
  shows "conn_ok i rip rp lp w stream got' (upd_conn s i f)"
proof -
  have i: "i < length (g_conns s)" using assms(1) tcp_find_index by (auto simp: conn_ok_def)
  have "tcp_find (upd_conn s i f) rip rp lp = tcp_find s rip rp lp"
    using assms(2) i by (intro tcp_find_cong) (auto simp: nth_list_update)
  then show ?thesis using assms i by (auto simp: conn_ok_def)
qed

lemma conn_ok_busy: "busy_step s s' \<Longrightarrow> conn_ok i rip rp lp w stream got s \<Longrightarrow> conn_ok i rip rp lp w stream got s'"
  using busy_stepD(1)[of s s'] by (simp add: conn_ok_def tcp_find_def)

lemma join_keeps: "conn_key (tcp_ooo_join c) = conn_key c \<and> conn_state (tcp_ooo_join c) = conn_state c"
proof (induction c rule: tcp_ooo_join.induct)
  case (1 c)
  show ?case
  proof (cases "find (\<lambda>i. sint (fst (ooo c ! i) - rcv_nxt c) \<le> 0) [0..<length (ooo c)]")
    case None
    then show ?thesis by (subst (1 2) tcp_ooo_join.simps) simp
  next
    case (Some i)
    then show ?thesis using 1[OF Some refl refl] by (subst (1 2) tcp_ooo_join.simps) (auto simp: Let_def conn_key_def)
  qed
qed

lemma append_keeps: "conn_key (conn_append c data) = conn_key c" "conn_state (conn_append c data) = conn_state c"
  by (simp_all add: conn_append_def Let_def join_keeps) (simp add: conn_key_def)

lemma store_keeps: "conn_key (tcp_ooo_store c seq data) = conn_key c" "conn_state (tcp_ooo_store c seq data) = conn_state c"
  "rx_len (tcp_ooo_store c seq data) = rx_len c"
  by (simp_all add: tcp_ooo_store_def Let_def conn_key_def split: prod.splits)

lemma stream_ok_other [simp]:
  "stream_ok w stream got (c\<lparr>snd_una := u\<rparr>) = stream_ok w stream got c"
  "stream_ok w stream got (c\<lparr>snd_nxt := u\<rparr>) = stream_ok w stream got c"
  "stream_ok w stream got (c\<lparr>conn_state := st\<rparr>) = stream_ok w stream got c"
  "stream_ok w stream got (c\<lparr>last_activity_ms := t\<rparr>) = stream_ok w stream got c"
  "stream_ok w stream got (c\<lparr>reset := b\<rparr>) = stream_ok w stream got c"
  by (simp_all add: stream_ok_def stream_part_def)

text \<open>A segment that carries bytes of the stream.\<close>

definition carries :: "bytes \<Rightarrow> nat \<Rightarrow> u8 \<Rightarrow> bytes \<Rightarrow> bool" where
  "carries stream A flags data \<longleftrightarrow> A + length data \<le> length stream \<and> data = slice stream A (length data) \<and>
     (has flags TCP_FLAG_FIN \<longrightarrow> A + length data = length stream)"

lemma input_data_ok:
  assumes "conn_ok i rip rp lp w stream got s" "carries stream A flags data"
  shows "\<exists>s'. input_data s i (w + of_nat A) data = Some s' \<and> conn_ok i rip rp lp w stream got s' \<and>
    (w + of_nat A = rcv_nxt (g_conns s ! i) \<longrightarrow>
       rx_len (g_conns s ! i) + min (length data) (TCP_RX_BUF_SIZE - rx_len (g_conns s ! i)) \<le> rx_len (g_conns s' ! i))"
proof -
  let ?c = "g_conns s ! i"
  note ok = assms(1)[unfolded conn_ok_def]
  have d: "data = slice stream A (length data)" "A + length data \<le> length stream" using assms(2) by (auto simp: carries_def)
  have i: "i < length (g_conns s)" using ok tcp_find_index by auto
  have step: "\<exists>s'. send_ack (upd_conn s i f) i = Some s' \<and> conn_ok i rip rp lp w stream got s' \<and> g_conns s' ! i = f ?c"
    if "conn_ok i rip rp lp w stream got (upd_conn s i f)" for f
  proof -
    obtain s' where "send_ack (upd_conn s i f) i = Some s'" "busy_step (upd_conn s i f) s'" using send_ack_total by blast
    then show ?thesis using conn_ok_busy that busy_stepD(1) i by fastforce
  qed
  show ?thesis
  proof (cases "data = []")
    case True
    then show ?thesis using assms(1) by (simp add: input_data_def)
  next
    case ne: False
    show ?thesis
    proof (cases "w + of_nat A = rcv_nxt ?c")
      case True
      have "conn_ok i rip rp lp w stream got (upd_conn s i (\<lambda>c. conn_append c data))"
        using ok append_ok[OF _ d True] by (intro conn_ok_upd[OF assms(1)]) (auto simp: append_keeps)
      then show ?thesis using step ne True append_ok[OF _ d True] ok by (fastforce simp: input_data_def)
    next
      case False
      have "conn_ok i rip rp lp w stream got (upd_conn s i (\<lambda>c. tcp_ooo_store c (w + of_nat A) data))"
        using ok store_ok[OF _ d ne] by (intro conn_ok_upd[OF assms(1)]) (auto simp: store_keeps)
      then show ?thesis using step ne False by (fastforce simp: input_data_def)
    qed
  qed
qed

lemma input_fin_ok:
  assumes "conn_ok i rip rp lp w stream got s" "carries stream A flags data"
  shows "\<exists>s'. input_fin s i (w + of_nat A) flags (length data) = Some s' \<and> conn_ok i rip rp lp w stream got s' \<and>
    rx_len (g_conns s' ! i) = rx_len (g_conns s ! i)"
proof -
  let ?c = "g_conns s ! i"
  note ok = assms(1)[unfolded conn_ok_def]
  have i: "i < length (g_conns s)" using ok tcp_find_index by auto
  show ?thesis
  proof (cases "has flags TCP_FLAG_FIN \<and> w + of_nat A + of_nat (length data) = rcv_nxt ?c")
    case True
    let ?s1 = "upd_conn s i (\<lambda>c. c\<lparr>rcv_nxt := rcv_nxt c + 1, remote_closed := True\<rparr>)"
    have "A + length data = length stream" using True assms(2) by (auto simp: carries_def)
    then have "w + of_nat (length stream) = rcv_nxt ?c" using True by (metis add.assoc of_nat_add)
    then have s1: "conn_ok i rip rp lp w stream got ?s1"
      using ok fin_ok by (intro conn_ok_upd[OF assms(1)]) (auto simp: conn_key_def)
    obtain s2 where s2: "send_ack ?s1 i = Some s2" "busy_step ?s1 s2" using send_ack_total by blast
    have k2: "conn_ok i rip rp lp w stream got s2" using conn_ok_busy[OF s2(2) s1] .
    let ?f = "\<lambda>c. if conn_state c = TCP_ESTABLISHED then c\<lparr>conn_state := TCP_CLOSE_WAIT\<rparr>
            else if conn_state c = TCP_FIN_WAIT then c\<lparr>conn_state := TCP_CLOSED\<rparr> else c"
    have "conn_ok i rip rp lp w stream got (upd_conn s2 i ?f)"
      using k2[unfolded conn_ok_def] by (intro conn_ok_upd[OF k2]) (auto simp: conn_key_def)
    moreover have "rx_len (g_conns (upd_conn s2 i ?f) ! i) = rx_len ?c" using i busy_stepD(1)[OF s2(2)] by simp
    ultimately show ?thesis using True s2(1) by (simp add: input_fin_def Let_def)
  next
    case False
    have "conn_ok i rip rp lp w stream got (upd_conn s i (\<lambda>c. c\<lparr>conn_state := TCP_CLOSED\<rparr>))"
      using ok by (intro conn_ok_upd[OF assms(1)]) (auto simp: conn_key_def)
    then show ?thesis using False assms(1) i by (auto simp: input_fin_def Let_def)
  qed
qed

lemma input_conn_ok:
  assumes "conn_ok i rip rp lp w stream got s" "carries stream A flags data"
  shows "\<exists>s'. input_conn s i (w + of_nat A) ack flags data = Some s' \<and> conn_ok i rip rp lp w stream got s' \<and>
    (w + of_nat A = rcv_nxt (g_conns s ! i) \<and> \<not> has flags TCP_FLAG_RST \<longrightarrow>
       rx_len (g_conns s ! i) + min (length data) (TCP_RX_BUF_SIZE - rx_len (g_conns s ! i)) \<le> rx_len (g_conns s' ! i))"
proof -
  let ?s1 = "upd_conn s i (\<lambda>c. c\<lparr>last_activity_ms := uptime s\<rparr>)"
  have i: "i < length (g_conns s)" using assms(1) tcp_find_index by (auto simp: conn_ok_def)
  have s1: "conn_ok i rip rp lp w stream got ?s1"
    using assms(1)[unfolded conn_ok_def] by (intro conn_ok_upd[OF assms(1)]) (auto simp: conn_key_def)
  note ok1 = s1[unfolded conn_ok_def]
  have "input_conn s i (w + of_nat A) ack flags data = input_segment ?s1 i (w + of_nat A) ack flags data"
    using ok1 by (simp add: input_conn_def Let_def)
  moreover have "\<exists>s'. input_segment ?s1 i (w + of_nat A) ack flags data = Some s' \<and> conn_ok i rip rp lp w stream got s' \<and>
    (w + of_nat A = rcv_nxt (g_conns s ! i) \<and> \<not> has flags TCP_FLAG_RST \<longrightarrow>
       rx_len (g_conns s ! i) + min (length data) (TCP_RX_BUF_SIZE - rx_len (g_conns s ! i)) \<le> rx_len (g_conns s' ! i))"
  proof (cases "has flags TCP_FLAG_RST")
    case True
    have "conn_ok i rip rp lp w stream got (upd_conn ?s1 i (\<lambda>c. c\<lparr>reset := True, conn_state := TCP_CLOSED\<rparr>))"
      using ok1 by (intro conn_ok_upd[OF s1]) (auto simp: conn_key_def)
    then show ?thesis using True by (simp add: input_segment_def)
  next
    case False
    define s2 where "s2 = (if has flags TCP_FLAG_ACK then upd_conn ?s1 i (\<lambda>c. if ack > snd_una c then c\<lparr>snd_una := ack\<rparr> else c) else ?s1)"
    have "conn_ok i rip rp lp w stream got (upd_conn ?s1 i (\<lambda>c. if ack > snd_una c then c\<lparr>snd_una := ack\<rparr> else c))"
      using ok1 by (intro conn_ok_upd[OF s1]) (auto simp: conn_key_def)
    then have "conn_ok i rip rp lp w stream got s2" using s1 by (auto simp: s2_def)
    then obtain s3 where s3: "input_data s2 i (w + of_nat A) data = Some s3" "conn_ok i rip rp lp w stream got s3"
        "w + of_nat A = rcv_nxt (g_conns s2 ! i) \<longrightarrow>
         rx_len (g_conns s2 ! i) + min (length data) (TCP_RX_BUF_SIZE - rx_len (g_conns s2 ! i)) \<le> rx_len (g_conns s3 ! i)"
      using input_data_ok[OF _ assms(2)] by blast
    have c2: "rcv_nxt (g_conns s2 ! i) = rcv_nxt (g_conns s ! i)" "rx_len (g_conns s2 ! i) = rx_len (g_conns s ! i)"
      using i by (auto simp: s2_def)
    have "input_segment ?s1 i (w + of_nat A) ack flags data = input_fin s3 i (w + of_nat A) flags (length data)"
      using False ok1 s3(1) unfolding input_segment_def Let_def s2_def[symmetric] by simp
    then show ?thesis using input_fin_ok[OF s3(2) assms(2)] s3(3) c2 by auto
  qed
  ultimately show ?thesis by simp
qed

section \<open>A session\<close>

lemma tcp_header_fields [simp]:
  "slice (tcp_header sp dp seq ack off fl win c @ rest) 0 2 = be_bytes 2 (unat sp)"
  "slice (tcp_header sp dp seq ack off fl win c @ rest) 2 2 = be_bytes 2 (unat dp)"
  "slice (tcp_header sp dp seq ack off fl win c @ rest) 4 4 = be_bytes 4 (unat seq)"
  "slice (tcp_header sp dp seq ack off fl win c @ rest) 8 4 = be_bytes 4 (unat ack)"
  "(tcp_header sp dp seq ack off fl win c @ rest) ! 12 = off"
  "(tcp_header sp dp seq ack off fl win c @ rest) ! 13 = fl"
  "drop 20 (tcp_header sp dp seq ack off fl win c @ rest) = rest"
  by (simp_all add: tcp_header_def slice_def nth_append)

lemma handle_header:
  "tcp_handle_packet s rip (tcp_header rp lp seq ack 0x50 fl win ck @ data @ pad) (20 + length data) =
     (case tcp_find s rip rp lp of
        None \<Rightarrow>
          if has fl TCP_FLAG_SYN \<and> \<not> has fl TCP_FLAG_ACK \<and> tcp_is_listening s lp
          then tcp_passive_open s rip rp lp seq
          else tcp_reply_rst s rip rp lp seq ack fl (length data)
      | Some i \<Rightarrow> input_conn s i seq ack fl data)"
proof -
  have o: "unat (drop_bit 4 (0x50 :: u8)) * 4 = 20" by simp
  have n: "20 + length data - 20 = length data" "take (length data) (data @ pad) = data" by simp_all
  show ?thesis unfolding tcp_handle_packet_def Let_def tcp_header_fields be_port be_ip o n
    by (simp split: option.splits)
qed

text \<open>
  What happens to a connection after its handshake: segments of the peer's stream arrive, in any order
  and any number of times, with any acknowledgement, window and flags, except that FIN marks the end of
  the stream; the application reads; and the rest of the system does anything that leaves the connection
  alone. The second component is what the application has read.
\<close>

inductive session :: "nat \<Rightarrow> ip \<Rightarrow> u16 \<Rightarrow> u16 \<Rightarrow> u32 \<Rightarrow> bytes \<Rightarrow> tcp \<times> bytes \<Rightarrow> tcp \<times> bytes \<Rightarrow> bool"
  for i rip rp lp w stream where
  Start: "session i rip rp lp w stream st st"
| Segment: "session i rip rp lp w stream st (s, got) \<Longrightarrow> carries stream A fl data \<Longrightarrow>
    tcp_handle_packet s rip (tcp_header rp lp (w + of_nat A) ack 0x50 fl win ck @ data @ pad) (20 + length data) = Some s' \<Longrightarrow>
    session i rip rp lp w stream st (s', got)"
| Read: "session i rip rp lp w stream st (s, got) \<Longrightarrow> tcp_recv (\<lambda>s. s) s (Some i) maxlen = (n, out, s') \<Longrightarrow>
    session i rip rp lp w stream st (s', got @ out)"
| Elsewhere: "session i rip rp lp w stream st (s, got) \<Longrightarrow> length (g_conns s') = length (g_conns s) \<Longrightarrow>
    g_conns s' ! i = g_conns s ! i \<Longrightarrow> tcp_find s' rip rp lp = tcp_find s rip rp lp \<Longrightarrow>
    session i rip rp lp w stream st (s', got)"

text \<open>The connection as the handshake leaves it.\<close>

definition opened :: "nat \<Rightarrow> ip \<Rightarrow> u16 \<Rightarrow> u16 \<Rightarrow> u32 \<Rightarrow> tcp \<Rightarrow> bool" where
  "opened i rip rp lp w s \<longleftrightarrow> length (g_conns s) = TCP_MAX_CONNS \<and> tcp_find s rip rp lp = Some i \<and>
     (let c = g_conns s ! i in conn_state c = TCP_ESTABLISHED \<and> length (rx_buf c) = TCP_RX_BUF_SIZE \<and> rx_len c = 0 \<and>
        rcv_nxt c = w \<and> ooo c = [] \<and> \<not> remote_closed c)"

lemma read_ok:
  assumes ok: "conn_ok i rip rp lp w stream got s" and r: "tcp_recv (\<lambda>s. s) s (Some i) maxlen = (n, out, s')"
  shows "conn_ok i rip rp lp w stream (got @ out) s'"
proof -
  let ?c = "g_conns s ! i"
  let ?k = "if rx_len ?c < maxlen then rx_len ?c else maxlen"
  have use: "in_use ?c" using ok tcp_find_index by (auto simp: conn_ok_def)
  show ?thesis
  proof (cases "rx_len ?c = 0")
    case True
    then show ?thesis using r use ok by (auto simp: tcp_recv_def Let_def split: if_splits)
  next
    case False
    let ?f = "\<lambda>c. c\<lparr>rx_buf := put_bytes (rx_buf c) 0 (slice (rx_buf ?c) ?k (rx_len ?c - ?k + tcp_ooo_extent ?c)), rx_len := rx_len c - ?k\<rparr>"
    have e: "out = take ?k (rx_buf ?c)" "s' = upd_conn s i ?f"
      using r use False by (auto simp: tcp_recv_def Let_def split: if_splits)
    have "?k \<le> rx_len ?c" by simp
    then show ?thesis unfolding e using ok[unfolded conn_ok_def] recv_ok[of w stream got ?c ?k]
      by (intro conn_ok_upd[OF ok]) (simp_all add: conn_key_def)
  qed
qed

lemma session_ok:
  "session i rip rp lp w stream st st' \<Longrightarrow> conn_ok i rip rp lp w stream (snd st) (fst st) \<Longrightarrow>
   conn_ok i rip rp lp w stream (snd st') (fst st')"
proof (induction rule: session.induct)
  case (Segment st s got A fl data ack win ck pad s')
  then have ok: "conn_ok i rip rp lp w stream got s" by simp
  then have "tcp_find s rip rp lp = Some i" by (simp add: conn_ok_def)
  then show ?case using input_conn_ok[OF ok Segment(2), of ack] Segment(3) unfolding handle_header by auto
next
  case (Read st s got maxlen n out s')
  then show ?case using read_ok by simp
qed (auto simp: conn_ok_def)

lemma opened_ok: "opened i rip rp lp w s \<Longrightarrow> length stream < 2 ^ 30 \<Longrightarrow> conn_ok i rip rp lp w stream [] s"
  by (simp add: opened_def conn_ok_def stream_ok_def stream_part_def Let_def)

section \<open>A concrete connection\<close>

definition tcp_demo :: tcp where
  "tcp_demo = tcp_init \<lparr>g_local_mac = [2, 0, 0, 0, 0, 1], g_cache = [], g_local_ip = 0x0A000001, g_netmask = 0xFFFFFF00,
     g_gateway = 0x0A0000FE, g_dns_ip = 0, g_ip_id = 1, g_bindings = [], frames = [], delivered = [], uptime = 7,
     g_conns = [], g_listeners = [], g_next_ephemeral_port = 49152, g_accept_seq = 0, randoms = [100]\<rparr>"

definition conn_demo :: tcp where
  "conn_demo = upd_conn tcp_demo 0 (\<lambda>c. c\<lparr>in_use := True, conn_state := TCP_ESTABLISHED, remote_ip := 0x0A000002,
     remote_port := 80, local_port := 49152, rcv_nxt := 5000\<rparr>)"

lemma conn_demo_opened: "opened 0 0x0A000002 80 49152 5000 conn_demo"
proof -
  have c: "g_conns conn_demo = zero_conn\<lparr>in_use := True, conn_state := TCP_ESTABLISHED, remote_ip := 0x0A000002,
     remote_port := 80, local_port := 49152, rcv_nxt := 5000\<rparr> # replicate 7 zero_conn"
    by (simp add: conn_demo_def tcp_demo_def tcp_init_def TCP_MAX_CONNS_def numeral_eq_Suc)
  have "tcp_find conn_demo 0x0A000002 80 49152 = Some 0"
    by (simp add: tcp_find_def c TCP_MAX_CONNS_def upt_conv_Cons)
  then show ?thesis by (simp add: opened_def c TCP_MAX_CONNS_def zero_conn_def)
qed

text \<open>Any segment of the stream can be taken.\<close>

lemma session_segment:
  assumes "opened i rip rp lp w s" "length stream < 2 ^ 30" "session i rip rp lp w stream (s, []) (s', got)" "carries stream A fl data"
  shows "\<exists>s''. tcp_handle_packet s' rip (tcp_header rp lp (w + of_nat A) ack 0x50 fl win ck @ data @ pad) (20 + length data) = Some s'' \<and>
    (w + of_nat A = rcv_nxt (g_conns s' ! i) \<and> \<not> has fl TCP_FLAG_RST \<longrightarrow>
       rx_len (g_conns s' ! i) + min (length data) (TCP_RX_BUF_SIZE - rx_len (g_conns s' ! i)) \<le> rx_len (g_conns s'' ! i))"
proof -
  have ok: "conn_ok i rip rp lp w stream got s'" using session_ok[OF assms(3)] opened_ok[OF assms(1,2)] by simp
  then have "tcp_find s' rip rp lp = Some i" by (simp add: conn_ok_def)
  then show ?thesis using input_conn_ok[OF ok assms(4), of ack] unfolding handle_header by auto
qed

section \<open>Properties\<close>

text \<open>
  C5. Stream integrity: after any session on an established connection, what the application has read
  followed by what waits in the receive buffer is a prefix of the stream the peer sent, the next expected
  sequence number is its end, the buffer never overflows, and once the end of the stream has been taken
  the prefix is the whole stream.
\<close>

theorem tcp_stream_integrity:
  assumes "opened i rip rp lp w s" "length stream < 2 ^ 30" "session i rip rp lp w stream (s, []) (s', got)"
  shows "let c = g_conns s' ! i; received = got @ take (rx_len c) (rx_buf c) in
    received = take (length received) stream \<and> rx_len c \<le> TCP_RX_BUF_SIZE \<and> length (rx_buf c) = TCP_RX_BUF_SIZE \<and>
    rcv_nxt c = w + of_nat (length received) + (if remote_closed c then 1 else 0) \<and>
    (remote_closed c \<longrightarrow> received = stream)"
proof -
  have "conn_ok i rip rp lp w stream got s'"
    using session_ok[OF assms(3)] opened_ok[OF assms(1,2)] by simp
  then have ok: "stream_ok w stream got (g_conns s' ! i)" by (simp add: conn_ok_def)
  note f = ok[unfolded stream_ok_def stream_part_def]
  have len: "length (got @ take (rx_len (g_conns s' ! i)) (rx_buf (g_conns s' ! i))) = length got + rx_len (g_conns s' ! i)"
    using f by simp
  show ?thesis unfolding Let_def len using f by (auto simp: add.assoc)
qed

theorem tcp_stream_integrity_witness:
  "\<exists>s'. session 0 0x0A000002 80 49152 5000 [1, 2, 3, 4] (conn_demo, []) (s', []) \<and>
    (let c = g_conns s' ! 0; received = [] @ take (rx_len c) (rx_buf c) in
     received = take (length received) [1, 2, 3, 4] \<and> rx_len c \<le> TCP_RX_BUF_SIZE \<and> length (rx_buf c) = TCP_RX_BUF_SIZE \<and>
     rcv_nxt c = 5000 + of_nat (length received) + (if remote_closed c then 1 else 0) \<and>
     (remote_closed c \<longrightarrow> received = [1, 2, 3, 4]))"
proof -
  let ?st = "[1, 2, 3, 4] :: bytes" and ?S = "session 0 0x0A000002 80 49152 5000 [1, 2, 3, 4] (conn_demo, [])"
  have c1: "carries ?st 2 TCP_FLAG_ACK [3, 4]" and c2: "carries ?st 0 TCP_FLAG_ACK [1, 2]"
    by (simp_all add: carries_def slice_def has_def TCP_FLAG_ACK_def TCP_FLAG_FIN_def)
  have len: "length ?st < 2 ^ 30" by simp
  note seg = session_segment[OF conn_demo_opened len]
  obtain s1 where h1: "tcp_handle_packet conn_demo 0x0A000002
      (tcp_header 80 49152 (5000 + of_nat 2) 0 0x50 TCP_FLAG_ACK 0 0 @ [3, 4] @ []) (20 + length [3, 4 :: u8]) = Some s1"
    using seg[OF session.Start c1, of 0 0 0 "[]"] by blast
  have s1: "?S (s1, [])" by (rule session.Segment[OF session.Start c1 h1])
  obtain s2 where h2: "tcp_handle_packet s1 0x0A000002
      (tcp_header 80 49152 (5000 + of_nat 0) 0 0x50 TCP_FLAG_ACK 0 0 @ [1, 2] @ []) (20 + length [1, 2 :: u8]) = Some s2"
    using seg[OF s1 c2, of 0 0 0 "[]"] by blast
  have s2: "?S (s2, [])" by (rule session.Segment[OF s1 c2 h2])
  show ?thesis by (intro exI[of _ s2] conjI s2 tcp_stream_integrity[OF conn_demo_opened len s2])
qed

text \<open>
  C13. Progress: in any state of a session, a segment of the stream that starts at the next expected byte
  is handled to the end, and whatever had been received or stored before, the receive buffer then
  holds at least all its bytes that fit; so a sender that repeats the first missing segment always
  gets on.
\<close>

theorem tcp_in_order_progress:
  assumes "opened i rip rp lp w s" "length stream < 2 ^ 30" "session i rip rp lp w stream (s, []) (s', got)"
    and "carries stream A fl data" "\<not> has fl TCP_FLAG_RST" "w + of_nat A = rcv_nxt (g_conns s' ! i)"
  shows "\<exists>s''. tcp_handle_packet s' rip (tcp_header rp lp (w + of_nat A) ack 0x50 fl win ck @ data @ pad) (20 + length data) = Some s'' \<and>
    rx_len (g_conns s' ! i) + min (length data) (TCP_RX_BUF_SIZE - rx_len (g_conns s' ! i)) \<le> rx_len (g_conns s'' ! i)"
  using session_segment[OF assms(1-4), of ack win ck pad] assms(5,6) by auto

theorem tcp_in_order_progress_witness:
  "\<exists>s''. tcp_handle_packet conn_demo 0x0A000002 (tcp_header 80 49152 (5000 + of_nat 0) 1 0x50 TCP_FLAG_ACK 0 0 @ [1, 2] @ []) (20 + length [1, 2 :: u8]) = Some s'' \<and>
    rx_len (g_conns conn_demo ! 0) + min (length [1, 2 :: u8]) (TCP_RX_BUF_SIZE - rx_len (g_conns conn_demo ! 0)) \<le> rx_len (g_conns s'' ! 0)"
proof -
  have c: "carries [1, 2, 3, 4] 0 TCP_FLAG_ACK [1, 2]" "\<not> has TCP_FLAG_ACK TCP_FLAG_RST"
    by (simp_all add: carries_def slice_def has_def TCP_FLAG_ACK_def TCP_FLAG_FIN_def TCP_FLAG_RST_def)
  have "rcv_nxt (g_conns conn_demo ! 0) = 5000" using conn_demo_opened by (simp add: opened_def Let_def)
  then have n: "5000 + of_nat 0 = rcv_nxt (g_conns conn_demo ! 0)" by simp
  have len: "length [1, 2, 3, 4 :: u8] < 2 ^ 30" by simp
  show ?thesis by (rule tcp_in_order_progress[OF conn_demo_opened len session.Start c n])
qed

end
