(* ===== verification/Tcp_Conn.thy ===== *)
theory Tcp_Conn
  imports Tcp_Stream
begin

text \<open>
  Opening, accepting and sending: the three-way handshake between two hosts over all layers, the order
  in which connections are accepted, and that sending always returns.
\<close>

section \<open>Sending returns\<close>

lemma ip_send_returns:
  assumes clock: "\<And>s. uptime s \<le> uptime (poll s)" and "20 + length payload \<le> ETH_MTU"
  shows "\<exists>ok s'. ip_send poll s dst p payload = Some (ok, s')"
proof -
  let ?ip = "next_hop s dst" and ?s = "arp_send_request s (next_hop s dst)"
  obtain m' s' where w: "arp_wait poll ?s ?ip (uptime ?s) 1000 = Some (m', s')"
    using arp_wait_returns[of poll ?s, OF clock] by blast
  then have "\<exists>m s1. arp_resolve poll s ?ip 1000 = Some (m, s1)"
    unfolding arp_resolve_def Let_def w by (cases "arp_cache_lookup s ?ip") simp_all
  then obtain m s1 where "arp_resolve poll s ?ip 1000 = Some (m, s1)" by blast
  then show ?thesis unfolding ip_send_def ip_transmit_ok[OF assms(2)] by (cases m) auto
qed

lemma send_segment_returns:
  assumes clock: "\<And>s. uptime s \<le> uptime (poll s)" and "length data \<le> 1460"
  shows "\<exists>ok s'. tcp_send_segment poll s i fl data = Some (ok, s')"
  unfolding tcp_send_segment_def tcp_send_raw_def Let_def
  using assms(2) ip_send_returns[OF clock] by (simp add: ETH_MTU_def)

lemma fill_window_returns:
  assumes clock: "\<And>s. uptime s \<le> uptime (poll s)"
  shows "\<exists>n s'. fill_window poll i data base acked sent s = Some (n, s')"
proof (induction "length data - sent" arbitrary: sent s rule: less_induct)
  case less
  show ?case
  proof (cases "sent < length data \<and> sub32 sent acked < TCP_SEG_SIZE * TCP_SEND_WINDOW_SEGS")
    case True
    define n where "n = (if length data - sent > TCP_SEG_SIZE then TCP_SEG_SIZE else length data - sent)"
    define s1 where "s1 = upd_conn s i (\<lambda>c. c\<lparr>snd_nxt := base + of_nat sent\<rparr>)"
    have n: "0 < n" "n \<le> 1024" using True by (auto simp: n_def TCP_SEG_SIZE_def)
    obtain ok s2 where t: "tcp_send_segment poll s1 i (TCP_FLAG_ACK OR TCP_FLAG_PSH) (slice data sent n) = Some (ok, s2)"
      using send_segment_returns[OF clock, of "slice data sent n" s1 i] n by (fastforce simp: slice_def)
    have e: "fill_window poll i data base acked sent s = (if ok then fill_window poll i data base acked (sent + n) s2 else Some (sent, s2))"
      using True by (subst fill_window.simps) (simp add: t Let_def flip: n_def s1_def)
    show ?thesis using less[of "sent + n" s2] n True unfolding e by auto
  next
    case False
    then show ?thesis by (subst fill_window.simps) (simp only: if_False, blast)
  qed
qed

lemma wait_ack_returns:
  assumes clock: "\<And>s. uptime s \<le> uptime (poll s)"
  shows "\<exists>w s'. wait_ack poll i len base acked start s = Some (w, s') \<and> (\<forall>d. w = Progressed d \<longrightarrow> acked < d \<and> d \<le> len)"
proof (induction "start + TCP_RETRANSMIT_MS - uptime s" arbitrary: s rule: less_induct)
  case less
  define d where "d = (let d = sint (snd_una (g_conns (poll s) ! i) - base); d = (if d < 0 then 0 else nat d) in if d > len then len else d)"
  show ?case
  proof (cases "uptime s - start < TCP_RETRANSMIT_MS \<and> \<not> acked < d \<and>
      \<not> (reset (g_conns (poll s) ! i) \<or> conn_state (g_conns (poll s) ! i) = TCP_CLOSED)")
    case True
    have "uptime s < start + TCP_RETRANSMIT_MS" using True by linarith
    then have "start + TCP_RETRANSMIT_MS - uptime (pass_ms (poll s) 1) < start + TCP_RETRANSMIT_MS - uptime s"
      using clock[of s] by (simp add: pass_ms_def)
    from less[OF this] show ?thesis using True
      by (subst wait_ack.simps) (simp add: Let_def d_def)
  next
    case False
    have "d \<le> len" by (simp add: d_def Let_def)
    then show ?thesis using False by (subst wait_ack.simps) (auto simp: Let_def d_def)
  qed
qed

lemma send_loop_returns:
  assumes clock: "\<And>s. uptime s \<le> uptime (poll s)"
  shows "acked \<le> length data \<Longrightarrow> \<exists>n s'. send_loop poll i data base sent acked retries s = Some (n, s') \<and> n \<le> length data"
proof (induction "(length data - acked, TCP_MAX_RETRIES - retries)" arbitrary: sent acked retries s
    rule: wf_induct_rule[OF wf_lex_prod[OF wf_less wf_less]])
  case 1
  show ?case
  proof (cases "acked < length data")
    case True
    obtain n1 s1 where f: "fill_window poll i data base acked sent s = Some (n1, s1)" using fill_window_returns[OF clock] by blast
    obtain w s2 where w: "wait_ack poll i (length data) base acked (uptime s1) s1 = Some (w, s2)"
        "\<forall>d. w = Progressed d \<longrightarrow> acked < d \<and> d \<le> length data" using wait_ack_returns[OF clock] by blast
    note e = send_loop.simps[of poll i data base sent acked retries s]
    show ?thesis
    proof (cases w)
      case (Progressed d)
      then have d: "acked < d" "d \<le> length data" using w(2) by auto
      have "((length data - d, TCP_MAX_RETRIES - 0), (length data - acked, TCP_MAX_RETRIES - retries)) \<in> {(x, y). x < y} <*lex*> {(x, y). x < y}"
        using d True by auto
      from 1(1)[OF this d(2)] show ?thesis using True f w(1) Progressed by (subst e) simp
    next
      case Gone
      then show ?thesis using True f w(1) by (subst e) simp
    next
      case Timed_Out
      show ?thesis
      proof (cases "retries + 1 \<ge> TCP_MAX_RETRIES")
        case last: True
        then show ?thesis using True f w(1) Timed_Out by (subst e) simp
      next
        case False
        then have "((length data - acked, TCP_MAX_RETRIES - (retries + 1)), (length data - acked, TCP_MAX_RETRIES - retries)) \<in> {(x, y). x < y} <*lex*> {(x, y). x < y}"
          by auto
        from 1(1)[OF this 1(2)] show ?thesis using True f w(1) Timed_Out False by (subst e) simp
      qed
    qed
  next
    case False
    then show ?thesis using 1(2) by (subst send_loop.simps) simp
  qed
qed

section \<open>Segments on the wire\<close>

lemma send_segment_hit:
  assumes "arp_cache_lookup s (next_hop s (remote_ip (g_conns s ! i))) = Some mac" "remote_ip (g_conns s ! i) \<noteq> 0xFFFFFFFF"
    and "length data \<le> 1460"
  shows "let c = g_conns s ! i in \<exists>win ck ipck. tcp_send_segment poll s i fl data = Some (True, s\<lparr>g_ip_id := g_ip_id s + 1, frames := frames s @
     [mac @ g_local_mac s @ be_bytes 2 ETHERTYPE_IPV4 @
      ip_header (20 + (20 + length data)) (g_ip_id s) IP_PROTO_TCP ipck (g_local_ip s) (remote_ip c) @
      tcp_header (local_port c) (remote_port c) (snd_nxt c) (if fl AND TCP_FLAG_ACK \<noteq> 0 then rcv_nxt c else 0) 0x50 fl win ck @ data]\<rparr>)"
proof -
  let ?c = "g_conns s ! i"
  define win where "win = (let rx_space = (if rx_len ?c < TCP_RX_BUF_SIZE then TCP_RX_BUF_SIZE - rx_len ?c else 0)
    in if rx_space > 0xFFFF then 0xFFFF else rx_space)"
  define hdr where "hdr = tcp_header (local_port ?c) (remote_port ?c) (snd_nxt ?c) (if fl AND TCP_FLAG_ACK \<noteq> 0 then rcv_nxt ?c else 0) 0x50 fl win"
  define ck where "ck = net_tcp_checksum (g_local_ip s) (remote_ip ?c) (hdr 0 @ data) (20 + length data)"
  have len: "20 + length (hdr ck @ data) \<le> ETH_MTU" using assms(3) by (simp add: hdr_def ETH_MTU_def)
  have "tcp_send_segment poll s i fl data = ip_send poll s (remote_ip ?c) IP_PROTO_TCP (hdr ck @ data)"
    using assms(3) by (simp add: tcp_send_segment_def tcp_send_raw_def Let_def ETH_MTU_def win_def hdr_def ck_def)
  also have "\<dots> = ip_transmit s mac (remote_ip ?c) IP_PROTO_TCP (hdr ck @ data)"
    using assms(1,2) by (simp add: ip_send_def arp_resolve_hit)
  also note ip_transmit_ok[OF len]
  finally show ?thesis unfolding Let_def hdr_def length_append length_tcp_header by blast
qed

lemma net_input_tcp:
  assumes "length dmac = 6" "length smac = 6" "length data \<le> 1460" "g_local_ip s = dst"
  shows "net_input s (dmac @ smac @ be_bytes 2 ETHERTYPE_IPV4 @ ip_header (20 + (20 + length data)) ident IP_PROTO_TCP ipck src dst @
      tcp_header rp lp seq ack 0x50 fl win ck @ data) (14 + (20 + (20 + length data))) =
    tcp_handle_packet (eth_learn_sender s smac (ip_header (20 + (20 + length data)) ident IP_PROTO_TCP ipck src dst @
      tcp_header rp lp seq ack 0x50 fl win ck @ data) (20 + (20 + length data))) src
      (tcp_header rp lp seq ack 0x50 fl win ck @ data @ []) (20 + length data)"
proof -
  let ?seg = "tcp_header rp lp seq ack 0x50 fl win ck @ data"
  let ?pkt = "ip_header (20 + (20 + length data)) ident IP_PROTO_TCP ipck src dst @ ?seg"
  let ?s = "eth_learn_sender s smac ?pkt (20 + (20 + length data))"
  have ip: "g_local_ip ?s = dst" using assms(4) by (simp add: eth_learn_sender_def Let_def)
  have "ip_handle_packet ?s ?pkt (20 + (20 + length data)) = To_Tcp src ?seg (20 + length data)"
    using ip_receive[of "20 + (20 + length data)" ?seg "[]" ?s dst ident IP_PROTO_TCP ipck src] assms(3) ip
    by (simp add: IP_PROTO_TCP_def IP_PROTO_UDP_def)
  then show ?thesis unfolding net_input_def eth_ipv4_frame[OF assms(1,2)] Let_def by simp
qed

section \<open>The handshake, step by step\<close>

text \<open>The fields that the receive path of one segment leaves alone.\<close>

definition same_host :: "tcp \<Rightarrow> tcp \<Rightarrow> bool" where
  "same_host s s' \<longleftrightarrow> g_local_mac s' = g_local_mac s \<and> g_local_ip s' = g_local_ip s \<and> g_netmask s' = g_netmask s \<and>
     g_gateway s' = g_gateway s \<and> g_cache s' = g_cache s"

lemma arp_insert_more [simp]:
  "g_conns (arp_cache_insert s ip mac) = g_conns s" "g_listeners (arp_cache_insert s ip mac) = g_listeners s"
  "randoms (arp_cache_insert s ip mac) = randoms s"
  by (simp_all add: arp_cache_insert_def split: option.splits)

lemma upd_conn_net [simp]:
  "g_local_mac (upd_conn s i f) = g_local_mac s" "g_local_ip (upd_conn s i f) = g_local_ip s" "g_netmask (upd_conn s i f) = g_netmask s"
  "g_gateway (upd_conn s i f) = g_gateway s" "g_cache (upd_conn s i f) = g_cache s" "frames (upd_conn s i f) = frames s"
  "uptime (upd_conn s i f) = uptime s" "g_ip_id (upd_conn s i f) = g_ip_id s" "g_listeners (upd_conn s i f) = g_listeners s"
  by (simp_all add: upd_conn_def)

lemma random_net:
  assumes "random_u64 s = (r, s')"
  shows "same_host s s'" "frames s' = frames s" "g_conns s' = g_conns s" "uptime s' = uptime s" "g_listeners s' = g_listeners s"
  using assms by (auto simp: random_u64_def same_host_def split: list.splits)

lemma same_host_route: "same_host s s' \<Longrightarrow> arp_cache_lookup s' (next_hop s' ip) = arp_cache_lookup s (next_hop s ip)"
  by (simp add: same_host_def arp_cache_lookup_def next_hop_def)

text \<open>The frame of a segment without data.\<close>

definition seg_frame :: "mac \<Rightarrow> mac \<Rightarrow> u16 \<Rightarrow> nat \<Rightarrow> ip \<Rightarrow> ip \<Rightarrow> u16 \<Rightarrow> u16 \<Rightarrow> u32 \<Rightarrow> u32 \<Rightarrow> u8 \<Rightarrow> nat \<Rightarrow> nat \<Rightarrow> bytes" where
  "seg_frame dmac smac ident ipck src dst sp dp seq ack fl win ck =
     dmac @ smac @ be_bytes 2 ETHERTYPE_IPV4 @ ip_header (20 + (20 + 0)) ident IP_PROTO_TCP ipck src dst @ tcp_header sp dp seq ack 0x50 fl win ck @ []"

lemma send_frame:
  assumes "arp_cache_lookup s (next_hop s (remote_ip (g_conns s ! i))) = Some mac" "remote_ip (g_conns s ! i) \<noteq> 0xFFFFFFFF"
  shows "\<exists>ident ipck win ck s'. tcp_send_segment poll s i fl [] = Some (True, s') \<and> net.more s' = net.more s \<and> same_host s s' \<and> uptime s' = uptime s \<and>
     frames s' = frames s @ [seg_frame mac (g_local_mac s) ident ipck (g_local_ip s) (remote_ip (g_conns s ! i)) (local_port (g_conns s ! i))
       (remote_port (g_conns s ! i)) (snd_nxt (g_conns s ! i)) (if fl AND TCP_FLAG_ACK \<noteq> 0 then rcv_nxt (g_conns s ! i) else 0) fl win ck]"
proof -
  have "length ([] :: bytes) \<le> 1460" by simp
  from send_segment_hit[OF assms this, of poll fl] obtain win ck ipck where
    t: "tcp_send_segment poll s i fl [] = Some (True, s\<lparr>g_ip_id := g_ip_id s + 1, frames := frames s @
      [seg_frame mac (g_local_mac s) (g_ip_id s) ipck (g_local_ip s) (remote_ip (g_conns s ! i)) (local_port (g_conns s ! i))
       (remote_port (g_conns s ! i)) (snd_nxt (g_conns s ! i)) (if fl AND TCP_FLAG_ACK \<noteq> 0 then rcv_nxt (g_conns s ! i) else 0) fl win ck]\<rparr>)"
    unfolding Let_def seg_frame_def list.size(3) by blast
  show ?thesis
    by (rule exI[of _ "g_ip_id s"], rule exI[of _ ipck], rule exI[of _ win], rule exI[of _ ck], rule exI, rule conjI, rule t)
      (simp add: same_host_def)
qed

text \<open>A host can answer a neighbour once it has heard of it.\<close>

definition on_link :: "tcp \<Rightarrow> ip \<Rightarrow> bool" where
  "on_link s src \<longleftrightarrow> g_local_ip s \<noteq> 0 \<and> src \<noteq> 0 \<and> src \<noteq> g_local_ip s \<and> src \<noteq> 0xFFFFFFFF \<and> g_netmask s \<noteq> 0 \<and>
     (src AND g_netmask s) = (g_local_ip s AND g_netmask s)"

lemma hear:
  assumes "arp_ok s" "on_link s src" "length dmac = 6" "length smac = 6" "g_local_ip s = dst"
  shows "net_input s (seg_frame dmac smac ident ipck src dst rp lp seq ack fl win ck) (length (seg_frame dmac smac ident ipck src dst rp lp seq ack fl win ck)) =
      tcp_handle_packet (arp_cache_insert s src smac) src (tcp_header rp lp seq ack 0x50 fl win ck @ [] @ []) (20 + length ([] :: bytes))"
    and "arp_cache_lookup (arp_cache_insert s src smac) (next_hop (arp_cache_insert s src smac) src) = Some smac"
proof -
  have len: "length (seg_frame dmac smac ident ipck src dst rp lp seq ack fl win ck) = 14 + (20 + (20 + length ([] :: bytes)))"
    using assms(3,4) by (simp add: seg_frame_def)
  have d: "length ([] :: bytes) \<le> 1460" by simp
  have l: "eth_learn_sender s smac (ip_header n ident p ipck src dst @ rest) (20 + k) = arp_cache_insert s src smac" for n p rest k
    using assms(2) by (simp add: eth_learn_sender_def on_link_def ip_is_configured_def Let_def)
  show "net_input s (seg_frame dmac smac ident ipck src dst rp lp seq ack fl win ck) (length (seg_frame dmac smac ident ipck src dst rp lp seq ack fl win ck)) =
      tcp_handle_packet (arp_cache_insert s src smac) src (tcp_header rp lp seq ack 0x50 fl win ck @ [] @ []) (20 + length ([] :: bytes))"
    using net_input_tcp[OF assms(3,4) d assms(5), of ident ipck src rp lp seq ack fl win ck]
    unfolding len l unfolding seg_frame_def by (simp only: list.size append_Nil)
  have "next_hop (arp_cache_insert s src smac) src = src" using assms(2) by (simp add: next_hop_def on_link_def)
  then show "arp_cache_lookup (arp_cache_insert s src smac) (next_hop (arp_cache_insert s src smac) src) = Some smac"
    using arp.finds_new[OF assms(1)] by simp
qed

text \<open>The connection that a SYN creates.\<close>

definition syn_conn :: "nat \<Rightarrow> u32 \<Rightarrow> ip \<Rightarrow> u16 \<Rightarrow> u16 \<Rightarrow> u32 \<Rightarrow> u32 \<Rightarrow> tcp_conn" where
  "syn_conn now ticket rip rp lp x iss = zero_conn\<lparr>in_use := True, conn_state := TCP_SYN_RCVD, remote_ip := rip,
     remote_port := rp, local_port := lp, rcv_nxt := x + 1, snd_una := iss, snd_nxt := iss, last_activity_ms := now,
     accept_pending := True, accept_order := ticket\<rparr>"

lemma alloc_index: "tcp_alloc s = Some j \<Longrightarrow> j < TCP_MAX_CONNS"
  by (auto simp: tcp_alloc_def dest!: find_upt_Some)

lemma syn_received:
  assumes l: "tcp_find_listener s lp = Some l" "pending_count s lp < li_backlog (g_listeners s ! l)"
    and j: "tcp_alloc s = Some j" "length (g_conns s) = TCP_MAX_CONNS"
    and hit: "arp_cache_lookup s (next_hop s rip) = Some mac" "rip \<noteq> 0xFFFFFFFF"
  shows "\<exists>iss t ident ipck win ck s'. tcp_passive_open s rip rp lp x = Some s' \<and> same_host s s' \<and>
    g_conns s' = (g_conns s)[j := (syn_conn (uptime s) t rip rp lp x iss)\<lparr>snd_nxt := iss + 1\<rparr>] \<and>
    frames s' = frames s @ [seg_frame mac (g_local_mac s) ident ipck (g_local_ip s) rip lp rp iss (x + 1) (TCP_FLAG_SYN OR TCP_FLAG_ACK) win ck]"
proof -
  obtain r s1 where r: "random_u64 s = (r, s1)" by (cases "random_u64 s")
  note rn = random_net[OF r]
  let ?iss = "ucast r :: u32" and ?t = "g_accept_seq s1 + 1"
  let ?s2 = "s1\<lparr>g_accept_seq := ?t\<rparr>"
  define s3 where "s3 = upd_conn ?s2 j (\<lambda>c. syn_conn (uptime s) ?t rip rp lp x ?iss)"
  have jl: "j < length (g_conns s)" using alloc_index[OF j(1)] j(2) by simp
  have c3: "g_conns s3 = (g_conns s)[j := syn_conn (uptime s) ?t rip rp lp x ?iss]" using rn(3) by (simp add: s3_def)
  have cj: "g_conns s3 ! j = syn_conn (uptime s) ?t rip rp lp x ?iss" using c3 jl by simp
  have h3: "same_host s s3" "frames s3 = frames s" using rn by (simp_all add: s3_def same_host_def)
  have ipc: "remote_ip (g_conns s3 ! j) = rip" by (simp add: cj syn_conn_def)
  have "arp_cache_lookup s3 (next_hop s3 (remote_ip (g_conns s3 ! j))) = Some mac" "remote_ip (g_conns s3 ! j) \<noteq> 0xFFFFFFFF"
    using hit same_host_route[OF h3(1)] by (simp_all add: ipc)
  from send_frame[OF this, of busy_poll "TCP_FLAG_SYN OR TCP_FLAG_ACK"] obtain ident ipck win ck s4 where
    t: "tcp_send_segment busy_poll s3 j (TCP_FLAG_SYN OR TCP_FLAG_ACK) [] = Some (True, s4)" "net.more s4 = net.more s3" "same_host s3 s4"
      "frames s4 = frames s3 @ [seg_frame mac (g_local_mac s3) ident ipck (g_local_ip s3) rip lp rp ?iss (x + 1) (TCP_FLAG_SYN OR TCP_FLAG_ACK) win ck]"
    unfolding cj by (auto simp: syn_conn_def TCP_FLAG_ACK_def TCP_FLAG_SYN_def)
  let ?s5 = "upd_conn s4 j (\<lambda>c. c\<lparr>snd_nxt := ?iss + 1\<rparr>)"
  have "tcp_passive_open s rip rp lp x = Some ?s5"
    using l j(1) rn(4) t(1) by (simp add: tcp_passive_open_def r Let_def s3_def syn_conn_def)
  moreover have "g_conns ?s5 = (g_conns s)[j := (syn_conn (uptime s) ?t rip rp lp x ?iss)\<lparr>snd_nxt := ?iss + 1\<rparr>]"
    using more_conns[OF t(2)] c3 jl by simp
  moreover have "same_host s ?s5" using h3(1) t(3) by (simp add: same_host_def)
  moreover have "frames ?s5 = frames s @ [seg_frame mac (g_local_mac s) ident ipck (g_local_ip s) rip lp rp ?iss (x + 1) (TCP_FLAG_SYN OR TCP_FLAG_ACK) win ck]"
    using t(4) h3 by (simp add: same_host_def)
  ultimately show ?thesis by blast
qed

lemma syn_ack_received:
  assumes c: "conn_state (g_conns s ! i) = TCP_SYN_SENT" and i: "i < length (g_conns s)"
    and hit: "arp_cache_lookup s (next_hop s (remote_ip (g_conns s ! i))) = Some mac" "remote_ip (g_conns s ! i) \<noteq> 0xFFFFFFFF"
  shows "\<exists>ident ipck win ck s'. input_conn s i seq ack (TCP_FLAG_SYN OR TCP_FLAG_ACK) [] = Some s' \<and>
    g_conns s' ! i = (g_conns s ! i)\<lparr>last_activity_ms := uptime s, rcv_nxt := seq + 1, snd_una := ack,
      snd_nxt := (if snd_nxt (g_conns s ! i) < ack then ack else snd_nxt (g_conns s ! i)), conn_state := TCP_ESTABLISHED\<rparr> \<and>
    frames s' = frames s @ [seg_frame mac (g_local_mac s) ident ipck (g_local_ip s) (remote_ip (g_conns s ! i)) (local_port (g_conns s ! i))
      (remote_port (g_conns s ! i)) (snd_nxt (g_conns s' ! i)) (seq + 1) TCP_FLAG_ACK win ck]"
proof -
  let ?c' = "(g_conns s ! i)\<lparr>last_activity_ms := uptime s, rcv_nxt := seq + 1, snd_una := ack,
      snd_nxt := (if snd_nxt (g_conns s ! i) < ack then ack else snd_nxt (g_conns s ! i)), conn_state := TCP_ESTABLISHED\<rparr>"
  define s1 where "s1 = upd_conn (upd_conn s i (\<lambda>c. c\<lparr>last_activity_ms := uptime s\<rparr>)) i (\<lambda>c. c\<lparr>rcv_nxt := seq + 1, snd_una := ack,
             snd_nxt := (if snd_nxt c < ack then ack else snd_nxt c), conn_state := TCP_ESTABLISHED\<rparr>)"
  have ci: "g_conns s1 ! i = ?c'" using i by (simp add: s1_def)
  have h: "same_host s s1" "frames s1 = frames s" by (simp_all add: s1_def same_host_def)
  have "arp_cache_lookup s1 (next_hop s1 (remote_ip (g_conns s1 ! i))) = Some mac" "remote_ip (g_conns s1 ! i) \<noteq> 0xFFFFFFFF"
    using hit same_host_route[OF h(1)] by (simp_all add: ci)
  from send_frame[OF this, of busy_poll TCP_FLAG_ACK] obtain ident ipck win ck s2 where
    t: "tcp_send_segment busy_poll s1 i TCP_FLAG_ACK [] = Some (True, s2)" "net.more s2 = net.more s1"
      "frames s2 = frames s1 @ [seg_frame mac (g_local_mac s1) ident ipck (g_local_ip s1) (remote_ip (g_conns s ! i)) (local_port (g_conns s ! i))
        (remote_port (g_conns s ! i)) (snd_nxt ?c') (seq + 1) TCP_FLAG_ACK win ck]"
    unfolding ci by (auto simp: TCP_FLAG_ACK_def)
  have fl: "\<not> has (TCP_FLAG_SYN OR TCP_FLAG_ACK) TCP_FLAG_RST" "has (TCP_FLAG_SYN OR TCP_FLAG_ACK) TCP_FLAG_SYN" "has (TCP_FLAG_SYN OR TCP_FLAG_ACK) TCP_FLAG_ACK"
    by (simp_all add: has_def TCP_FLAG_ACK_def TCP_FLAG_SYN_def TCP_FLAG_RST_def)
  have "input_conn s i seq ack (TCP_FLAG_SYN OR TCP_FLAG_ACK) [] = send_ack s1 i"
    using c i fl by (simp add: input_conn_def input_segment_def Let_def s1_def)
  then have "input_conn s i seq ack (TCP_FLAG_SYN OR TCP_FLAG_ACK) [] = Some s2" using t(1) by (simp add: send_ack_def)
  moreover have "g_conns s2 ! i = ?c'" using more_conns[OF t(2)] ci by simp
  ultimately show ?thesis using t(3) h by (auto simp: same_host_def)
qed

lemma ack_received:
  assumes c: "conn_state (g_conns s ! j) = TCP_SYN_RCVD" "ack = snd_nxt (g_conns s ! j)" and j: "j < length (g_conns s)"
  shows "\<exists>s'. input_conn s j seq ack TCP_FLAG_ACK [] = Some s' \<and>
    g_conns s' ! j = (g_conns s ! j)\<lparr>last_activity_ms := uptime s, snd_una := ack, conn_state := TCP_ESTABLISHED\<rparr>"
proof -
  have fl: "\<not> has TCP_FLAG_ACK TCP_FLAG_RST" "\<not> has TCP_FLAG_ACK TCP_FLAG_SYN" "\<not> has TCP_FLAG_ACK TCP_FLAG_FIN" "has TCP_FLAG_ACK TCP_FLAG_ACK"
    by (simp_all add: has_def TCP_FLAG_ACK_def TCP_FLAG_SYN_def TCP_FLAG_RST_def TCP_FLAG_FIN_def)
  show ?thesis using c j fl by (simp add: input_conn_def input_segment_def input_data_def input_fin_def Let_def)
qed

text \<open>The second host's side: what a SYN leads to, and what the final acknowledgement does.\<close>

definition answered :: "tcp \<Rightarrow> tcp \<Rightarrow> ip \<Rightarrow> u16 \<Rightarrow> u16 \<Rightarrow> u32 \<Rightarrow> u32 \<Rightarrow> nat \<Rightarrow> bool" where
  "answered b b1 rip rp lp x iss j \<longleftrightarrow> arp_ok b1 \<and> on_link b1 rip \<and> g_local_ip b1 = g_local_ip b \<and>
     (\<exists>now t. g_conns b1 = (g_conns b)[j := (syn_conn now t rip rp lp x iss)\<lparr>snd_nxt := iss + 1\<rparr>])"

lemma listener_answers:
  assumes b: "arp_ok b" "length (g_local_mac b) = 6" "on_link b rip" "length (g_conns b) = TCP_MAX_CONNS"
    and lb: "tcp_find_listener b lp = Some l" "pending_count b lp < li_backlog (g_listeners b ! l)" "tcp_alloc b = Some j"
      "tcp_find b rip rp lp = None"
    and mac: "length dmac = 6" "length smac = 6"
  shows "\<exists>iss b1 ident ipck win ck.
    net_input b (seg_frame dmac smac id1 k1 rip (g_local_ip b) rp lp x ack TCP_FLAG_SYN w1 c1)
      (length (seg_frame dmac smac id1 k1 rip (g_local_ip b) rp lp x ack TCP_FLAG_SYN w1 c1)) = Some b1 \<and>
    answered b b1 rip rp lp x iss j \<and>
    frames b1 = frames b @ [seg_frame smac (g_local_mac b) ident ipck (g_local_ip b) rip lp rp iss (x + 1) (TCP_FLAG_SYN OR TCP_FLAG_ACK) win ck]"
proof -
  let ?b0 = "arp_cache_insert b rip smac"
  note hb = hear[OF b(1,3) mac refl]
  have ne: "rip \<noteq> 0xFFFFFFFF" using b(3) by (simp add: on_link_def)
  have lis: "tcp_find_listener ?b0 lp = Some l" "pending_count ?b0 lp < li_backlog (g_listeners ?b0 ! l)" "tcp_alloc ?b0 = Some j"
    "length (g_conns ?b0) = TCP_MAX_CONNS" "tcp_find ?b0 rip rp lp = None"
    using lb b(4) by (simp_all add: tcp_find_listener_def pending_count_def tcp_alloc_def tcp_find_def)
  from syn_received[OF lis(1-4) hb(2) ne, of rp x] obtain iss t id2 k2 w2 c2 b1 where
    s2: "tcp_passive_open ?b0 rip rp lp x = Some b1" "same_host ?b0 b1"
      "g_conns b1 = (g_conns b)[j := (syn_conn (uptime ?b0) t rip rp lp x iss)\<lparr>snd_nxt := iss + 1\<rparr>]"
      "frames b1 = frames b @ [seg_frame smac (g_local_mac b) id2 k2 (g_local_ip b) rip lp rp iss (x + 1) (TCP_FLAG_SYN OR TCP_FLAG_ACK) w2 c2]"
    by auto
  have "has TCP_FLAG_SYN TCP_FLAG_SYN" "\<not> has TCP_FLAG_SYN TCP_FLAG_ACK" by (simp_all add: has_def TCP_FLAG_ACK_def TCP_FLAG_SYN_def)
  then have "net_input b (seg_frame dmac smac id1 k1 rip (g_local_ip b) rp lp x ack TCP_FLAG_SYN w1 c1)
      (length (seg_frame dmac smac id1 k1 rip (g_local_ip b) rp lp x ack TCP_FLAG_SYN w1 c1)) = Some b1"
    using s2(1) lis(1,5) by (simp only: hb(1) handle_header option.case) (simp add: tcp_is_listening_def)
  moreover have "answered b b1 rip rp lp x iss j"
    using arp.keeps_ok[OF b(1), of rip smac] b(3) s2(2,3) unfolding answered_def same_host_def arp_ok_def on_link_def by auto
  ultimately show ?thesis using s2(4) by blast
qed

lemma listener_completes:
  assumes b: "arp_ok b" "length (g_local_mac b) = 6" "on_link b rip" "length (g_conns b) = TCP_MAX_CONNS"
    and lb: "tcp_find_listener b lp = Some l" "pending_count b lp < li_backlog (g_listeners b ! l)" "tcp_alloc b = Some j"
      "tcp_find b rip rp lp = None"
    and an: "answered b b1 rip rp lp x iss j" and mac: "length smac = 6"
  shows "\<exists>b2. net_input b1 (seg_frame (g_local_mac b) smac id3 k3 rip (g_local_ip b) rp lp seq (iss + 1) TCP_FLAG_ACK w3 c3)
      (length (seg_frame (g_local_mac b) smac id3 k3 rip (g_local_ip b) rp lp seq (iss + 1) TCP_FLAG_ACK w3 c3)) = Some b2 \<and>
    conn_state (g_conns b2 ! j) = TCP_ESTABLISHED \<and> snd_nxt (g_conns b2 ! j) = iss + 1 \<and> rcv_nxt (g_conns b2 ! j) = x + 1"
proof -
  obtain now t where ok: "arp_ok b1" "on_link b1 rip" "g_local_ip b1 = g_local_ip b"
      "g_conns b1 = (g_conns b)[j := (syn_conn now t rip rp lp x iss)\<lparr>snd_nxt := iss + 1\<rparr>]"
    using an unfolding answered_def by blast
  let ?b2 = "arp_cache_insert b1 rip smac"
  note hb = hear[OF ok(1,2) b(2) mac ok(3)]
  have jl: "j < length (g_conns b)" using alloc_index[OF lb(3)] b(4) by simp
  have q: "conn_state (g_conns ?b2 ! j) = TCP_SYN_RCVD" "iss + 1 = snd_nxt (g_conns ?b2 ! j)" "j < length (g_conns ?b2)" "rcv_nxt (g_conns ?b2 ! j) = x + 1"
    using ok(4) jl by (simp_all add: syn_conn_def)
  from ack_received[OF q(1-3), of seq] obtain b2 where
    s4: "input_conn ?b2 j seq (iss + 1) TCP_FLAG_ACK [] = Some b2"
      "g_conns b2 ! j = (g_conns ?b2 ! j)\<lparr>last_activity_ms := uptime ?b2, snd_una := iss + 1, conn_state := TCP_ESTABLISHED\<rparr>" by blast
  have "tcp_find ?b2 rip rp lp = Some j"
    using lb(4) jl b(4) unfolding tcp_find_def ok(4) arp_insert_more Let_def
    by (intro find_upt_unique) (auto simp: find_upt_None syn_conn_def nth_list_update split: if_splits)
  then have "net_input b1 (seg_frame (g_local_mac b) smac id3 k3 rip (g_local_ip b) rp lp seq (iss + 1) TCP_FLAG_ACK w3 c3)
      (length (seg_frame (g_local_mac b) smac id3 k3 rip (g_local_ip b) rp lp seq (iss + 1) TCP_FLAG_ACK w3 c3)) = Some b2"
    using s4(1) by (simp only: hb(1) handle_header option.case)
  then show ?thesis using s4(2) q by simp
qed

lemma client_acks:
  assumes a: "arp_ok a" "on_link a sip" "tcp_find a sip lp ap = Some i" "conn_state (g_conns a ! i) = TCP_SYN_SENT"
      "length (g_conns a) = TCP_MAX_CONNS"
    and mac: "length (g_local_mac a) = 6" "length smac = 6"
  shows "\<exists>a2 ident ipck win ck.
    net_input a (seg_frame (g_local_mac a) smac id2 k2 sip (g_local_ip a) lp ap iss y (TCP_FLAG_SYN OR TCP_FLAG_ACK) w2 c2)
      (length (seg_frame (g_local_mac a) smac id2 k2 sip (g_local_ip a) lp ap iss y (TCP_FLAG_SYN OR TCP_FLAG_ACK) w2 c2)) = Some a2 \<and>
    conn_state (g_conns a2 ! i) = TCP_ESTABLISHED \<and> rcv_nxt (g_conns a2 ! i) = iss + 1 \<and>
    snd_nxt (g_conns a2 ! i) = (if snd_nxt (g_conns a ! i) < y then y else snd_nxt (g_conns a ! i)) \<and>
    frames a2 = frames a @ [seg_frame smac (g_local_mac a) ident ipck (g_local_ip a) sip ap lp (snd_nxt (g_conns a2 ! i)) (iss + 1) TCP_FLAG_ACK win ck]"
proof -
  have i: "i < length (g_conns a)" and ci: "remote_ip (g_conns a ! i) = sip" "remote_port (g_conns a ! i) = lp" "local_port (g_conns a ! i) = ap"
    using a(3,5) by (auto simp: tcp_find_def Let_def dest!: find_upt_Some)
  have ne: "sip \<noteq> 0xFFFFFFFF" using a(2) by (simp add: on_link_def)
  let ?a0 = "arp_cache_insert a sip smac"
  note ha = hear[OF a(1,2) mac refl]
  have p: "conn_state (g_conns ?a0 ! i) = TCP_SYN_SENT" "i < length (g_conns ?a0)" "remote_ip (g_conns ?a0 ! i) = sip"
    using a(4) i ci by simp_all
  have e0: "g_conns ?a0 ! i = g_conns a ! i" "g_local_mac ?a0 = g_local_mac a" "g_local_ip ?a0 = g_local_ip a" "frames ?a0 = frames a"
    by simp_all
  from syn_ack_received[OF p(1,2), unfolded p(3), OF ha(2) ne, of iss y, unfolded e0 ci] obtain id3 k3 w3 c3 a2 where
    s3: "input_conn ?a0 i iss y (TCP_FLAG_SYN OR TCP_FLAG_ACK) [] = Some a2"
      "g_conns a2 ! i = (g_conns a ! i)\<lparr>last_activity_ms := uptime ?a0, rcv_nxt := iss + 1, snd_una := y,
         snd_nxt := (if snd_nxt (g_conns a ! i) < y then y else snd_nxt (g_conns a ! i)), conn_state := TCP_ESTABLISHED\<rparr>"
      "frames a2 = frames a @ [seg_frame smac (g_local_mac a) id3 k3 (g_local_ip a) sip ap lp (snd_nxt (g_conns a2 ! i)) (iss + 1) TCP_FLAG_ACK w3 c3]"
    by blast
  have "tcp_find ?a0 sip lp ap = Some i" using a(3) by (simp add: tcp_find_def)
  then have "net_input a (seg_frame (g_local_mac a) smac id2 k2 sip (g_local_ip a) lp ap iss y (TCP_FLAG_SYN OR TCP_FLAG_ACK) w2 c2)
      (length (seg_frame (g_local_mac a) smac id2 k2 sip (g_local_ip a) lp ap iss y (TCP_FLAG_SYN OR TCP_FLAG_ACK) w2 c2)) = Some a2"
    using s3(1) by (simp only: ha(1) handle_header option.case)
  moreover have "conn_state (g_conns a2 ! i) = TCP_ESTABLISHED" "rcv_nxt (g_conns a2 ! i) = iss + 1"
    "snd_nxt (g_conns a2 ! i) = (if snd_nxt (g_conns a ! i) < y then y else snd_nxt (g_conns a ! i))" by (simp_all add: s3(2))
  ultimately show ?thesis using s3(3) by blast
qed

section \<open>Accepting\<close>

text \<open>
  Tickets are handed out in order and compared by signed difference; \<open>age\<close> is the distance of a ticket
  from an older one, \<open>base\<close>.
\<close>

definition age :: "u32 \<Rightarrow> tcp_conn \<Rightarrow> nat" where
  "age base c = unat (accept_order c - base)"

lemma ticket_order:
  assumes "age base c < 2 ^ 31" "age base d < 2 ^ 31"
  shows "sint (accept_order c - accept_order d) < 0 \<longleftrightarrow> age base c < age base d"
proof -
  have o: "accept_order e = base + of_nat (age base e)" for e by (simp add: age_def)
  show ?thesis unfolding o[of c] o[of d] seq_diff[OF assms] by simp
qed

lemma accept_scan_oldest:
  assumes "\<And>i. i \<in> set is \<union> set_option best \<Longrightarrow> accept_ready port (cs ! i) \<Longrightarrow> age base (cs ! i) < 2 ^ 31"
    and "\<And>b. best = Some b \<Longrightarrow> accept_ready port (cs ! b)"
  shows "case accept_scan cs port best is of
      None \<Rightarrow> best = None \<and> (\<forall>i \<in> set is. \<not> accept_ready port (cs ! i))
    | Some b \<Rightarrow> accept_ready port (cs ! b) \<and> b \<in> set is \<union> set_option best \<and>
        (\<forall>i \<in> set is \<union> set_option best. accept_ready port (cs ! i) \<longrightarrow> age base (cs ! b) \<le> age base (cs ! i))"
  using assms
proof (induction "is" arbitrary: best)
  case (Cons i "is")
  show ?case
  proof (cases "accept_ready port (cs ! i)")
    case False
    have "accept_scan cs port best (i # is) = accept_scan cs port best is" using False by simp
    then show ?thesis using Cons.IH[of best] Cons.prems False by (auto split: option.splits)
  next
    case True
    define newer where "newer = (case best of None \<Rightarrow> True | Some b \<Rightarrow> sint (accept_order (cs ! i) - accept_order (cs ! b)) < 0)"
    have e: "accept_scan cs port best (i # is) = accept_scan cs port (if newer then Some i else best) is"
      using True by (simp add: newer_def)
    show ?thesis
    proof (cases best)
      case None
      then show ?thesis using e Cons.IH[of "Some i"] Cons.prems True by (auto simp: newer_def split: option.splits)
    next
      case (Some b)
      then have rb: "accept_ready port (cs ! b)" using Cons.prems(2) by simp
      have "newer \<longleftrightarrow> age base (cs ! i) < age base (cs ! b)"
        using ticket_order[of base "cs ! i" "cs ! b"] Cons.prems(1)[of i] Cons.prems(1)[of b] True rb Some by (simp add: newer_def)
      then obtain m where m: "(if newer then Some i else best) = Some m" "m = i \<or> m = b" "accept_ready port (cs ! m)"
          "age base (cs ! m) \<le> age base (cs ! i)" "age base (cs ! m) \<le> age base (cs ! b)"
        using True rb Some by (cases newer) auto
      have bound: "\<And>k. k \<in> set is \<union> set_option (Some m) \<Longrightarrow> accept_ready port (cs ! k) \<Longrightarrow> age base (cs ! k) < 2 ^ 31"
        using Cons.prems(1) m(2) Some by auto
      have "case accept_scan cs port (Some m) is of None \<Rightarrow> False
          | Some r \<Rightarrow> accept_ready port (cs ! r) \<and> r \<in> set is \<union> {m} \<and> (\<forall>k \<in> set is \<union> {m}. accept_ready port (cs ! k) \<longrightarrow> age base (cs ! r) \<le> age base (cs ! k))"
        using Cons.IH[of "Some m", OF bound] m(3) by (simp split: option.splits)
      then obtain r where r: "accept_scan cs port (Some m) is = Some r" "accept_ready port (cs ! r)" "r \<in> set is \<union> {m}"
          "\<And>k. k \<in> set is \<union> {m} \<Longrightarrow> accept_ready port (cs ! k) \<Longrightarrow> age base (cs ! r) \<le> age base (cs ! k)"
        by (auto split: option.splits)
      have "age base (cs ! r) \<le> age base (cs ! i)" "age base (cs ! r) \<le> age base (cs ! b)" using r(4)[of m] m by auto
      then show ?thesis unfolding e m(1) r(1) option.case using r(2,3) r(4) m(2) Some by auto
    qed
  qed
qed (auto split: option.splits)

lemma next_greater: "x < x + 1 \<longleftrightarrow> x \<noteq> (0xFFFFFFFF :: u32)"
proof (cases "x = 0xFFFFFFFF")
  case False
  have "unat x \<noteq> unat (0xFFFFFFFF :: u32)" using False by (simp only: unsigned_word_eqI word_unat_eq_iff) simp
  moreover have "unat x < 2 ^ 32" using unsigned_less[of x, where 'a = nat] by simp
  ultimately have "unat x + 1 < 2 ^ 32" by simp
  then show ?thesis using False by (simp add: word_less_nat_alt unat_word_ariths)
qed simp

section \<open>Properties\<close>

text \<open>
  C7. The three-way handshake works over the wire. Two hosts on one network, the first with a connection
  in \<^verbatim>\<open>TCP_SYN_SENT\<close> and the second listening with room in its backlog: the SYN that the first sends, the
  answer of the second and the acknowledgement of the first, each handled as a received frame through
  Ethernet, IP and TCP, establish the connection on both sides. What the first host expects next is what
  the second sends next; the converse holds exactly when the first initial sequence number is not
  \<^verbatim>\<open>0xFFFFFFFF\<close>, because \<^verbatim>\<open>snd_nxt < ack\<close> is compared without regard to wrap-around.
\<close>

theorem tcp_handshake_establishes:
  assumes a: "arp_ok a" "length (g_local_mac a) = 6" "on_link a (g_local_ip b)" "arp_cache_lookup a (g_local_ip b) = Some bmac" "length bmac = 6"
    and ca: "length (g_conns a) = TCP_MAX_CONNS" "tcp_find a (g_local_ip b) lp ap = Some i" "conn_state (g_conns a ! i) = TCP_SYN_SENT"
    and b: "arp_ok b" "length (g_local_mac b) = 6" "on_link b (g_local_ip a)" "length (g_conns b) = TCP_MAX_CONNS"
    and lb: "tcp_find_listener b lp = Some l" "pending_count b lp < li_backlog (g_listeners b ! l)" "tcp_alloc b = Some j"
      "tcp_find b (g_local_ip a) ap lp = None"
  shows "\<exists>a1 f1 b1 f2 a2 f3 b2.
    tcp_send_segment poll a i TCP_FLAG_SYN [] = Some (True, a1) \<and> frames a1 = frames a @ [f1] \<and>
    net_input b f1 (length f1) = Some b1 \<and> frames b1 = frames b @ [f2] \<and>
    net_input a1 f2 (length f2) = Some a2 \<and> frames a2 = frames a1 @ [f3] \<and>
    net_input b1 f3 (length f3) = Some b2 \<and>
    conn_state (g_conns a2 ! i) = TCP_ESTABLISHED \<and> conn_state (g_conns b2 ! j) = TCP_ESTABLISHED \<and>
    rcv_nxt (g_conns a2 ! i) = snd_nxt (g_conns b2 ! j) \<and>
    (snd_nxt (g_conns a2 ! i) = rcv_nxt (g_conns b2 ! j) \<longleftrightarrow> snd_nxt (g_conns a ! i) \<noteq> 0xFFFFFFFF)"
proof -
  let ?A = "g_local_ip a" and ?B = "g_local_ip b" and ?x = "snd_nxt (g_conns a ! i)"
  have i: "i < length (g_conns a)" and ci: "remote_ip (g_conns a ! i) = ?B" "remote_port (g_conns a ! i) = lp" "local_port (g_conns a ! i) = ap"
    using ca(1,2) by (auto simp: tcp_find_def Let_def dest!: find_upt_Some)
  have ne: "?B \<noteq> 0xFFFFFFFF" and nh: "next_hop a ?B = ?B" using a(3) by (auto simp: on_link_def next_hop_def)
  have "arp_cache_lookup a (next_hop a (remote_ip (g_conns a ! i))) = Some bmac" "remote_ip (g_conns a ! i) \<noteq> 0xFFFFFFFF"
    using a(4) ne nh ci by simp_all
  from send_frame[OF this, of poll TCP_FLAG_SYN] obtain id1 k1 w1 c1 a1 where
    s1: "tcp_send_segment poll a i TCP_FLAG_SYN [] = Some (True, a1)" "net.more a1 = net.more a" "same_host a a1"
      "frames a1 = frames a @ [seg_frame bmac (g_local_mac a) id1 k1 ?A ?B ap lp ?x 0 TCP_FLAG_SYN w1 c1]" (is "_ = _ @ [?f1]")
    unfolding ci by (auto simp: TCP_FLAG_ACK_def TCP_FLAG_SYN_def)
  obtain iss b1 f2 id2 k2 w2 c2 where s2: "net_input b ?f1 (length ?f1) = Some b1" "frames b1 = frames b @ [f2]" "answered b b1 ?A ap lp ?x iss j"
      "f2 = seg_frame (g_local_mac a) (g_local_mac b) id2 k2 ?B ?A lp ap iss (?x + 1) (TCP_FLAG_SYN OR TCP_FLAG_ACK) w2 c2"
    using listener_answers[OF b lb a(5,2), of id1 k1 ?x 0 w1 c1] by blast
  have cs1: "g_conns a1 = g_conns a" by (rule more_conns[OF s1(2)])
  have a1: "arp_ok a1" "on_link a1 ?B" "g_local_mac a1 = g_local_mac a" "g_local_ip a1 = ?A" "tcp_find a1 ?B lp ap = Some i"
      "conn_state (g_conns a1 ! i) = TCP_SYN_SENT" "length (g_conns a1) = TCP_MAX_CONNS"
    using a(1,3) s1(3) ca cs1 by (simp_all add: same_host_def arp_ok_def on_link_def tcp_find_def)
  obtain a2 f3 id3 k3 w3 c3 where s3: "net_input a1 f2 (length f2) = Some a2" "frames a2 = frames a1 @ [f3]"
      "conn_state (g_conns a2 ! i) = TCP_ESTABLISHED" "rcv_nxt (g_conns a2 ! i) = iss + 1"
      "snd_nxt (g_conns a2 ! i) = (if ?x < ?x + 1 then ?x + 1 else ?x)"
      "f3 = seg_frame (g_local_mac b) (g_local_mac a) id3 k3 ?A ?B ap lp (snd_nxt (g_conns a2 ! i)) (iss + 1) TCP_FLAG_ACK w3 c3"
    using client_acks[OF a1(1,2,5-7) _ b(2), of id2 k2 iss "?x + 1" w2 c2] a(2) unfolding a1(3,4) s2(4) cs1 by blast
  obtain b2 where s4: "net_input b1 f3 (length f3) = Some b2" "conn_state (g_conns b2 ! j) = TCP_ESTABLISHED"
      "snd_nxt (g_conns b2 ! j) = iss + 1" "rcv_nxt (g_conns b2 ! j) = ?x + 1"
    using listener_completes[OF b lb s2(3) a(2), of id3 k3 "snd_nxt (g_conns a2 ! i)" w3 c3] unfolding s3(6) by blast
  show ?thesis
    by (rule exI[of _ a1], rule exI[of _ ?f1], rule exI[of _ b1], rule exI[of _ f2], rule exI[of _ a2], rule exI[of _ f3], rule exI[of _ b2])
      (use s1(1,4) s2(1,2) s3(1-5) s4 next_greater[of ?x] in \<open>simp\<close>)
qed

definition hs_client :: tcp where
  "hs_client = upd_conn (arp_cache_insert (arp_init tcp_demo) 0x0A000002 [2, 0, 0, 0, 0, 2]) 0
     (\<lambda>c. c\<lparr>in_use := True, conn_state := TCP_SYN_SENT, remote_ip := 0x0A000002, remote_port := 80, local_port := 49152, snd_nxt := 7001, snd_una := 7001\<rparr>)"

definition hs_server :: tcp where
  "hs_server = snd (tcp_listen (ip_configure (arp_init tcp_demo) 0x0A000002 0xFFFFFF00 0) 80 2)"

lemma tcp_demo_fields:
  "g_conns tcp_demo = replicate 8 zero_conn" "g_listeners tcp_demo = replicate 2 \<lparr>li_used = False, li_port = 0, li_backlog = 0\<rparr>"
  "g_local_ip tcp_demo = 0x0A000001" "g_netmask tcp_demo = 0xFFFFFF00" "g_local_mac tcp_demo = [2, 0, 0, 0, 0, 1]"
  by (simp_all add: tcp_demo_def tcp_init_def TCP_MAX_CONNS_def TCP_MAX_LISTENERS_def)

lemma arp_init_fields [simp]:
  "g_conns (arp_init s) = g_conns s" "g_listeners (arp_init s) = g_listeners s" "g_local_ip (arp_init s) = g_local_ip s"
  "g_netmask (arp_init s) = g_netmask s" "g_local_mac (arp_init s) = g_local_mac s"
  by (simp_all add: arp_init_def)

lemma hs_client_facts:
  "arp_ok hs_client" "arp_cache_lookup hs_client 0x0A000002 = Some [2, 0, 0, 0, 0, 2]" "length (g_conns hs_client) = TCP_MAX_CONNS"
  "tcp_find hs_client 0x0A000002 80 49152 = Some 0" "conn_state (g_conns hs_client ! 0) = TCP_SYN_SENT"
  "g_local_ip hs_client = 0x0A000001" "g_netmask hs_client = 0xFFFFFF00" "g_local_mac hs_client = [2, 0, 0, 0, 0, 1]"
proof -
  note ins = arp_insert[OF arp_init_ok(1)[of tcp_demo], of "0x0A000002" "[2, 0, 0, 0, 0, 2]"]
  have u: "arp_ok (upd_conn s i f) = arp_ok s" "arp_cache_lookup (upd_conn s i f) = arp_cache_lookup s" for s i f
    by (simp_all add: arp_ok_def arp_cache_lookup_def fun_eq_iff)
  show "arp_ok hs_client" "arp_cache_lookup hs_client 0x0A000002 = Some [2, 0, 0, 0, 0, 2]" unfolding hs_client_def u using ins by simp_all
qed (simp_all add: hs_client_def tcp_demo_fields TCP_MAX_CONNS_def tcp_find_def upt_conv_Cons)

lemma hs_server_facts:
  "arp_ok hs_server" "length (g_conns hs_server) = TCP_MAX_CONNS" "tcp_find_listener hs_server 80 = Some 0"
  "pending_count hs_server 80 < li_backlog (g_listeners hs_server ! 0)" "tcp_alloc hs_server = Some 0"
  "tcp_find hs_server 0x0A000001 49152 80 = None"
  "g_local_ip hs_server = 0x0A000002" "g_netmask hs_server = 0xFFFFFF00" "g_local_mac hs_server = [2, 0, 0, 0, 0, 1]"
proof -
  let ?s = "ip_configure (arp_init tcp_demo) 0x0A000002 0xFFFFFF00 0"
  have two: "replicate 2 x = [x, x]" for x :: tcp_listener by (simp add: numeral_2_eq_2)
  have ls: "g_listeners ?s = [\<lparr>li_used = False, li_port = 0, li_backlog = 0\<rparr>, \<lparr>li_used = False, li_port = 0, li_backlog = 0\<rparr>]"
    by (simp add: ip_configure_def tcp_demo_fields two)
  have e: "hs_server = ?s\<lparr>g_listeners := (g_listeners ?s)[0 := \<lparr>li_used = True, li_port = 80, li_backlog = 2\<rparr>]\<rparr>"
    unfolding hs_server_def tcp_listen_def tcp_find_listener_def ls
    by (simp add: TCP_MAX_LISTENERS_def TCP_MAX_BACKLOG_def upt_conv_Cons Let_def)
  have c: "g_conns hs_server = replicate 8 zero_conn" by (simp add: e ip_configure_def tcp_demo_fields)
  have l: "g_listeners hs_server = [\<lparr>li_used = True, li_port = 80, li_backlog = 2\<rparr>, \<lparr>li_used = False, li_port = 0, li_backlog = 0\<rparr>]"
    unfolding e by (simp add: ls)
  show "arp_ok hs_server" using arp_init_ok(1)[of tcp_demo] by (simp add: e arp_ok_def ip_configure_def)
  show "length (g_conns hs_server) = TCP_MAX_CONNS" by (simp add: c TCP_MAX_CONNS_def)
  show "tcp_find_listener hs_server 80 = Some 0" by (simp add: tcp_find_listener_def l TCP_MAX_LISTENERS_def upt_conv_Cons)
  show "pending_count hs_server 80 < li_backlog (g_listeners hs_server ! 0)" by (simp add: pending_count_def c l zero_conn_def)
  show "tcp_alloc hs_server = Some 0" by (simp add: tcp_alloc_def c TCP_MAX_CONNS_def upt_conv_Cons zero_conn_def)
  show "tcp_find hs_server 0x0A000001 49152 80 = None" by (simp add: tcp_find_def c TCP_MAX_CONNS_def find_upt_None zero_conn_def)
  show "g_local_ip hs_server = 0x0A000002" "g_netmask hs_server = 0xFFFFFF00" "g_local_mac hs_server = [2, 0, 0, 0, 0, 1]"
    by (simp_all add: e ip_configure_def tcp_demo_fields)
qed

theorem tcp_handshake_establishes_witness:
  "\<exists>a1 f1 b1 f2 a2 f3 b2.
    tcp_send_segment (\<lambda>s. s) hs_client 0 TCP_FLAG_SYN [] = Some (True, a1) \<and> frames a1 = frames hs_client @ [f1] \<and>
    net_input hs_server f1 (length f1) = Some b1 \<and> frames b1 = frames hs_server @ [f2] \<and>
    net_input a1 f2 (length f2) = Some a2 \<and> frames a2 = frames a1 @ [f3] \<and>
    net_input b1 f3 (length f3) = Some b2 \<and>
    conn_state (g_conns a2 ! 0) = TCP_ESTABLISHED \<and> conn_state (g_conns b2 ! 0) = TCP_ESTABLISHED \<and>
    rcv_nxt (g_conns a2 ! 0) = snd_nxt (g_conns b2 ! 0) \<and>
    (snd_nxt (g_conns a2 ! 0) = rcv_nxt (g_conns b2 ! 0) \<longleftrightarrow> snd_nxt (g_conns hs_client ! 0) \<noteq> 0xFFFFFFFF)"
  by (rule tcp_handshake_establishes[of hs_client hs_server "[2, 0, 0, 0, 0, 2]" 80 49152 0 0 0])
    (simp_all add: hs_client_facts hs_server_facts on_link_def)

text \<open>
  C26. \<^verbatim>\<open>tcp_accept\<close> is first come, first served: as long as the tickets of the waiting connections lie within
  half of the number space, it hands out the oldest connection of the port that is established and not
  yet taken, marks it as taken, and returns none only when there is none.
\<close>

theorem tcp_accept_oldest:
  assumes "length (g_conns s) = TCP_MAX_CONNS"
    and "\<forall>c \<in> set (g_conns (tcp_reap_stale s)). accept_ready port c \<longrightarrow> age base c < 2 ^ 31"
  shows "case tcp_accept s port of
      (None, s') \<Rightarrow> s' = tcp_reap_stale s \<and> (\<forall>c \<in> set (g_conns s'). \<not> accept_ready port c)
    | (Some (i, rip, rport), s') \<Rightarrow> i < TCP_MAX_CONNS \<and>
        (let c = g_conns (tcp_reap_stale s) ! i in
         accept_ready port c \<and> rip = remote_ip c \<and> rport = remote_port c \<and>
         (\<forall>d \<in> set (g_conns (tcp_reap_stale s)). accept_ready port d \<longrightarrow> age base c \<le> age base d) \<and>
         g_conns s' = (g_conns (tcp_reap_stale s))[i := c\<lparr>accept_pending := False\<rparr>])"
proof -
  let ?s = "tcp_reap_stale s" and ?cs = "g_conns (tcp_reap_stale s)"
  have len: "length ?cs = TCP_MAX_CONNS" using assms(1) by (simp add: tcp_reap_stale_def)
  have all: "(\<forall>c \<in> set ?cs. P c) \<longleftrightarrow> (\<forall>i \<in> set [0..<TCP_MAX_CONNS]. P (?cs ! i))" for P
    by (auto simp: all_set_conv_all_nth len)
  have b: "\<And>i. i \<in> set [0..<TCP_MAX_CONNS] \<union> set_option None \<Longrightarrow> accept_ready port (?cs ! i) \<Longrightarrow> age base (?cs ! i) < 2 ^ 31"
    using assms(2) unfolding all by auto
  have sc: "case accept_scan ?cs port None [0..<TCP_MAX_CONNS] of None \<Rightarrow> \<forall>i \<in> set [0..<TCP_MAX_CONNS]. \<not> accept_ready port (?cs ! i)
      | Some r \<Rightarrow> accept_ready port (?cs ! r) \<and> r < TCP_MAX_CONNS \<and> (\<forall>i \<in> set [0..<TCP_MAX_CONNS]. accept_ready port (?cs ! i) \<longrightarrow> age base (?cs ! r) \<le> age base (?cs ! i))"
    using accept_scan_oldest[of "[0..<TCP_MAX_CONNS]" None port ?cs base, OF b] by (simp split: option.splits)
  show ?thesis
  proof (cases "accept_scan ?cs port None [0..<TCP_MAX_CONNS]")
    case None
    then show ?thesis using sc by (simp add: tcp_accept_def Let_def all)
  next
    case (Some r)
    then show ?thesis using sc by (simp add: tcp_accept_def Let_def all)
  qed
qed

definition accept_demo :: tcp where
  "accept_demo = upd_conn conn_demo 0 (\<lambda>c. c\<lparr>accept_pending := True, accept_order := 3\<rparr>)"

theorem tcp_accept_oldest_witness:
  "case tcp_accept accept_demo 49152 of (None, s') \<Rightarrow> False
    | (Some (i, rip, rport), s') \<Rightarrow> i < TCP_MAX_CONNS \<and> accept_ready 49152 (g_conns (tcp_reap_stale accept_demo) ! i) \<and>
        rip = remote_ip (g_conns (tcp_reap_stale accept_demo) ! i)"
proof -
  let ?c = "zero_conn\<lparr>in_use := True, conn_state := TCP_ESTABLISHED, remote_ip := 0x0A000002,
     remote_port := 80, local_port := 49152, rcv_nxt := 5000, accept_pending := True, accept_order := 3\<rparr>"
  have c: "g_conns accept_demo = ?c # replicate 7 zero_conn"
    by (simp add: accept_demo_def conn_demo_def tcp_demo_def tcp_init_def TCP_MAX_CONNS_def numeral_eq_Suc)
  have r: "g_conns (tcp_reap_stale accept_demo) = ?c # replicate 7 zero_conn"
    unfolding tcp_reap_stale_def by (simp add: c stale_def zero_conn_def)
  have accept_ready: "accept_ready 49152 ?c" "\<not> accept_ready 49152 zero_conn" by (simp_all add: accept_ready_def zero_conn_def)
  have "length (g_conns accept_demo) = TCP_MAX_CONNS" by (simp add: c TCP_MAX_CONNS_def)
  moreover have "\<forall>c \<in> set (g_conns (tcp_reap_stale accept_demo)). accept_ready 49152 c \<longrightarrow> age 0 c < 2 ^ 31"
    unfolding r using accept_ready(2) by (auto simp: age_def)
  ultimately have "case tcp_accept accept_demo 49152 of
      (None, s') \<Rightarrow> s' = tcp_reap_stale accept_demo \<and> (\<forall>c \<in> set (g_conns s'). \<not> accept_ready 49152 c)
    | (Some (i, rip, rport), s') \<Rightarrow> i < TCP_MAX_CONNS \<and>
        (let c = g_conns (tcp_reap_stale accept_demo) ! i in
         accept_ready 49152 c \<and> rip = remote_ip c \<and> rport = remote_port c \<and>
         (\<forall>d \<in> set (g_conns (tcp_reap_stale accept_demo)). accept_ready 49152 d \<longrightarrow> age 0 c \<le> age 0 d) \<and>
         g_conns s' = (g_conns (tcp_reap_stale accept_demo))[i := c\<lparr>accept_pending := False\<rparr>])"
    by (rule tcp_accept_oldest)
  then show ?thesis using accept_ready(1) r by (auto simp: Let_def split: option.splits prod.splits)
qed



end
