(* ===== verification/Scheduler.thy ===== *)
theory Scheduler
  imports Prelude "HOL-Library.Monad_Syntax"
begin

text \<open>
  \<^verbatim>\<open>src/impl/proc/scheduler.c\<close>: per-CPU multilevel run queues, dispatch, sleeping, reaping, load balancing and
  the timer tick. Processes are numbers (addresses), \<open>0\<close> is NULL; the run queues are linked through the
  processes as in the code, the creation list \<^verbatim>\<open>proc_list_head\<close> is a list of addresses. The CPU that executes
  an operation is its first argument.

  An operation returns the context switch it ends in, if any, as the pair of the contexts left and entered; code
  behind the switch belongs to the context left and runs when that is resumed, so a tick ends where it switches.
  \<open>switch_to\<close> is the switch itself: other CPUs may act between the decision and the switch, while the outgoing
  process still uses its stack. Freeing of stacks, pages and address spaces and the notifications to other
  modules are recorded as events.
\<close>

section \<open>State\<close>

datatype process_state = PROCESS_READY | PROCESS_RUNNING | PROCESS_WAITING | PROCESS_PAUSED | PROCESS_ZOMBIE | PROCESS_TERMINATED

definition MAX_CPUS :: nat where "MAX_CPUS = 16"
definition SCHED_NUM_LEVELS :: nat where "SCHED_NUM_LEVELS = 3"
definition SCHED_LEVEL_INTERACTIVE :: nat where "SCHED_LEVEL_INTERACTIVE = 0"
definition SCHED_LEVEL_BACKGROUND :: nat where "SCHED_LEVEL_BACKGROUND = 2"
definition SCHED_BOOST_INTERVAL_TICKS :: nat where "SCHED_BOOST_INTERVAL_TICKS = 20000"
definition SCHED_REBALANCE_INTERVAL_TICKS :: nat where "SCHED_REBALANCE_INTERVAL_TICKS = 200"
definition STACK_SIZE :: nat where "STACK_SIZE = 0x4000"

definition sched_level_quantum_ticks :: "nat list" where
  "sched_level_quantum_ticks = [20, 50, 100]"

record process =
  pid :: nat
  pname :: bytes
  pstate :: process_state
  regs :: "nat list"
  pml4 :: nat
  kernel_stack :: nat
  user_stack :: nat
  wake_time_ms :: nat
  cpu_time_ms :: nat
  creation_time_ms :: nat
  entry_point :: nat
  sched_level :: nat
  sched_cpu :: nat
  sched_ticks_used :: nat
  rq_next :: nat
  user_privilege :: bool
  user_image_phys :: nat
  user_image_pages :: nat
  user_stack_phys :: nat
  user_stack_pages :: nat
  kernel_stack_page_backed :: bool
  kernel_stack_pages :: nat
  cleanup_entry :: nat
  cleanup_deadline_ms :: nat
  cleanup_requested :: bool
  cleanup_invoked :: bool
  user_heap_allocations :: "(nat \<times> nat) list"
  exit_code :: u8
  crashed :: bool
  crash_vector :: u8
  user_image_address :: nat
  user_image_size :: nat
  user_stack_address :: nat
  user_stack_size :: nat
  parent_pid :: nat
  is_window_manager :: bool
  on_cpu :: bool

record runqueue =
  rq_head :: "nat \<Rightarrow> nat"
  rq_tail :: "nat \<Rightarrow> nat"
  rq_count :: "nat \<Rightarrow> nat"

datatype event =
    Watchdog_Forget nat | Free_Pages nat nat | Free_Mem nat | User_Heap_Cleanup nat | Destroy_Address_Space nat
  | Exit_Hooks nat | Exit_Report nat u8 bool u8

record usage =
  usage_total_ticks :: nat
  usage_busy_ticks :: nat
  usage_window_ticks :: nat
  usage_window_busy_ticks :: nat
  usage_last_percent :: nat

text \<open>\<open>ap_idle\<close> gives the address of each element of \<^verbatim>\<open>g_ap_idle\<close>, \<open>idle_named\<close> whether it has been set up.\<close>

record sched =
  procs :: "nat \<Rightarrow> process"
  g_runqueues :: "nat \<Rightarrow> runqueue"
  g_deferred_reap :: "nat \<Rightarrow> nat"
  current_process :: "nat \<Rightarrow> nat"
  cpu_online :: "nat \<Rightarrow> bool"
  g_cpu_count :: nat
  online_cpu_count :: nat
  master_core :: nat
  proc_list :: "nat list"
  pid_counter :: nat
  ap_idle :: "nat \<Rightarrow> nat"
  idle_named :: "nat \<Rightarrow> bool"
  scheduler_on :: bool
  total_context_switches :: nat
  idle_cycles :: nat
  g_global_tick_count :: nat
  clock_ms :: nat
  tss_rsp0 :: "nat \<Rightarrow> nat"
  cpu_usage :: "nat \<Rightarrow> usage"
  events :: "event list"

definition upd_proc :: "sched \<Rightarrow> nat \<Rightarrow> (process \<Rightarrow> process) \<Rightarrow> sched" where
  "upd_proc s p f = s\<lparr>procs := (procs s)(p := f (procs s p))\<rparr>"

definition upd_rq :: "sched \<Rightarrow> nat \<Rightarrow> (runqueue \<Rightarrow> runqueue) \<Rightarrow> sched" where
  "upd_rq s c f = s\<lparr>g_runqueues := (g_runqueues s)(c := f (g_runqueues s c))\<rparr>"

definition set_current :: "sched \<Rightarrow> nat \<Rightarrow> nat \<Rightarrow> sched" where
  "set_current s c p = s\<lparr>current_process := (current_process s)(c := p)\<rparr>"

section \<open>Run queues\<close>

definition rq_push :: "sched \<Rightarrow> nat \<Rightarrow> nat \<Rightarrow> nat \<Rightarrow> sched" where
  "rq_push s c proc level =
     (let s = upd_proc s proc (rq_next_update (\<lambda>_. 0));
          t = rq_tail (g_runqueues s c) level;
          s = (if t \<noteq> 0 then upd_proc s t (rq_next_update (\<lambda>_. proc))
               else upd_rq s c (\<lambda>rq. rq\<lparr>rq_head := (rq_head rq)(level := proc)\<rparr>))
      in upd_rq s c (\<lambda>rq. rq\<lparr>rq_tail := (rq_tail rq)(level := proc), rq_count := (rq_count rq)(level := rq_count rq level + 1)\<rparr>))"

definition rq_pop :: "sched \<Rightarrow> nat \<Rightarrow> nat \<Rightarrow> nat \<times> sched" where
  "rq_pop s c level =
     (let proc = rq_head (g_runqueues s c) level in
      if proc = 0 then (0, s)
      else
        let n = rq_next (procs s proc);
            s = upd_rq s c (\<lambda>rq. rq\<lparr>rq_head := (rq_head rq)(level := n)\<rparr>);
            s = (if n = 0 then upd_rq s c (\<lambda>rq. rq\<lparr>rq_tail := (rq_tail rq)(level := 0)\<rparr>) else s);
            s = upd_proc s proc (rq_next_update (\<lambda>_. 0))
        in (proc, upd_rq s c (\<lambda>rq. rq\<lparr>rq_count := (rq_count rq)(level := rq_count rq level - 1)\<rparr>)))"

fun pop_levels :: "sched \<Rightarrow> nat \<Rightarrow> nat list \<Rightarrow> nat \<times> sched" where
  "pop_levels s c [] = (0, s)"
| "pop_levels s c (level # levels) =
     (case rq_pop s c level of (proc, s') \<Rightarrow> if proc \<noteq> 0 then (proc, s') else pop_levels s' c levels)"

definition rq_pop_highest :: "sched \<Rightarrow> nat \<Rightarrow> nat \<times> sched" where
  "rq_pop_highest s c = pop_levels s c [0..<SCHED_NUM_LEVELS]"

definition rq_total :: "sched \<Rightarrow> nat \<Rightarrow> nat" where
  "rq_total s c = sum_list (map (rq_count (g_runqueues s c)) [0..<SCHED_NUM_LEVELS])"

fun least_loaded :: "sched \<Rightarrow> nat list \<Rightarrow> nat \<Rightarrow> nat \<Rightarrow> nat" where
  "least_loaded s [] best_cpu best_load = best_cpu"
| "least_loaded s (c # cs) best_cpu best_load =
     (if rq_total s c < best_load then least_loaded s cs c (rq_total s c) else least_loaded s cs best_cpu best_load)"

definition pick_least_loaded_cpu :: "sched \<Rightarrow> nat" where
  "pick_least_loaded_cpu s =
     (let online = online_cpu_count s; online = (if online = 0 then 1 else online);
          online = (if online > MAX_CPUS then MAX_CPUS else online)
      in least_loaded s [0..<online] 0 0xFFFFFFFF)"

definition scheduler_enqueue_new :: "sched \<Rightarrow> nat \<Rightarrow> sched" where
  "scheduler_enqueue_new s proc =
     (if proc = 0 then s
      else
        let c = pick_least_loaded_cpu s;
            s = upd_proc s proc (\<lambda>p. p\<lparr>sched_level := SCHED_LEVEL_INTERACTIVE, sched_ticks_used := 0, sched_cpu := c\<rparr>)
        in rq_push s c proc SCHED_LEVEL_INTERACTIVE)"

definition scheduler_enqueue_existing :: "sched \<Rightarrow> nat \<Rightarrow> sched" where
  "scheduler_enqueue_existing s proc =
     (if proc = 0 then s
      else if sched_cpu (procs s proc) \<ge> MAX_CPUS then scheduler_enqueue_new s proc
      else
        let s = upd_proc s proc (\<lambda>p. p\<lparr>sched_level := SCHED_LEVEL_INTERACTIVE, sched_ticks_used := 0\<rparr>)
        in rq_push s (sched_cpu (procs s proc)) proc SCHED_LEVEL_INTERACTIVE)"

text \<open>The walk along a queue up to \<open>proc\<close>: its predecessor, or \<^const>\<open>None\<close> when the queue ends first.\<close>

partial_function (option) find_prev :: "sched \<Rightarrow> nat \<Rightarrow> nat \<Rightarrow> nat \<Rightarrow> nat option option" where
  "find_prev s proc prev node =
     (if node = 0 then Some None
      else if node = proc then Some (Some prev)
      else find_prev s proc node (rq_next (procs s node)))"

definition rq_unlink :: "sched \<Rightarrow> nat \<Rightarrow> nat \<Rightarrow> nat \<Rightarrow> nat \<Rightarrow> sched" where
  "rq_unlink s c level prev proc =
     (let n = rq_next (procs s proc);
          s = (if prev \<noteq> 0 then upd_proc s prev (rq_next_update (\<lambda>_. n))
               else upd_rq s c (\<lambda>rq. rq\<lparr>rq_head := (rq_head rq)(level := n)\<rparr>));
          s = (if rq_tail (g_runqueues s c) level = proc
               then upd_rq s c (\<lambda>rq. rq\<lparr>rq_tail := (rq_tail rq)(level := prev)\<rparr>) else s);
          s = upd_rq s c (\<lambda>rq. rq\<lparr>rq_count := (rq_count rq)(level := rq_count rq level - 1)\<rparr>)
      in upd_proc s proc (rq_next_update (\<lambda>_. 0)))"

fun dequeue_levels :: "sched \<Rightarrow> nat \<Rightarrow> nat \<Rightarrow> nat list \<Rightarrow> sched option" where
  "dequeue_levels s c proc [] = Some s"
| "dequeue_levels s c proc (level # levels) =
     (case find_prev s proc 0 (rq_head (g_runqueues s c) level) of
        None \<Rightarrow> None
      | Some (Some prev) \<Rightarrow> Some (rq_unlink s c level prev proc)
      | Some None \<Rightarrow> dequeue_levels s c proc levels)"

definition scheduler_dequeue :: "sched \<Rightarrow> nat \<Rightarrow> sched option" where
  "scheduler_dequeue s proc =
     (if proc = 0 then Some s
      else if sched_cpu (procs s proc) \<ge> MAX_CPUS then Some s
      else dequeue_levels s (sched_cpu (procs s proc)) proc [0..<SCHED_NUM_LEVELS])"

section \<open>Balancing and boosting\<close>

text \<open>The loads of the online CPUs: queued processes and the running one.\<close>

definition cpu_load :: "sched \<Rightarrow> nat \<Rightarrow> nat" where
  "cpu_load s c =
     (let running = current_process s c
      in rq_total s c + (if running \<noteq> 0 \<and> pstate (procs s running) = PROCESS_RUNNING then 1 else 0))"

fun scan_loads :: "sched \<Rightarrow> nat list \<Rightarrow> (nat \<times> nat) \<times> (nat \<times> nat) \<Rightarrow> (nat \<times> nat) \<times> (nat \<times> nat)" where
  "scan_loads s [] acc = acc"
| "scan_loads s (c # cs) ((busiest_load, busiest), (idlest_load, idlest)) =
     (let load = cpu_load s c
      in scan_loads s cs (if load > busiest_load then (load, c) else (busiest_load, busiest),
                          if load < idlest_load then (load, c) else (idlest_load, idlest)))"

text \<open>The candidate so far: the process, its level and its CPU time, with \<open>2 ^ 64 - 1\<close> at the start.\<close>

partial_function (option) scan_migrants :: "sched \<Rightarrow> nat \<Rightarrow> nat \<Rightarrow> nat \<times> nat \<times> nat \<Rightarrow> (nat \<times> nat \<times> nat) option" where
  "scan_migrants s level candidate best =
     (if candidate = 0 then Some best
      else
        let p = procs s candidate;
            best = (if \<not> on_cpu p \<and> user_privilege p \<and> cpu_time_ms p < snd (snd best)
                    then (candidate, level, cpu_time_ms p) else best)
        in scan_migrants s level (rq_next p) best)"

fun scan_levels :: "sched \<Rightarrow> nat \<Rightarrow> nat list \<Rightarrow> nat \<times> nat \<times> nat \<Rightarrow> (nat \<times> nat \<times> nat) option" where
  "scan_levels s c [] best = Some best"
| "scan_levels s c (level # levels) best =
     (case scan_migrants s level (rq_head (g_runqueues s c) level) best of
        None \<Rightarrow> None | Some best \<Rightarrow> scan_levels s c levels best)"

definition scheduler_rebalance :: "sched \<Rightarrow> sched option" where
  "scheduler_rebalance s =
     (let online = online_cpu_count s in
      if online < 2 \<or> online > MAX_CPUS then Some s
      else case scan_loads s [0..<online] ((0, 0), (0xFFFFFFFF, 0)) of
        ((busiest_load, busiest), (idlest_load, idlest)) \<Rightarrow>
          if busiest = idlest \<or> busiest_load < idlest_load + 2 then Some s
          else
            (case scan_levels s busiest [0..<SCHED_NUM_LEVELS] (0, 0, 2 ^ 64 - 1) of
               None \<Rightarrow> None
             | Some (migrant, level, _) \<Rightarrow>
                 if migrant = 0 then Some s
                 else
                   (case find_prev s migrant 0 (rq_head (g_runqueues s busiest) level) of
                      Some (Some prev) \<Rightarrow>
                        let s = rq_unlink s busiest level prev migrant;
                            s = upd_proc s migrant (sched_cpu_update (\<lambda>_. idlest))
                        in Some (rq_push s idlest migrant (sched_level (procs s migrant)))
                    | _ \<Rightarrow> None)))"

partial_function (option) boost_level :: "sched \<Rightarrow> nat \<Rightarrow> nat \<Rightarrow> sched option" where
  "boost_level s c level =
     (case rq_pop s c level of (proc, s') \<Rightarrow>
        if proc = 0 then Some s'
        else
          let s' = upd_proc s' proc (\<lambda>p. p\<lparr>sched_level := SCHED_LEVEL_INTERACTIVE, sched_ticks_used := 0\<rparr>)
          in boost_level (rq_push s' c proc SCHED_LEVEL_INTERACTIVE) c level)"

fun boost_levels :: "sched \<Rightarrow> nat \<Rightarrow> nat list \<Rightarrow> sched option" where
  "boost_levels s c [] = Some s"
| "boost_levels s c (level # levels) =
     (case boost_level s c level of None \<Rightarrow> None | Some s \<Rightarrow> boost_levels s c levels)"

fun boost_cpus :: "sched \<Rightarrow> nat list \<Rightarrow> sched option" where
  "boost_cpus s [] = Some s"
| "boost_cpus s (c # cs) =
     (case boost_levels s c [1..<SCHED_NUM_LEVELS] of None \<Rightarrow> None | Some s \<Rightarrow> boost_cpus s cs)"

definition scheduler_priority_boost :: "sched \<Rightarrow> sched option" where
  "scheduler_priority_boost s =
     (let online = (if online_cpu_count s > MAX_CPUS then MAX_CPUS else online_cpu_count s)
      in boost_cpus s [0..<online])"

section \<open>Sleeping processes\<close>

definition ready :: "nat \<Rightarrow> sched \<Rightarrow> sched" where
  "ready c s =
     (if current_process s c \<noteq> 0 then upd_proc s (current_process s c) (pstate_update (\<lambda>_. PROCESS_READY)) else s)"

definition schedulerInit :: "sched \<Rightarrow> sched" where
  "schedulerInit s = s\<lparr>scheduler_on := True\<rparr>"

definition wake_process :: "nat \<Rightarrow> sched \<Rightarrow> nat \<Rightarrow> sched" where
  "wake_process c s proc =
     (let p = procs s proc in
      if pstate p = PROCESS_WAITING \<and> wake_time_ms p > 0 \<and> clock_ms s \<ge> wake_time_ms p \<and> sched_cpu p = c then
        rq_push (upd_proc s proc (\<lambda>p. p\<lparr>pstate := PROCESS_READY, wake_time_ms := 0,
                   sched_level := SCHED_LEVEL_INTERACTIVE, sched_ticks_used := 0\<rparr>))
          c proc SCHED_LEVEL_INTERACTIVE
      else s)"

definition wake_sleeping_processes :: "nat \<Rightarrow> sched \<Rightarrow> sched" where
  "wake_sleeping_processes c s = foldl (wake_process c) s (proc_list s)"

definition process_is_current_on_any_cpu :: "sched \<Rightarrow> nat \<Rightarrow> bool" where
  "process_is_current_on_any_cpu s proc =
     (proc \<noteq> 0 \<and>
      (let cpu_count = (if g_cpu_count s > MAX_CPUS then MAX_CPUS else g_cpu_count s)
       in list_ex (\<lambda>i. cpu_online s i \<and> current_process s i = proc) [0..<cpu_count]))"

section \<open>Dispatch\<close>

definition ap_idle_for :: "nat \<Rightarrow> sched \<Rightarrow> nat \<times> sched" where
  "ap_idle_for c s =
     (if c \<ge> MAX_CPUS \<or> c = master_core s then (0, s)
      else
        let idle = ap_idle s c in
        if idle_named s c then (idle, s)
        else (idle, upd_proc (s\<lparr>idle_named := (idle_named s)(c := True)\<rparr>) idle
                (\<lambda>p. p\<lparr>sched_cpu := c, sched_level := SCHED_LEVEL_BACKGROUND\<rparr>)))"

definition scheduler_is_idle_process :: "sched \<Rightarrow> nat \<Rightarrow> bool" where
  "scheduler_is_idle_process s proc = (proc \<noteq> 0 \<and> list_ex (\<lambda>c. proc = ap_idle s c) [0..<MAX_CPUS])"

definition dead :: "process \<Rightarrow> bool" where
  "dead p \<longleftrightarrow> pstate p = PROCESS_ZOMBIE \<or> pstate p = PROCESS_TERMINATED"

text \<open>What freeing a process releases, in order.\<close>

definition release_events :: "sched \<Rightarrow> nat \<Rightarrow> event list" where
  "release_events s proc =
     (let p = procs s proc in
      [Watchdog_Forget proc] @
      (if kernel_stack p \<noteq> 0 then
         (if kernel_stack_page_backed p then [Free_Pages (sub64 (kernel_stack p) STACK_SIZE) (kernel_stack_pages p)]
          else [Free_Mem (sub64 (kernel_stack p) STACK_SIZE)])
       else []) @
      [User_Heap_Cleanup proc] @
      (if user_image_phys p \<noteq> 0 then [Free_Pages (user_image_phys p) (user_image_pages p)] else []) @
      (if user_stack_phys p \<noteq> 0 then [Free_Pages (user_stack_phys p) (user_stack_pages p)] else []) @
      (if user_privilege p then [Destroy_Address_Space proc] else []) @
      [Free_Mem proc])"

definition is_deferred :: "nat \<Rightarrow> sched \<Rightarrow> nat \<Rightarrow> nat \<Rightarrow> bool" where
  "is_deferred c s deferred_reap proc =
     (proc = deferred_reap \<or> list_ex (\<lambda>i. proc = g_deferred_reap s i) [0..<c] \<or>
      list_ex (\<lambda>i. proc = g_deferred_reap s i) [c + 1..<MAX_CPUS])"

definition reapable :: "nat \<Rightarrow> sched \<Rightarrow> nat \<Rightarrow> nat \<Rightarrow> bool" where
  "reapable c s deferred_reap proc \<longleftrightarrow>
     dead (procs s proc) \<and> \<not> (is_deferred c s deferred_reap proc \<or> process_is_current_on_any_cpu s proc)"

definition reap :: "nat \<Rightarrow> sched \<Rightarrow> sched" where
  "reap c s =
     (let deferred_reap = g_deferred_reap s c;
          s = s\<lparr>g_deferred_reap := (g_deferred_reap s)(c := 0)\<rparr>;
          gone = filter (reapable c s deferred_reap) (proc_list s)
      in s\<lparr>proc_list := filter (\<lambda>p. \<not> reapable c s deferred_reap p) (proc_list s),
           events := events s @ concat (map (release_events s) gone)\<rparr>)"

text \<open>The loop that takes the next process: what is not ready is dropped.\<close>

partial_function (option) pick_next :: "nat \<Rightarrow> sched \<Rightarrow> (nat \<times> sched) option" where
  "pick_next c s =
     (case rq_pop_highest s c of (p, s') \<Rightarrow>
        if p = 0 then Some (0, s')
        else if dead (procs s' p) then pick_next c s'
        else if pstate (procs s' p) \<noteq> PROCESS_READY then pick_next c s'
        else Some (p, s'))"

text \<open>
  The switch: registers are saved and restored, \<open>next\<close> becomes live on the CPU and \<open>current\<close> is released once its
  context is saved.
\<close>

type_synonym switch = "(nat \<times> nat) option"

definition switch_to :: "sched \<Rightarrow> nat \<Rightarrow> nat \<Rightarrow> sched" where
  "switch_to s current next =
     (let s = upd_proc s next (on_cpu_update (\<lambda>_. True))
      in if current \<noteq> 0 then upd_proc s current (on_cpu_update (\<lambda>_. False)) else s)"

definition finish :: "switch \<times> sched \<Rightarrow> sched" where
  "finish r = (case fst r of None \<Rightarrow> snd r | Some (current, next) \<Rightarrow> switch_to (snd r) current next)"

definition defer_dead :: "nat \<Rightarrow> sched \<Rightarrow> nat \<Rightarrow> sched" where
  "defer_dead c s old =
     (if dead (procs s old) then s\<lparr>g_deferred_reap := (g_deferred_reap s)(c := old)\<rparr> else s)"

text \<open>Nothing else is ready: go on with the running process, or wait in the idle context.\<close>

definition stay_or_idle :: "nat \<Rightarrow> sched \<Rightarrow> nat \<Rightarrow> nat \<Rightarrow> switch \<times> sched" where
  "stay_or_idle c s old idle =
     (if old \<noteq> 0 \<and> (pstate (procs s old) = PROCESS_RUNNING \<or> pstate (procs s old) = PROCESS_READY)
      then (None, set_current (upd_proc s old (pstate_update (\<lambda>_. PROCESS_RUNNING))) c old)
      else
        let s = s\<lparr>idle_cycles := idle_cycles s + 1\<rparr> in
        if idle \<noteq> 0 \<and> old \<noteq> 0 \<and> old \<noteq> idle then
          let s = defer_dead c s old;
              s = upd_proc s idle (pstate_update (\<lambda>_. PROCESS_RUNNING))
          in (Some (old, idle), set_current s c idle)
        else (None, s))"

text \<open>The outgoing process goes back to the queue of its level.\<close>

definition requeue :: "nat \<Rightarrow> sched \<Rightarrow> nat \<Rightarrow> nat \<Rightarrow> sched" where
  "requeue c s old idle =
     (if old \<noteq> 0 \<and> pstate (procs s old) = PROCESS_RUNNING \<and> old \<noteq> idle
      then rq_push (upd_proc s old (pstate_update (\<lambda>_. PROCESS_READY))) c old (sched_level (procs s old)) else s)"

text \<open>\<open>next\<close> takes the CPU.\<close>

definition dispatch :: "nat \<Rightarrow> sched \<Rightarrow> nat \<Rightarrow> nat \<Rightarrow> nat \<Rightarrow> switch \<times> sched" where
  "dispatch c s old idle next =
     (let s = requeue c s old idle;
          s = (if old \<noteq> 0 then defer_dead c s old else s);
          s = upd_proc s next (\<lambda>p. p\<lparr>sched_ticks_used := 0, pstate := PROCESS_RUNNING\<rparr>);
          s = set_current s c next;
          s = (if kernel_stack (procs s next) \<noteq> 0
               then s\<lparr>tss_rsp0 := (tss_rsp0 s)(c := kernel_stack (procs s next))\<rparr> else s)
      in if old = 0 \<and> c \<noteq> master_core s then
           (Some (idle, next), upd_proc s idle (pstate_update (\<lambda>_. PROCESS_RUNNING)))
         else if old = 0 then (None, s)
         else (Some (old, next), s\<lparr>total_context_switches := total_context_switches s + 1\<rparr>))"

definition schedule :: "nat \<Rightarrow> sched \<Rightarrow> (switch \<times> sched) option" where
  "schedule c s =
     (let s = reap c s; old = current_process s c;
          s = (if old \<noteq> 0 then upd_proc s old (on_cpu_update (\<lambda>_. True)) else s);
          (idle, s) = ap_idle_for c s
      in case pick_next c s of
           None \<Rightarrow> None
         | Some (p, s) \<Rightarrow> Some (if p = 0 then stay_or_idle c s old idle else dispatch c s old idle p))"

text \<open>\<^verbatim>\<open>sleep\<close> without a current process waits actively for the given time.\<close>

definition sleep :: "nat \<Rightarrow> sched \<Rightarrow> nat \<Rightarrow> (switch \<times> sched) option" where
  "sleep c s milliseconds =
     (if milliseconds = 0 then Some (None, s)
      else if current_process s c = 0 then Some (None, s\<lparr>clock_ms := clock_ms s + milliseconds\<rparr>)
      else
        schedule c (upd_proc s (current_process s c)
          (\<lambda>p. p\<lparr>wake_time_ms := clock_ms s + milliseconds, pstate := PROCESS_WAITING\<rparr>)))"

section \<open>The tick\<close>

fun expire_cleanup :: "nat \<Rightarrow> sched \<Rightarrow> nat list \<Rightarrow> (switch \<times> sched) option" where
  "expire_cleanup c s [] = Some (None, s)"
| "expire_cleanup c s (proc # ps) =
     (let p = procs s proc in
      if \<not> cleanup_requested p \<or> dead p \<or> clock_ms s < cleanup_deadline_ms p then expire_cleanup c s ps
      else
        let s = upd_proc (s\<lparr>events := events s @ [Exit_Hooks proc]\<rparr>) proc (pstate_update (\<lambda>_. PROCESS_ZOMBIE))
        in case scheduler_dequeue s proc of
             None \<Rightarrow> None
           | Some s \<Rightarrow>
               if proc = current_process s c then
                 (case schedule c s of
                    None \<Rightarrow> None
                  | Some (Some w, s) \<Rightarrow> Some (Some w, s)
                  | Some (None, s) \<Rightarrow> expire_cleanup c s ps)
               else expire_cleanup c s ps)"

definition expire_cleanup_requests :: "nat \<Rightarrow> sched \<Rightarrow> (switch \<times> sched) option" where
  "expire_cleanup_requests c s = expire_cleanup c s (proc_list s)"

definition count_usage :: "nat \<Rightarrow> sched \<Rightarrow> sched" where
  "count_usage c s =
     (if c < MAX_CPUS then
        (let cur = current_process s c;
             busy = (cur \<noteq> 0 \<and> pstate (procs s cur) = PROCESS_RUNNING \<and> \<not> scheduler_is_idle_process s cur);
             u = cpu_usage s c;
             u = u\<lparr>usage_total_ticks := usage_total_ticks u + 1,
                    usage_busy_ticks := usage_busy_ticks u + (if busy then 1 else 0),
                    usage_window_ticks := usage_window_ticks u + 1,
                    usage_window_busy_ticks := usage_window_busy_ticks u + (if busy then 1 else 0)\<rparr>;
             u = (if usage_window_ticks u \<ge> 1000
                  then u\<lparr>usage_last_percent := usage_window_busy_ticks u * 100 div usage_window_ticks u,
                         usage_window_ticks := 0, usage_window_busy_ticks := 0\<rparr>
                  else u)
         in s\<lparr>cpu_usage := (cpu_usage s)(c := u)\<rparr>)
      else s)"

definition better_ready :: "nat \<Rightarrow> sched \<Rightarrow> nat \<Rightarrow> bool" where
  "better_ready c s level = list_ex (\<lambda>i. rq_count (g_runqueues s c) i \<noteq> 0) [0..<level]"

text \<open>The part of the tick that charges the running process.\<close>

definition charge_tick :: "nat \<Rightarrow> sched \<Rightarrow> (switch \<times> sched) option" where
  "charge_tick c s =
     (let cur = current_process s c;
          s = upd_proc s cur (\<lambda>p. p\<lparr>sched_ticks_used := sched_ticks_used p + 1, cpu_time_ms := cpu_time_ms p + 1\<rparr>);
          s = s\<lparr>g_global_tick_count := g_global_tick_count s + 1\<rparr>;
          my_tick = g_global_tick_count s
      in do {
           s \<leftarrow> (if my_tick mod SCHED_BOOST_INTERVAL_TICKS = 0 then scheduler_priority_boost s else Some s);
           s \<leftarrow> (if my_tick mod SCHED_REBALANCE_INTERVAL_TICKS = 0 then scheduler_rebalance s else Some s);
           let level = sched_level (procs s cur);
           let level = (if level \<ge> SCHED_NUM_LEVELS then SCHED_NUM_LEVELS - 1 else level);
           if c < MAX_CPUS \<and> better_ready c s level then schedule c s
           else if sched_ticks_used (procs s cur) \<ge> sched_level_quantum_ticks ! level then
             schedule c (upd_proc s cur (\<lambda>p.
               p\<lparr>sched_level := (if sched_level p < SCHED_NUM_LEVELS - 1 then sched_level p + 1 else sched_level p),
                 sched_ticks_used := 0\<rparr>))
           else Some (None, s)
         })"

text \<open>The tick after the sleepers are awake and overdue processes are gone.\<close>

definition tick_current :: "nat \<Rightarrow> sched \<Rightarrow> bool \<Rightarrow> (switch \<times> sched) option" where
  "tick_current c s was_idle =
     (let s = count_usage c s; cur = current_process s c in
      if was_idle \<or> cur = 0 then Some (None, s)
      else if scheduler_is_idle_process s cur then
        (if rq_total s c > 0 then schedule c s else Some (None, s))
      else charge_tick c s)"

definition scheduler_tick :: "nat \<Rightarrow> sched \<Rightarrow> (switch \<times> sched) option" where
  "scheduler_tick c s =
     (if \<not> scheduler_on s then Some (None, s)
      else case expire_cleanup_requests c (wake_sleeping_processes c s) of
        None \<Rightarrow> None
      | Some (Some w, s) \<Rightarrow> Some (Some w, s)
      | Some (None, s) \<Rightarrow>
          (if current_process s c = 0 then
             (case schedule c s of
                None \<Rightarrow> None
              | Some (Some w, s) \<Rightarrow> Some (Some w, s)
              | Some (None, s) \<Rightarrow> tick_current c s True)
           else tick_current c s False))"

definition process_exit_with_status :: "nat \<Rightarrow> sched \<Rightarrow> u8 \<Rightarrow> bool \<Rightarrow> u8 \<Rightarrow> (switch \<times> sched) option" where
  "process_exit_with_status c s code crash vec =
     (let cur = current_process s c in
      if cur = 0 then None
      else
        let s = upd_proc s cur (\<lambda>p. p\<lparr>exit_code := code, crashed := crash, crash_vector := vec, pstate := PROCESS_TERMINATED\<rparr>);
            s = s\<lparr>events := events s @ [Exit_Hooks cur, Exit_Report cur code crash vec]\<rparr>
        in schedule c s)"

definition process_exit :: "nat \<Rightarrow> sched \<Rightarrow> (switch \<times> sched) option" where
  "process_exit c s = process_exit_with_status c s 0 False 0"

definition scheduler_get_stats :: "sched \<Rightarrow> nat \<times> nat" where
  "scheduler_get_stats s = (total_context_switches s, idle_cycles s)"

definition stat_counts :: "sched \<Rightarrow> nat list" where
  "stat_counts s =
     map (\<lambda>st. length (filter (\<lambda>p. pstate (procs s p) = st) (proc_list s)))
       [PROCESS_READY, PROCESS_RUNNING, PROCESS_WAITING, PROCESS_ZOMBIE]"

end
