(* ===== verification/Sched_Queue.thy ===== *)
theory Sched_Queue
  imports Scheduler
begin

text \<open>
  The run queues of the scheduler, linked through \<^verbatim>\<open>rq_next\<close>, as lists: \<open>rep s Q\<close> says that the queue of CPU
  \<open>c\<close> and level \<open>l\<close> holds the processes \<open>Q c l\<close> in this order, and that no process is in two places. Every operation
  on the links is an operation on the lists and changes nothing else (\<open>unlinked\<close>).
\<close>

section \<open>Chains\<close>

type_synonym queues = "nat \<Rightarrow> nat \<Rightarrow> nat list"

primrec chain :: "(nat \<Rightarrow> nat) \<Rightarrow> nat \<Rightarrow> nat list \<Rightarrow> bool" where
  "chain nx h [] \<longleftrightarrow> h = 0"
| "chain nx h (x # xs) \<longleftrightarrow> h = x \<and> x \<noteq> 0 \<and> chain nx (nx x) xs"

definition last_or_null :: "nat list \<Rightarrow> nat" where
  "last_or_null xs = (if xs = [] then 0 else last xs)"

definition nexts :: "sched \<Rightarrow> nat \<Rightarrow> nat" where
  "nexts s p = rq_next (procs s p)"

definition queue_at :: "(nat \<Rightarrow> nat) \<Rightarrow> runqueue \<Rightarrow> nat \<Rightarrow> nat list \<Rightarrow> bool" where
  "queue_at nx rq l xs \<longleftrightarrow>
     chain nx (rq_head rq l) xs \<and> rq_tail rq l = last_or_null xs \<and> rq_count rq l = length xs \<and> distinct xs"

definition rep :: "sched \<Rightarrow> queues \<Rightarrow> bool" where
  "rep s Q \<longleftrightarrow>
     (\<forall>c l. queue_at (nexts s) (g_runqueues s c) l (Q c l)) \<and>
     (\<forall>c l c' l' p. p \<in> set (Q c l) \<longrightarrow> p \<in> set (Q c' l') \<longrightarrow> c = c' \<and> l = l')"

definition qset :: "queues \<Rightarrow> nat \<Rightarrow> nat \<Rightarrow> nat list \<Rightarrow> queues" where
  "qset Q c l xs = Q(c := (Q c)(l := xs))"

definition qdel :: "queues \<Rightarrow> nat \<Rightarrow> queues" where
  "qdel Q p = (\<lambda>c l. removeAll p (Q c l))"

definition queued :: "queues \<Rightarrow> nat \<Rightarrow> bool" where
  "queued Q p \<longleftrightarrow> (\<exists>c l. p \<in> set (Q c l))"

text \<open>What the queue operations leave alone.\<close>

definition unlinked :: "sched \<Rightarrow> sched" where
  "unlinked s = s\<lparr>procs := (\<lambda>p. (procs s p)\<lparr>rq_next := 0\<rparr>), g_runqueues := (\<lambda>_. \<lparr>rq_head = \<lambda>_. 0, rq_tail = \<lambda>_. 0, rq_count = \<lambda>_. 0\<rparr>)\<rparr>"

lemma chain_cong:
  "(\<And>x. x \<in> set xs \<Longrightarrow> nx x = nx' x) \<Longrightarrow> chain nx h xs = chain nx' h xs"
  by (induction xs arbitrary: h) auto

lemma chain_fresh [simp]: "p \<notin> set xs \<Longrightarrow> chain (nx(p := q)) h xs = chain nx h xs"
  by (rule chain_cong) auto

lemma chain_nonzero: "chain nx h xs \<Longrightarrow> 0 \<notin> set xs"
  by (induction xs arbitrary: h) auto

lemma chain_head: "chain nx h xs \<Longrightarrow> (h = 0) = (xs = [])"
  by (cases xs) auto

lemma chain_snoc:
  assumes "chain nx h xs" "xs \<noteq> []" "distinct xs" "p \<noteq> 0" "p \<notin> set xs"
  shows "chain (nx(p := 0, last xs := p)) h (xs @ [p])"
  using assms
proof (induction xs arbitrary: h)
  case (Cons x xs)
  show ?case
  proof (cases "xs = []")
    case False
    have "chain (nx(p := 0, last xs := p)) (nx x) (xs @ [p])" by (rule Cons.IH) (use Cons.prems False in auto)
    moreover have "x \<noteq> last xs" using Cons.prems(3) False by auto
    ultimately show ?thesis using Cons.prems False by (simp add: fun_upd_other del: fun_upd_apply)
  qed (use Cons.prems in auto)
qed simp

lemma chain_remove:
  assumes "chain nx h (xs @ p # ys)" "distinct (xs @ p # ys)" "xs \<noteq> []"
  shows "chain (nx(last xs := nx p, p := 0)) h (xs @ ys)"
  using assms
proof (induction xs arbitrary: h)
  case (Cons x xs)
  show ?case
  proof (cases "xs = []")
    case True
    have "chain nx (nx p) ys = chain (nx(x := nx p, p := 0)) (nx p) ys" by (rule chain_cong) (use Cons.prems in auto)
    then show ?thesis using Cons.prems True by (simp add: fun_upd_other fun_upd_same del: fun_upd_apply)
  next
    case False
    have "chain (nx(last xs := nx p, p := 0)) (nx x) (xs @ ys)" by (rule Cons.IH) (use Cons.prems False in auto)
    moreover have "x \<noteq> last xs" "x \<noteq> p" using Cons.prems(2) False by auto
    ultimately show ?thesis using Cons.prems(1) False by (simp add: fun_upd_other del: fun_upd_apply)
  qed
qed simp

section \<open>Queue operations\<close>

lemma rep_queue: "rep s Q \<Longrightarrow> queue_at (nexts s) (g_runqueues s c) l (Q c l)"
  by (simp add: rep_def)

lemma rep_unique: "rep s Q \<Longrightarrow> p \<in> set (Q c l) \<Longrightarrow> p \<in> set (Q c' l') \<Longrightarrow> c = c' \<and> l = l'"
  unfolding rep_def by blast

lemma rep_chain: "rep s Q \<Longrightarrow> chain (nexts s) (rq_head (g_runqueues s c) l) (Q c l)"
  using rep_queue queue_at_def by blast

lemma rep_nonzero: "rep s Q \<Longrightarrow> 0 \<notin> set (Q c l)"
  using rep_chain chain_nonzero by blast

lemma rep_count: "rep s Q \<Longrightarrow> rq_count (g_runqueues s c) l = length (Q c l)"
  using rep_queue queue_at_def by blast

lemma rep_tail: "rep s Q \<Longrightarrow> rq_tail (g_runqueues s c) l = last_or_null (Q c l)"
  using rep_queue queue_at_def by blast

lemma rep_distinct: "rep s Q \<Longrightarrow> distinct (Q c l)"
  using rep_queue queue_at_def by blast

lemma rep_head: "rep s Q \<Longrightarrow> rq_head (g_runqueues s c) l = (if Q c l = [] then 0 else hd (Q c l))"
  using rep_chain[of s Q c l] by (cases "Q c l") auto

text \<open>The links determine the lists.\<close>

lemma chain_fun: "chain nx h xs \<Longrightarrow> chain nx h ys \<Longrightarrow> xs = ys"
proof (induction xs arbitrary: h ys)
  case Nil
  then show ?case by (cases ys) auto
next
  case (Cons x xs)
  then show ?case by (cases ys) auto
qed

lemma rep_fun: "rep s Q \<Longrightarrow> rep s Q' \<Longrightarrow> Q = Q'"
  by (intro ext) (rule chain_fun[OF rep_chain rep_chain])

text \<open>Fields other than the links do not matter.\<close>

lemma rep_cong:
  "g_runqueues s' = g_runqueues s \<Longrightarrow> (\<And>p. rq_next (procs s' p) = rq_next (procs s p)) \<Longrightarrow> rep s' Q = rep s Q"
  by (simp add: rep_def nexts_def[abs_def])

lemma nexts_upd_link: "nexts (upd_proc s p (rq_next_update (\<lambda>_. q))) = (nexts s)(p := q)"
  by (rule ext) (simp add: nexts_def upd_proc_def)

lemma nexts_upd_rq [simp]: "nexts (upd_rq s c f) = nexts s"
  by (rule ext) (simp add: nexts_def upd_rq_def)

lemma runqueues_upd [simp]:
  "g_runqueues (upd_proc s p f) = g_runqueues s"
  "g_runqueues (upd_rq s c h) = (g_runqueues s)(c := h (g_runqueues s c))"
  by (simp_all add: upd_proc_def upd_rq_def)

lemma unlinked_upd [simp]:
  "unlinked (upd_proc s p (rq_next_update (\<lambda>_. q))) = unlinked s"
  "unlinked (upd_rq s c h) = unlinked s"
proof -
  have "(\<lambda>x. (if x = p then (procs s p)\<lparr>rq_next := q\<rparr> else procs s x)\<lparr>rq_next := 0\<rparr>) = (\<lambda>x. (procs s x)\<lparr>rq_next := 0\<rparr>)"
    by auto
  then show "unlinked (upd_proc s p (rq_next_update (\<lambda>_. q))) = unlinked s" by (simp add: unlinked_def upd_proc_def fun_upd_def)
  show "unlinked (upd_rq s c h) = unlinked s" by (simp add: unlinked_def upd_rq_def)
qed

lemma rq_push_unlinked [simp]: "unlinked (rq_push s c p l) = unlinked s"
  by (simp add: rq_push_def Let_def)

lemma rq_pop_unlinked: "unlinked (snd (rq_pop s c l)) = unlinked s"
  by (simp add: rq_pop_def Let_def)

lemma rq_unlink_unlinked [simp]: "unlinked (rq_unlink s c l prev p) = unlinked s"
  by (simp add: rq_unlink_def Let_def)

lemma rep_qset:
  assumes rep: "rep s Q"
    and here: "queue_at (nexts s') (g_runqueues s' c) l xs"
    and others: "\<And>c' l'. (c', l') \<noteq> (c, l) \<Longrightarrow> queue_at (nexts s') (g_runqueues s' c') l' (Q c' l')"
    and new: "\<And>p c' l'. p \<in> set xs \<Longrightarrow> (c', l') \<noteq> (c, l) \<Longrightarrow> p \<notin> set (Q c' l')"
  shows "rep s' (qset Q c l xs)"
  unfolding rep_def
proof (intro conjI allI impI)
  fix c' l'
  show "queue_at (nexts s') (g_runqueues s' c') l' (qset Q c l xs c' l')"
    using here others[of c' l'] by (auto simp: qset_def)
next
  fix c1 l1 c2 l2 p
  assume p1: "p \<in> set (qset Q c l xs c1 l1)" and p2: "p \<in> set (qset Q c l xs c2 l2)"
  have here1: "(c1, l1) = (c, l) \<Longrightarrow> p \<in> set xs" and there1: "(c1, l1) \<noteq> (c, l) \<Longrightarrow> p \<in> set (Q c1 l1)"
    using p1 by (auto simp: qset_def split: if_splits)
  have here2: "(c2, l2) = (c, l) \<Longrightarrow> p \<in> set xs" and there2: "(c2, l2) \<noteq> (c, l) \<Longrightarrow> p \<in> set (Q c2 l2)"
    using p2 by (auto simp: qset_def split: if_splits)
  have "(c1, l1) = (c2, l2)"
    using here1 there1 here2 there2 new rep_unique[OF rep] by (metis prod.inject)
  then show "c1 = c2" and "l1 = l2" by auto
qed

text \<open>Pushing appends.\<close>

lemma rq_push_links:
  "nexts (rq_push s c p l) =
     (let t = rq_tail (g_runqueues s c) l in if t = 0 then (nexts s)(p := 0) else (nexts s)(p := 0, t := p))"
  "g_runqueues (rq_push s c p l) =
     (g_runqueues s)(c := (g_runqueues s c)
        \<lparr>rq_head := (rq_head (g_runqueues s c))(l := (if rq_tail (g_runqueues s c) l = 0 then p else rq_head (g_runqueues s c) l)),
         rq_tail := (rq_tail (g_runqueues s c))(l := p),
         rq_count := (rq_count (g_runqueues s c))(l := rq_count (g_runqueues s c) l + 1)\<rparr>)"
  by (auto simp: rq_push_def Let_def nexts_upd_link)

lemma queue_at_cong:
  "(\<And>x. x \<in> set xs \<Longrightarrow> nx x = nx' x) \<Longrightarrow> rq_head rq l = rq_head rq' l \<Longrightarrow> rq_tail rq l = rq_tail rq' l \<Longrightarrow>
     rq_count rq l = rq_count rq' l \<Longrightarrow> queue_at nx rq l xs = queue_at nx' rq' l xs"
  using chain_cong[of xs nx nx'] by (simp add: queue_at_def)

lemma rep_push:
  assumes rep: "rep s Q" and p: "p \<noteq> 0" and fresh: "\<not> queued Q p"
  shows "rep (rq_push s c p l) (qset Q c l (Q c l @ [p]))"
proof (rule rep_qset[OF rep])
  have pf: "p \<notin> set (Q c' l')" for c' l' using fresh by (auto simp: queued_def)
  have t0: "(rq_tail (g_runqueues s c) l = 0) = (Q c l = [])"
    using rep_tail[OF rep] rep_nonzero[OF rep] by (metis last_in_set last_or_null_def)
  have here: "chain (nexts s) (rq_head (g_runqueues s c) l) (Q c l)" using rep_chain[OF rep] .
  show "queue_at (nexts (rq_push s c p l)) (g_runqueues (rq_push s c p l) c) l (Q c l @ [p])"
  proof (cases "Q c l = []")
    case True
    then show ?thesis using p t0 rep_count[OF rep, of c l] by (simp add: queue_at_def rq_push_links last_or_null_def)
  next
    case False
    then show ?thesis
      using chain_snoc[OF here False rep_distinct[OF rep] p pf] t0 rep_count[OF rep, of c l] rep_tail[OF rep, of c l]
        rep_distinct[OF rep, of c l] pf[of c l]
      by (simp add: queue_at_def rq_push_links last_or_null_def)
  qed
  show "queue_at (nexts (rq_push s c p l)) (g_runqueues (rq_push s c p l) c') l' (Q c' l')" if "(c', l') \<noteq> (c, l)" for c' l'
  proof -
    have "rq_tail (g_runqueues s c) l \<noteq> 0 \<Longrightarrow> rq_tail (g_runqueues s c) l \<in> set (Q c l)"
      using rep_tail[OF rep, of c l] t0 by (simp add: last_or_null_def)
    then have "x \<noteq> rq_tail (g_runqueues s c) l" if "x \<in> set (Q c' l')" for x
      using rep_unique[OF rep] that \<open>(c', l') \<noteq> (c, l)\<close> rep_nonzero[OF rep] by (metis prod.inject)
    moreover have "x \<noteq> p" if "x \<in> set (Q c' l')" for x using pf that by blast
    ultimately have "x \<in> set (Q c' l') \<Longrightarrow> nexts (rq_push s c p l) x = nexts s x" for x
      by (auto simp: rq_push_links(1) Let_def)
    then show ?thesis
      using rep_queue[OF rep, of c' l'] that
        queue_at_cong[of "Q c' l'" "nexts (rq_push s c p l)" "nexts s" "g_runqueues (rq_push s c p l) c'" l' "g_runqueues s c'"]
      by (auto simp: rq_push_links(2))
  qed
  show "q \<notin> set (Q c' l')" if "q \<in> set (Q c l @ [p])" "(c', l') \<noteq> (c, l)" for q c' l'
    using that pf rep_unique[OF rep] by (metis Un_iff empty_iff prod.inject set_append set_ConsD set_empty)
qed

text \<open>Popping takes the head.\<close>

lemma rep_pop_empty: "rep s Q \<Longrightarrow> Q c l = [] \<Longrightarrow> rq_pop s c l = (0, s)"
  using rep_head[of s Q c l] by (simp add: rq_pop_def)

lemma rq_pop_links:
  assumes "rq_head (g_runqueues s c) l = p" "p \<noteq> 0"
  shows "fst (rq_pop s c l) = p"
    and "nexts (snd (rq_pop s c l)) = (nexts s)(p := 0)"
    and "g_runqueues (snd (rq_pop s c l)) =
     (g_runqueues s)(c := (g_runqueues s c)
        \<lparr>rq_head := (rq_head (g_runqueues s c))(l := nexts s p),
         rq_tail := (rq_tail (g_runqueues s c))(l := (if nexts s p = 0 then 0 else rq_tail (g_runqueues s c) l)),
         rq_count := (rq_count (g_runqueues s c))(l := rq_count (g_runqueues s c) l - 1)\<rparr>)"
  using assms by (auto simp: rq_pop_def Let_def nexts_upd_link nexts_def)

lemma rep_pop:
  assumes rep: "rep s Q" and q: "Q c l = p # ps"
  shows "fst (rq_pop s c l) = p" and "rep (snd (rq_pop s c l)) (qset Q c l ps)"
proof -
  have ch: "chain (nexts s) (rq_head (g_runqueues s c) l) (p # ps)" using rep_chain[OF rep, of c l] q by simp
  then have h: "rq_head (g_runqueues s c) l = p" and p0: "p \<noteq> 0" and ch': "chain (nexts s) (nexts s p) ps" by auto
  note links = rq_pop_links[OF h p0]
  show "fst (rq_pop s c l) = p" by (rule links(1))
  have d: "p \<notin> set ps" "distinct ps" using rep_distinct[OF rep, of c l] q by auto
  show "rep (snd (rq_pop s c l)) (qset Q c l ps)"
  proof (rule rep_qset[OF rep])
    show "queue_at (nexts (snd (rq_pop s c l))) (g_runqueues (snd (rq_pop s c l)) c) l ps"
      using ch' d chain_head[OF ch'] rep_tail[OF rep, of c l] rep_count[OF rep, of c l] q
      by (auto simp: queue_at_def links(2,3) last_or_null_def)
    show "queue_at (nexts (snd (rq_pop s c l))) (g_runqueues (snd (rq_pop s c l)) c') l' (Q c' l')"
      if "(c', l') \<noteq> (c, l)" for c' l'
    proof -
      have "p \<notin> set (Q c' l')" using rep_unique[OF rep, of p c l c' l'] q that by auto
      then show ?thesis using rep_queue[OF rep, of c' l'] that by (auto simp: queue_at_def links(2,3))
    qed
    show "x \<notin> set (Q c' l')" if "x \<in> set ps" "(c', l') \<noteq> (c, l)" for x c' l'
      using rep_unique[OF rep, of x c l c' l'] q that by auto
  qed
qed

text \<open>The contract of a family of first-in first-out queues, and that it gives back what was pushed in order.\<close>

locale fifo_queues =
  fixes holds :: "'s \<Rightarrow> queues \<Rightarrow> bool"
    and push :: "'s \<Rightarrow> nat \<Rightarrow> nat \<Rightarrow> nat \<Rightarrow> 's"
    and pop :: "'s \<Rightarrow> nat \<Rightarrow> nat \<Rightarrow> nat \<times> 's"
  assumes push_appends: "holds s Q \<Longrightarrow> p \<noteq> 0 \<Longrightarrow> \<not> queued Q p \<Longrightarrow> holds (push s c p l) (qset Q c l (Q c l @ [p]))"
    and pop_none: "holds s Q \<Longrightarrow> Q c l = [] \<Longrightarrow> pop s c l = (0, s)"
    and pop_head: "holds s Q \<Longrightarrow> Q c l = p # ps \<Longrightarrow> \<exists>s'. pop s c l = (p, s') \<and> holds s' (qset Q c l ps)"
begin

primrec push_all :: "'s \<Rightarrow> nat \<Rightarrow> nat list \<Rightarrow> nat \<Rightarrow> 's" where
  "push_all s c [] l = s"
| "push_all s c (p # ps) l = push_all (push s c p l) c ps l"

primrec pop_all :: "'s \<Rightarrow> nat \<Rightarrow> nat \<Rightarrow> nat \<Rightarrow> nat list" where
  "pop_all s c l 0 = []"
| "pop_all s c l (Suc n) = (case pop s c l of (p, s') \<Rightarrow> p # pop_all s' c l n)"

lemma push_all_appends:
  "holds s Q \<Longrightarrow> distinct ps \<Longrightarrow> 0 \<notin> set ps \<Longrightarrow> (\<And>p. p \<in> set ps \<Longrightarrow> \<not> queued Q p) \<Longrightarrow>
     holds (push_all s c ps l) (qset Q c l (Q c l @ ps))"
proof (induction ps arbitrary: s Q)
  case (Cons p ps)
  let ?Q = "qset Q c l (Q c l @ [p])"
  have "\<not> queued ?Q q" if "q \<in> set ps" for q
    using that Cons.prems(2,4) by (auto simp: queued_def qset_def split: if_splits)
  then have "holds (push_all (push s c p l) c ps l) (qset ?Q c l (?Q c l @ ps))"
    using Cons.prems push_appends[of s Q p c l] by (intro Cons.IH) auto
  moreover have "qset ?Q c l (?Q c l @ ps) = qset Q c l (Q c l @ p # ps)" by (simp add: qset_def)
  ultimately show ?case by simp
qed (simp add: qset_def)

lemma pop_all_content: "holds s Q \<Longrightarrow> n \<le> length (Q c l) \<Longrightarrow> pop_all s c l n = take n (Q c l)"
proof (induction n arbitrary: s Q)
  case (Suc n)
  then obtain p ps where q: "Q c l = p # ps" by (cases "Q c l") auto
  with pop_head Suc.prems obtain s' where "pop s c l = (p, s')" "holds s' (qset Q c l ps)" by blast
  then show ?case using Suc q by (simp add: qset_def)
qed simp

lemma in_order:
  assumes "holds s Q" "distinct ps" "0 \<notin> set ps" "\<And>p. p \<in> set ps \<Longrightarrow> \<not> queued Q p" "Q c l = []"
  shows "pop_all (push_all s c ps l) c l (length ps) = ps"
  using pop_all_content[OF push_all_appends[OF assms(1-4)], of "length ps" c l c l] assms(5) by (simp add: qset_def)

end

interpretation rq: fifo_queues rep rq_push rq_pop
  by unfold_locales (auto simp: rep_push rep_pop_empty intro: rep_pop prod.collapse[symmetric] exI[of _ "snd _"] dest: rep_pop)

section \<open>Taking the best, and taking one out\<close>

text \<open>The first process of the first level that has one.\<close>

definition best_level :: "queues \<Rightarrow> nat \<Rightarrow> nat option" where
  "best_level Q c = find (\<lambda>l. Q c l \<noteq> []) [0..<SCHED_NUM_LEVELS]"

lemma pop_levels_rep:
  "rep s Q \<Longrightarrow> pop_levels s c ls =
     (case find (\<lambda>l. Q c l \<noteq> []) ls of None \<Rightarrow> (0, s) | Some l \<Rightarrow> rq_pop s c l)"
proof (induction ls)
  case (Cons l ls)
  show ?case
  proof (cases "Q c l")
    case Nil
    then show ?thesis using Cons rep_pop_empty[OF Cons.prems Nil] by simp
  next
    case (Cons p ps)
    have "p \<noteq> 0" using rep_nonzero[OF Cons.prems, of c l] Cons by auto
    then show ?thesis using rep_pop(1)[OF Cons.prems Cons] Cons by (cases "rq_pop s c l") auto
  qed
qed simp

lemma rep_pop_highest:
  assumes rep: "rep s Q"
  shows "best_level Q c = None \<Longrightarrow> rq_pop_highest s c = (0, s)"
    and "best_level Q c = Some l \<Longrightarrow> \<exists>s'. rq_pop_highest s c = (hd (Q c l), s') \<and> Q c l \<noteq> [] \<and> l < SCHED_NUM_LEVELS \<and>
           rep s' (qset Q c l (tl (Q c l))) \<and> unlinked s' = unlinked s"
proof -
  show "best_level Q c = None \<Longrightarrow> rq_pop_highest s c = (0, s)"
    using pop_levels_rep[OF rep] by (simp add: rq_pop_highest_def best_level_def)
  assume l: "best_level Q c = Some l"
  then obtain p ps where q: "Q c l = p # ps" and lv: "l < SCHED_NUM_LEVELS"
    by (auto simp: best_level_def find_Some_iff neq_Nil_conv)
  have "rq_pop_highest s c = rq_pop s c l"
    using pop_levels_rep[OF rep] l by (simp add: rq_pop_highest_def best_level_def)
  then show "\<exists>s'. rq_pop_highest s c = (hd (Q c l), s') \<and> Q c l \<noteq> [] \<and> l < SCHED_NUM_LEVELS \<and>
      rep s' (qset Q c l (tl (Q c l))) \<and> unlinked s' = unlinked s"
    using rep_pop[OF rep q] rq_pop_unlinked[of s c l] q lv by (intro exI[of _ "snd (rq_pop s c l)"]) (simp add: prod_eq_iff)
qed

lemma rep_total: "rep s Q \<Longrightarrow> rq_total s c = (\<Sum>l<SCHED_NUM_LEVELS. length (Q c l))"
  by (simp add: rq_total_def rep_count sum_list_sum_nth atLeast0LessThan)

text \<open>The walk to a process.\<close>

lemma find_prev_chain:
  "chain (nexts s) h xs \<Longrightarrow>
     find_prev s p prev h =
       Some (if p \<in> set xs then Some (let ys = takeWhile (\<lambda>x. x \<noteq> p) xs in if ys = [] then prev else last ys) else None)"
proof (induction xs arbitrary: h prev)
  case Nil
  then show ?case by (subst find_prev.simps) simp
next
  case (Cons x xs)
  then have h: "h = x" "x \<noteq> 0" and ch: "chain (nexts s) (nexts s x) xs" by auto
  show ?case
  proof (cases "x = p")
    case True
    then show ?thesis using h by (subst find_prev.simps) simp
  next
    case False
    have "find_prev s p prev h = find_prev s p x (nexts s x)" using h False by (subst find_prev.simps) (simp add: nexts_def)
    then show ?thesis using Cons.IH[OF ch, of x] False h by (auto simp: Let_def)
  qed
qed

lemma find_prev_rep:
  assumes "rep s Q"
  shows "find_prev s p 0 (rq_head (g_runqueues s c) l) =
    Some (if p \<in> set (Q c l) then Some (last_or_null (takeWhile (\<lambda>x. x \<noteq> p) (Q c l))) else None)"
  using find_prev_chain[OF rep_chain[OF assms], of p 0 c l] by (simp add: last_or_null_def Let_def)

text \<open>Unlinking a process from the middle.\<close>

lemma rq_unlink_links:
  assumes "prev \<noteq> p"
  shows "nexts (rq_unlink s c l prev p) =
      (if prev = 0 then (nexts s)(p := 0) else (nexts s)(prev := nexts s p, p := 0))"
    and "g_runqueues (rq_unlink s c l prev p) =
     (g_runqueues s)(c := (g_runqueues s c)
        \<lparr>rq_head := (rq_head (g_runqueues s c))(l := (if prev = 0 then nexts s p else rq_head (g_runqueues s c) l)),
         rq_tail := (rq_tail (g_runqueues s c))(l := (if rq_tail (g_runqueues s c) l = p then prev else rq_tail (g_runqueues s c) l)),
         rq_count := (rq_count (g_runqueues s c))(l := rq_count (g_runqueues s c) l - 1)\<rparr>)"
  using assms by (auto simp: rq_unlink_def Let_def nexts_upd_link nexts_def)

lemma rep_unlink:
  assumes rep: "rep s Q" and q: "Q c l = xs @ p # ys"
  shows "rep (rq_unlink s c l (last_or_null xs) p) (qset Q c l (xs @ ys))"
proof (rule rep_qset[OF rep])
  have d: "distinct (xs @ p # ys)" using rep_distinct[OF rep, of c l] q by simp
  have ch: "chain (nexts s) (rq_head (g_runqueues s c) l) (xs @ p # ys)" using rep_chain[OF rep, of c l] q by simp
  have nz: "0 \<notin> set (xs @ p # ys)" using chain_nonzero[OF ch] .
  have l0: "(last_or_null xs = 0) = (xs = [])" using nz by (metis last_in_set last_or_null_def in_set_conv_decomp append_Cons append_assoc)
  have lp: "last_or_null xs \<noteq> p" using d nz by (auto simp: last_or_null_def split: if_splits)
  note links = rq_unlink_links[OF lp, of s c l]
  show "queue_at (nexts (rq_unlink s c l (last_or_null xs) p)) (g_runqueues (rq_unlink s c l (last_or_null xs) p) c) l (xs @ ys)"
    unfolding queue_at_def
  proof (intro conjI)
    show "chain (nexts (rq_unlink s c l (last_or_null xs) p)) (rq_head (g_runqueues (rq_unlink s c l (last_or_null xs) p) c) l) (xs @ ys)"
    proof (cases "xs = []")
      case True
      then have "chain ((nexts s)(p := 0)) (nexts s p) ys" using ch d by (simp del: fun_upd_apply)
      then show ?thesis using True l0 unfolding links by simp
    next
      case False
      then show ?thesis using chain_remove[OF ch d False] l0 unfolding links by (simp add: last_or_null_def)
    qed
    show "rq_tail (g_runqueues (rq_unlink s c l (last_or_null xs) p) c) l = last_or_null (xs @ ys)"
      using rep_tail[OF rep, of c l] q d unfolding links by (auto simp: last_or_null_def)
    show "rq_count (g_runqueues (rq_unlink s c l (last_or_null xs) p) c) l = length (xs @ ys)"
      using rep_count[OF rep, of c l] q by (simp add: links)
    show "distinct (xs @ ys)" using d by simp
  qed
  show "queue_at (nexts (rq_unlink s c l (last_or_null xs) p)) (g_runqueues (rq_unlink s c l (last_or_null xs) p) c') l' (Q c' l')"
    if "(c', l') \<noteq> (c, l)" for c' l'
  proof -
    have "p \<notin> set (Q c' l')" using rep_unique[OF rep, of p c l c' l'] q that by auto
    moreover have "last_or_null xs \<notin> set (Q c' l')"
      using rep_unique[OF rep, of "last_or_null xs" c l c' l'] rep_nonzero[OF rep, of c' l'] q that
      by (auto simp: last_or_null_def split: if_splits)
    ultimately show ?thesis using rep_queue[OF rep, of c' l'] that by (auto simp: queue_at_def links)
  qed
  show "x \<notin> set (Q c' l')" if "x \<in> set (xs @ ys)" "(c', l') \<noteq> (c, l)" for x c' l'
    using rep_unique[OF rep, of x c l c' l'] q that by auto
qed

lemma split_takeWhile:
  "p \<in> set xs \<Longrightarrow> distinct xs \<Longrightarrow> \<exists>ys. xs = takeWhile (\<lambda>x. x \<noteq> p) xs @ p # ys \<and> removeAll p xs = takeWhile (\<lambda>x. x \<noteq> p) xs @ ys"
  by (induction xs) auto

lemma qdel_qset: "rep s Q \<Longrightarrow> p \<in> set (Q c l) \<Longrightarrow> qset Q c l (removeAll p (Q c l)) = qdel Q p"
proof (intro ext)
  fix c' l'
  assume "rep s Q" "p \<in> set (Q c l)"
  then have "(c', l') = (c, l) \<or> p \<notin> set (Q c' l')" using rep_unique[of s Q p c l c' l'] by auto
  then show "qset Q c l (removeAll p (Q c l)) c' l' = qdel Q p c' l'" by (auto simp: qset_def qdel_def)
qed

lemma qdel_fresh: "\<not> queued Q p \<Longrightarrow> qdel Q p = Q"
  by (intro ext) (auto simp: qdel_def queued_def)

lemma rep_unlink_qdel:
  assumes "rep s Q" "p \<in> set (Q c l)"
  shows "rep (rq_unlink s c l (last_or_null (takeWhile (\<lambda>x. x \<noteq> p) (Q c l))) p) (qdel Q p)"
proof -
  obtain ys where "Q c l = takeWhile (\<lambda>x. x \<noteq> p) (Q c l) @ p # ys"
      "removeAll p (Q c l) = takeWhile (\<lambda>x. x \<noteq> p) (Q c l) @ ys"
    using split_takeWhile[OF assms(2) rep_distinct[OF assms(1)]] by blast
  then show ?thesis using rep_unlink[OF assms(1)] qdel_qset[OF assms] by metis
qed

lemma dequeue_levels_rep:
  "rep s Q \<Longrightarrow> \<exists>s'. dequeue_levels s c p ls = Some s' \<and> unlinked s' = unlinked s \<and>
     rep s' (if \<exists>l\<in>set ls. p \<in> set (Q c l) then qdel Q p else Q)"
proof (induction ls)
  case (Cons l ls)
  show ?case
  proof (cases "p \<in> set (Q c l)")
    case True
    then show ?thesis using find_prev_rep[OF Cons.prems, of p c l] rep_unlink_qdel[OF Cons.prems] by simp
  next
    case False
    then show ?thesis using Cons find_prev_rep[OF Cons.prems, of p c l] by simp
  qed
qed simp

lemma rep_dequeue:
  assumes rep: "rep s Q" and home: "\<And>c l. p \<in> set (Q c l) \<Longrightarrow> c = sched_cpu (procs s p) \<and> c < MAX_CPUS \<and> l < SCHED_NUM_LEVELS"
  obtains s' where "scheduler_dequeue s p = Some s'" "unlinked s' = unlinked s" "rep s' (qdel Q p)"
proof -
  have "\<exists>s'. scheduler_dequeue s p = Some s' \<and> unlinked s' = unlinked s \<and> rep s' (qdel Q p)"
  proof (cases "p = 0 \<or> sched_cpu (procs s p) \<ge> MAX_CPUS")
    case True
    then have "p \<notin> set (Q c l)" for c l using rep_nonzero[OF rep, of c l] home[of c l] by auto
    then have "\<not> queued Q p" by (simp add: queued_def)
    then show ?thesis using True rep by (auto simp: scheduler_dequeue_def qdel_fresh)
  next
    case False
    let ?here = "\<exists>l\<in>set [0..<SCHED_NUM_LEVELS]. p \<in> set (Q (sched_cpu (procs s p)) l)"
    have "\<not> ?here \<Longrightarrow> \<not> queued Q p" using home by (auto simp: queued_def)
    then have "(if ?here then qdel Q p else Q) = qdel Q p" by (simp add: qdel_fresh)
    then show ?thesis
      using False dequeue_levels_rep[OF rep, of "sched_cpu (procs s p)" p "[0..<SCHED_NUM_LEVELS]"]
      by (simp add: scheduler_dequeue_def)
  qed
  then show ?thesis using that by blast
qed

end
