(* ===== verification/Sched_Inv.thy ===== *)
theory Sched_Inv
  imports Sched_Queue
begin

text \<open>
  The invariant of the scheduler over its state, the context switches in progress (\<open>w c\<close>: the contexts that CPU
  \<open>c\<close> is leaving and entering) and the contents of the run queues, and that the operations of
  \<^verbatim>\<open>scheduler.c\<close> preserve it.
\<close>

section \<open>The invariant\<close>

type_synonym window = "nat \<Rightarrow> switch"

definition machine_ok :: "sched \<Rightarrow> bool" where
  "machine_ok s \<longleftrightarrow>
     0 < online_cpu_count s \<and> online_cpu_count s \<le> g_cpu_count s \<and> g_cpu_count s \<le> MAX_CPUS \<and>
     (\<forall>c<online_cpu_count s. cpu_online s c) \<and> master_core s < online_cpu_count s \<and>
     (\<forall>c<MAX_CPUS. ap_idle s c \<noteq> 0) \<and> inj_on (ap_idle s) {..<MAX_CPUS}"

text \<open>A context is live on a CPU while the CPU runs it or is still leaving it.\<close>

definition live :: "sched \<Rightarrow> window \<Rightarrow> nat \<Rightarrow> nat \<Rightarrow> bool" where
  "live s w c p \<longleftrightarrow> p \<noteq> 0 \<and> (current_process s c = p \<or> (\<exists>n. w c = Some (p, n)))"

definition belongs :: "sched \<Rightarrow> nat \<Rightarrow> nat \<Rightarrow> bool" where
  "belongs s p c \<longleftrightarrow>
     c < online_cpu_count s \<and>
     (p \<in> set (proc_list s) \<and> sched_cpu (procs s p) = c \<or> p = ap_idle s c \<and> c \<noteq> master_core s)"

definition process_ok :: "sched \<Rightarrow> nat \<Rightarrow> bool" where
  "process_ok s p \<longleftrightarrow>
     p \<noteq> 0 \<and> \<not> scheduler_is_idle_process s p \<and> sched_cpu (procs s p) < online_cpu_count s \<and>
     sched_level (procs s p) < SCHED_NUM_LEVELS"

definition queued_ok :: "sched \<Rightarrow> nat \<Rightarrow> nat \<Rightarrow> nat \<Rightarrow> bool" where
  "queued_ok s c l p \<longleftrightarrow>
     p \<in> set (proc_list s) \<and> sched_cpu (procs s p) = c \<and> l < SCHED_NUM_LEVELS \<and> pstate (procs s p) = PROCESS_READY"

definition current_ok :: "sched \<Rightarrow> queues \<Rightarrow> nat \<Rightarrow> bool" where
  "current_ok s Q c \<longleftrightarrow>
     (let p = current_process s c
      in p \<noteq> 0 \<longrightarrow> \<not> queued Q p \<and> (p \<in> set (proc_list s) \<longrightarrow> pstate (procs s p) \<noteq> PROCESS_WAITING))"

definition leaving_ok :: "sched \<Rightarrow> nat \<Rightarrow> nat \<times> nat \<Rightarrow> bool" where
  "leaving_ok s c r \<longleftrightarrow>
     current_process s c = snd r \<and> fst r \<noteq> 0 \<and> fst r \<noteq> snd r \<and>
     (fst r \<in> set (proc_list s) \<longrightarrow>
        on_cpu (procs s (fst r)) \<and> (dead (procs s (fst r)) \<longrightarrow> g_deferred_reap s c = fst r))"

text \<open>The CPUs in \<open>X\<close> are in the middle of an operation: what they run may be in any state.\<close>

definition sinv :: "nat set \<Rightarrow> sched \<Rightarrow> window \<Rightarrow> queues \<Rightarrow> bool" where
  "sinv X s w Q \<longleftrightarrow>
     machine_ok s \<and> distinct (proc_list s) \<and>
     (\<forall>p\<in>set (proc_list s). process_ok s p) \<and>
     (\<forall>c l. \<forall>p\<in>set (Q c l). queued_ok s c l p) \<and>
     (\<forall>c p. live s w c p \<longrightarrow> belongs s p c) \<and>
     (\<forall>c. c \<notin> X \<longrightarrow> current_ok s Q c) \<and>
     (\<forall>c r. w c = Some r \<longrightarrow> leaving_ok s c r)"

lemma inv_machine: "sinv X s w Q \<Longrightarrow> machine_ok s" by (simp add: sinv_def)
lemma inv_process: "sinv X s w Q \<Longrightarrow> p \<in> set (proc_list s) \<Longrightarrow> process_ok s p" by (simp add: sinv_def)
lemma inv_queued: "sinv X s w Q \<Longrightarrow> p \<in> set (Q c l) \<Longrightarrow> queued_ok s c l p" by (simp add: sinv_def)
lemma inv_live: "sinv X s w Q \<Longrightarrow> live s w c p \<Longrightarrow> belongs s p c" unfolding sinv_def by blast
lemma inv_current: "sinv X s w Q \<Longrightarrow> c \<notin> X \<Longrightarrow> current_ok s Q c" by (simp add: sinv_def)
lemma inv_leaving: "sinv X s w Q \<Longrightarrow> w c = Some r \<Longrightarrow> leaving_ok s c r" unfolding sinv_def by blast

lemma invI:
  assumes "machine_ok s" "distinct (proc_list s)" "\<And>p. p \<in> set (proc_list s) \<Longrightarrow> process_ok s p"
    "\<And>c l p. p \<in> set (Q c l) \<Longrightarrow> queued_ok s c l p" "\<And>c p. live s w c p \<Longrightarrow> belongs s p c"
    "\<And>c. c \<notin> X \<Longrightarrow> current_ok s Q c" "\<And>c r. w c = Some r \<Longrightarrow> leaving_ok s c r"
  shows "sinv X s w Q"
  using assms unfolding sinv_def by blast

lemma inv_weaken: "sinv X s w Q \<Longrightarrow> X \<subseteq> Y \<Longrightarrow> sinv Y s w Q"
  unfolding sinv_def by blast

text \<open>The invariant looks at a part of the state.\<close>

definition view where
  "view s = ((online_cpu_count s, g_cpu_count s, cpu_online s, master_core s, ap_idle s),
     proc_list s, current_process s, g_deferred_reap s,
     \<lambda>p. if p \<in> set (proc_list s)
         then Some (pstate (procs s p), sched_cpu (procs s p), sched_level (procs s p), on_cpu (procs s p)) else None)"

lemma view_fields:
  assumes "view s' = view s"
  shows "online_cpu_count s' = online_cpu_count s" "g_cpu_count s' = g_cpu_count s" "cpu_online s' = cpu_online s"
    "master_core s' = master_core s" "ap_idle s' = ap_idle s" "proc_list s' = proc_list s"
    "current_process s' = current_process s" "g_deferred_reap s' = g_deferred_reap s"
    and "p \<in> set (proc_list s) \<Longrightarrow> pstate (procs s' p) = pstate (procs s p) \<and> sched_cpu (procs s' p) = sched_cpu (procs s p) \<and>
          sched_level (procs s' p) = sched_level (procs s p) \<and> on_cpu (procs s' p) = on_cpu (procs s p)"
proof -
  note eq = assms[unfolded view_def prod.inject]
  show "online_cpu_count s' = online_cpu_count s" "g_cpu_count s' = g_cpu_count s" "cpu_online s' = cpu_online s"
    "master_core s' = master_core s" "ap_idle s' = ap_idle s" "proc_list s' = proc_list s"
    "current_process s' = current_process s" "g_deferred_reap s' = g_deferred_reap s"
    using eq by simp_all
  assume "p \<in> set (proc_list s)"
  moreover have "(if p \<in> set (proc_list s') then Some (pstate (procs s' p), sched_cpu (procs s' p), sched_level (procs s' p), on_cpu (procs s' p)) else None) =
      (if p \<in> set (proc_list s) then Some (pstate (procs s p), sched_cpu (procs s p), sched_level (procs s p), on_cpu (procs s p)) else None)"
    using eq by (blast dest: fun_cong)
  ultimately show "pstate (procs s' p) = pstate (procs s p) \<and> sched_cpu (procs s' p) = sched_cpu (procs s p) \<and>
      sched_level (procs s' p) = sched_level (procs s p) \<and> on_cpu (procs s' p) = on_cpu (procs s p)"
    using eq by simp
qed

lemma inv_view_imp:
  assumes v: "view s' = view s" and i: "sinv X s w Q"
  shows "sinv X s' w Q"
proof -
  note f = view_fields(1-8)[OF v]
  note g = view_fields(9)[OF v]
  show ?thesis
  proof (rule invI)
    show "machine_ok s'" using inv_machine[OF i] by (simp add: machine_ok_def f)
    show "distinct (proc_list s')" using i by (simp add: sinv_def f)
    show "process_ok s' p" if "p \<in> set (proc_list s')" for p
      using inv_process[OF i, of p] that g[of p] by (auto simp: process_ok_def scheduler_is_idle_process_def f)
    show "queued_ok s' c l p" if "p \<in> set (Q c l)" for c l p
      using inv_queued[OF i that] g[of p] by (simp add: queued_ok_def f)
    show "belongs s' p c" if "live s' w c p" for c p
      using inv_live[OF i, of c p] that g[of p] by (auto simp: live_def belongs_def f)
    show "current_ok s' Q c" if "c \<notin> X" for c
      using inv_current[OF i that] g[of "current_process s c"] by (simp add: current_ok_def f Let_def)
    show "leaving_ok s' c r" if "w c = Some r" for c r
      using inv_leaving[OF i that] g[of "fst r"] by (auto simp: leaving_ok_def dead_def f)
  qed
qed

lemma inv_view: "view s' = view s \<Longrightarrow> sinv X s' w Q = sinv X s w Q"
  using inv_view_imp by metis

lemma unlinked_procs:
  assumes "unlinked s' = unlinked s"
  shows "(procs s' p)\<lparr>rq_next := 0\<rparr> = (procs s p)\<lparr>rq_next := 0\<rparr>"
  using arg_cong[OF assms, where f = "\<lambda>s. procs s p"] by (simp add: unlinked_def)

lemma unlinked_field:
  assumes "unlinked s' = unlinked s" and "\<And>q x. f (q\<lparr>rq_next := x\<rparr>) = f q"
  shows "f (procs s' p) = f (procs s p)"
  using arg_cong[OF unlinked_procs[OF assms(1), of p], where f = f] assms(2) by simp

lemma unlinked_sel:
  assumes "unlinked s' = unlinked s" and "\<And>q x y. f (q\<lparr>procs := x, g_runqueues := y\<rparr>) = f q"
  shows "f s' = f s"
  using arg_cong[OF assms(1), where f = f] assms(2) by (simp add: unlinked_def)

lemma unlinked_fields:
  assumes "unlinked s' = unlinked s"
  shows "online_cpu_count s' = online_cpu_count s" "g_cpu_count s' = g_cpu_count s" "cpu_online s' = cpu_online s"
    "master_core s' = master_core s" "ap_idle s' = ap_idle s" "proc_list s' = proc_list s"
    "current_process s' = current_process s" "g_deferred_reap s' = g_deferred_reap s" "clock_ms s' = clock_ms s"
    "idle_named s' = idle_named s" "pid_counter s' = pid_counter s" "events s' = events s"
    and "pstate (procs s' p) = pstate (procs s p)" "sched_cpu (procs s' p) = sched_cpu (procs s p)"
    "sched_level (procs s' p) = sched_level (procs s p)" "on_cpu (procs s' p) = on_cpu (procs s p)"
    "user_privilege (procs s' p) = user_privilege (procs s p)" "pid (procs s' p) = pid (procs s p)"
    "kernel_stack (procs s' p) = kernel_stack (procs s p)" "cpu_time_ms (procs s' p) = cpu_time_ms (procs s p)"
    "cleanup_requested (procs s' p) = cleanup_requested (procs s p)"
    "cleanup_deadline_ms (procs s' p) = cleanup_deadline_ms (procs s p)"
  using unlinked_sel[OF assms, of online_cpu_count] unlinked_sel[OF assms, of g_cpu_count] unlinked_sel[OF assms, of cpu_online]
    unlinked_sel[OF assms, of master_core] unlinked_sel[OF assms, of ap_idle] unlinked_sel[OF assms, of proc_list]
    unlinked_sel[OF assms, of current_process] unlinked_sel[OF assms, of g_deferred_reap] unlinked_sel[OF assms, of clock_ms]
    unlinked_sel[OF assms, of idle_named] unlinked_sel[OF assms, of pid_counter] unlinked_sel[OF assms, of events]
    unlinked_field[OF assms, of pstate] unlinked_field[OF assms, of sched_cpu] unlinked_field[OF assms, of sched_level]
    unlinked_field[OF assms, of on_cpu] unlinked_field[OF assms, of user_privilege] unlinked_field[OF assms, of pid]
    unlinked_field[OF assms, of kernel_stack] unlinked_field[OF assms, of cpu_time_ms]
    unlinked_field[OF assms, of cleanup_requested] unlinked_field[OF assms, of cleanup_deadline_ms]
  by simp_all

lemma unlinked_view:
  assumes "unlinked s' = unlinked s"
  shows "view s' = view s"
  by (simp add: view_def unlinked_fields[OF assms] cong: if_cong)

lemma inv_unlinked: "unlinked s' = unlinked s \<Longrightarrow> sinv X s' w Q = sinv X s w Q"
  by (rule inv_view[OF unlinked_view])

lemma inv_sub:
  assumes i: "sinv X s w Q" and sub: "\<And>c l. set (Q' c l) \<subseteq> set (Q c l)"
  shows "sinv X s w Q'"
proof -
  have "queued Q' p \<Longrightarrow> queued Q p" for p using sub unfolding queued_def by blast
  then have "current_ok s Q c \<Longrightarrow> current_ok s Q' c" for c by (auto simp: current_ok_def Let_def)
  moreover have "queued_ok s c l p" if "p \<in> set (Q' c l)" for c l p using inv_queued[OF i] that sub by blast
  ultimately show ?thesis using i by (simp add: sinv_def)
qed

text \<open>A process lives on one CPU at most.\<close>

lemma idle_not_listed:
  assumes i: "sinv X s w Q" and c: "c < MAX_CPUS"
  shows "ap_idle s c \<notin> set (proc_list s)"
proof
  assume "ap_idle s c \<in> set (proc_list s)"
  from inv_process[OF i this] have "ap_idle s c \<noteq> 0" "\<not> scheduler_is_idle_process s (ap_idle s c)"
    by (simp_all add: process_ok_def)
  then show False using c by (auto simp: scheduler_is_idle_process_def list_ex_iff)
qed

lemma belongs_unique:
  assumes i: "sinv X s w Q" and b: "belongs s p c" and b': "belongs s p c'"
  shows "c = c'"
proof -
  have c: "c < MAX_CPUS" "c' < MAX_CPUS" using b b' inv_machine[OF i] by (auto simp: belongs_def machine_ok_def)
  have inj: "ap_idle s c = ap_idle s c' \<Longrightarrow> c = c'" using c inv_machine[OF i] by (simp add: machine_ok_def inj_on_def)
  show ?thesis using b b' idle_not_listed[OF i c(1)] idle_not_listed[OF i c(2)] inj by (auto simp: belongs_def)
qed

lemma live_unique: "sinv X s w Q \<Longrightarrow> live s w c p \<Longrightarrow> live s w c' p \<Longrightarrow> c = c'"
  using belongs_unique inv_live by metis

lemma queued_belongs: "sinv X s w Q \<Longrightarrow> p \<in> set (Q c l) \<Longrightarrow> belongs s p c"
  using inv_queued[of X s w Q p c l] inv_process[of X s w Q p] by (auto simp: queued_ok_def belongs_def process_ok_def)

section \<open>Elementary changes\<close>

lemma upd_proc_sel [simp]:
  "procs (upd_proc s p f) q = (if q = p then f (procs s p) else procs s q)"
  "online_cpu_count (upd_proc s p f) = online_cpu_count s" "g_cpu_count (upd_proc s p f) = g_cpu_count s"
  "cpu_online (upd_proc s p f) = cpu_online s" "master_core (upd_proc s p f) = master_core s"
  "ap_idle (upd_proc s p f) = ap_idle s" "proc_list (upd_proc s p f) = proc_list s"
  "current_process (upd_proc s p f) = current_process s" "g_deferred_reap (upd_proc s p f) = g_deferred_reap s"
  "clock_ms (upd_proc s p f) = clock_ms s" "idle_named (upd_proc s p f) = idle_named s" "events (upd_proc s p f) = events s"
  "scheduler_on (upd_proc s p f) = scheduler_on s" "g_global_tick_count (upd_proc s p f) = g_global_tick_count s"
  by (simp_all add: upd_proc_def)

lemma set_current_sel [simp]:
  "procs (set_current s c p) = procs s" "current_process (set_current s c p) = (current_process s)(c := p)"
  "online_cpu_count (set_current s c p) = online_cpu_count s" "g_cpu_count (set_current s c p) = g_cpu_count s"
  "cpu_online (set_current s c p) = cpu_online s" "master_core (set_current s c p) = master_core s"
  "ap_idle (set_current s c p) = ap_idle s" "proc_list (set_current s c p) = proc_list s"
  "g_deferred_reap (set_current s c p) = g_deferred_reap s" "g_runqueues (set_current s c p) = g_runqueues s"
  by (simp_all add: set_current_def)

lemma rep_upd_proc [simp]: "(\<And>q. rq_next (f q) = rq_next q) \<Longrightarrow> rep (upd_proc s p f) Q = rep s Q"
  by (rule rep_cong) auto

lemma rep_set_current [simp]: "rep (set_current s c p) Q = rep s Q"
  by (rule rep_cong) auto

text \<open>Changing a process without moving it to another CPU, level range or state.\<close>

lemma inv_upd:
  assumes i: "sinv X s w Q"
    and cpu: "sched_cpu (f (procs s p)) = sched_cpu (procs s p)"
    and level: "p \<in> set (proc_list s) \<Longrightarrow> sched_level (f (procs s p)) < SCHED_NUM_LEVELS"
    and ready: "queued Q p \<Longrightarrow> pstate (f (procs s p)) = PROCESS_READY"
    and awake: "\<And>c. c \<notin> X \<Longrightarrow> current_process s c = p \<Longrightarrow> p \<in> set (proc_list s) \<Longrightarrow> pstate (f (procs s p)) \<noteq> PROCESS_WAITING"
    and leaving: "\<And>c n. w c = Some (p, n) \<Longrightarrow> p \<in> set (proc_list s) \<Longrightarrow>
                    on_cpu (f (procs s p)) \<and> (dead (f (procs s p)) \<longrightarrow> g_deferred_reap s c = p)"
  shows "sinv X (upd_proc s p f) w Q"
proof (rule invI)
  show "machine_ok (upd_proc s p f)" using inv_machine[OF i] by (simp add: machine_ok_def)
  show "distinct (proc_list (upd_proc s p f))" using i by (simp add: sinv_def)
  show "process_ok (upd_proc s p f) q" if "q \<in> set (proc_list (upd_proc s p f))" for q
    using inv_process[OF i, of q] that cpu level by (auto simp: process_ok_def scheduler_is_idle_process_def)
  show "queued_ok (upd_proc s p f) c l q" if "q \<in> set (Q c l)" for c l q
    using inv_queued[OF i that] that cpu ready by (auto simp: queued_ok_def queued_def)
  show "belongs (upd_proc s p f) q c" if "live (upd_proc s p f) w c q" for c q
    using inv_live[OF i, of c q] that cpu by (auto simp: live_def belongs_def)
  show "current_ok (upd_proc s p f) Q c" if "c \<notin> X" for c
    using inv_current[OF i that] awake[OF that] by (auto simp: current_ok_def Let_def)
  show "leaving_ok (upd_proc s p f) c r" if "w c = Some r" for c r
    using inv_leaving[OF i that] leaving[of c "snd r"] that by (cases r) (auto simp: leaving_ok_def)
qed

lemma inv_deferred: "sinv X s w Q \<Longrightarrow> w c = None \<Longrightarrow> sinv X (s\<lparr>g_deferred_reap := (g_deferred_reap s)(c := p)\<rparr>) w Q"
  by (auto simp: sinv_def machine_ok_def process_ok_def scheduler_is_idle_process_def queued_ok_def live_def belongs_def
      current_ok_def leaving_ok_def)

lemma inv_push:
  assumes i: "sinv X s w Q" and p: "p \<in> set (proc_list s)" "sched_cpu (procs s p) = c" "pstate (procs s p) = PROCESS_READY"
    and l: "l < SCHED_NUM_LEVELS" and idle: "\<And>c. c \<notin> X \<Longrightarrow> current_process s c \<noteq> p"
  shows "sinv X (rq_push s c p l) w (qset Q c l (Q c l @ [p]))"
  unfolding inv_unlinked[OF rq_push_unlinked]
proof (rule invI)
  show "queued_ok s c' l' q" if "q \<in> set (qset Q c l (Q c l @ [p]) c' l')" for c' l' q
    using that inv_queued[OF i, of q c' l'] p l by (auto simp: qset_def queued_ok_def split: if_splits)
  show "current_ok s (qset Q c l (Q c l @ [p])) c'" if "c' \<notin> X" for c'
  proof -
    have "queued (qset Q c l (Q c l @ [p])) q \<Longrightarrow> q = p \<or> queued Q q" for q
      by (auto simp: queued_def qset_def split: if_splits)
    then show ?thesis using inv_current[OF i that] idle[OF that] by (auto simp: current_ok_def Let_def)
  qed
qed (use i in \<open>auto simp: sinv_def\<close>)

text \<open>A CPU takes another context.\<close>

lemma inv_set_current:
  assumes i: "sinv {c} s w Q" and n: "n \<noteq> 0" "belongs s n c" "\<not> queued Q n"
      "n \<in> set (proc_list s) \<Longrightarrow> pstate (procs s n) \<noteq> PROCESS_WAITING"
    and r: "\<And>old. r = Some (old, m) \<Longrightarrow> m = n \<and> old \<noteq> 0 \<and> old \<noteq> n \<and> belongs s old c \<and>
          (old \<in> set (proc_list s) \<longrightarrow> on_cpu (procs s old) \<and> (dead (procs s old) \<longrightarrow> g_deferred_reap s c = old))"
    and rm: "r = None \<or> (\<exists>old. r = Some (old, m))"
  shows "sinv {} (set_current s c n) (w(c := r)) Q"
proof (rule invI)
  show "machine_ok (set_current s c n)" using inv_machine[OF i] by (simp add: machine_ok_def)
  show "distinct (proc_list (set_current s c n))" using i by (simp add: sinv_def)
  show "process_ok (set_current s c n) q" if "q \<in> set (proc_list (set_current s c n))" for q
    using inv_process[OF i, of q] that by (auto simp: process_ok_def scheduler_is_idle_process_def)
  show "queued_ok (set_current s c n) c' l q" if "q \<in> set (Q c' l)" for c' l q
    using inv_queued[OF i that] by (simp add: queued_ok_def)
  show "belongs (set_current s c n) q c'" if "live (set_current s c n) (w(c := r)) c' q" for c' q
    using inv_live[OF i, of c' q] that n(2) r rm by (cases "c' = c") (auto simp: live_def belongs_def)
  show "current_ok (set_current s c n) Q c'" for c'
    using inv_current[OF i, of c'] n by (cases "c' = c") (auto simp: current_ok_def Let_def)
  show "leaving_ok (set_current s c n) c' r'" if "(w(c := r)) c' = Some r'" for c' r'
    using inv_leaving[OF i, of c' r'] that r rm by (cases "c' = c") (auto simp: leaving_ok_def)
qed

text \<open>The switch completes.\<close>

lemma switch_to_sel [simp]:
  "online_cpu_count (switch_to s o' n) = online_cpu_count s" "current_process (switch_to s o' n) = current_process s"
  "proc_list (switch_to s o' n) = proc_list s" "g_runqueues (switch_to s o' n) = g_runqueues s"
  by (simp_all add: switch_to_def Let_def)

lemma inv_window:
  assumes i: "sinv X s w Q" and sub: "\<And>c r. w' c = Some r \<Longrightarrow> w c = Some r"
  shows "sinv X s w' Q"
proof (rule invI)
  show "belongs s p c" if "live s w' c p" for c p
    using inv_live[OF i, of c p] that sub by (auto simp: live_def)
  show "leaving_ok s c r" if "w' c = Some r" for c r using inv_leaving[OF i sub[OF that]] .
qed (use i in \<open>auto simp: sinv_def\<close>)

lemma inv_queued_ready: "sinv X s w Q \<Longrightarrow> queued Q p \<Longrightarrow> pstate (procs s p) = PROCESS_READY"
  using inv_queued by (fastforce simp: queued_def queued_ok_def)

lemma inv_awake:
  "sinv X s w Q \<Longrightarrow> c \<notin> X \<Longrightarrow> current_process s c = p \<Longrightarrow> p \<in> set (proc_list s) \<Longrightarrow> pstate (procs s p) \<noteq> PROCESS_WAITING"
  using inv_current[of X s w Q c] inv_process[of X s w Q p] by (auto simp: current_ok_def process_ok_def Let_def)

lemma inv_level: "sinv X s w Q \<Longrightarrow> p \<in> set (proc_list s) \<Longrightarrow> sched_level (procs s p) < SCHED_NUM_LEVELS"
  using inv_process[of X s w Q p] by (simp add: process_ok_def)

lemma inv_left:
  "sinv X s w Q \<Longrightarrow> w c = Some (p, n) \<Longrightarrow> p \<in> set (proc_list s) \<Longrightarrow>
     on_cpu (procs s p) \<and> (dead (procs s p) \<longrightarrow> g_deferred_reap s c = p)"
  using inv_leaving[of X s w Q c "(p, n)"] by (simp add: leaving_ok_def)

lemma inv_on_cpu:
  assumes i: "sinv X s w Q" and "\<And>c n. w c = Some (p, n) \<Longrightarrow> p \<in> set (proc_list s) \<Longrightarrow> b"
  shows "sinv X (upd_proc s p (on_cpu_update (\<lambda>_. b))) w Q"
  by (rule inv_upd[OF i])
    (use assms(2) inv_left[OF i] inv_queued_ready[OF i] inv_awake[OF i] inv_level[OF i] in \<open>auto simp: dead_def\<close>)

lemma inv_switch_to:
  assumes i: "sinv X s w Q" and w: "w c = Some (p, n)"
  shows "sinv X (switch_to s p n) (w(c := None)) Q" and "rep (switch_to s p n) Q = rep s Q"
proof -
  have p: "p \<noteq> 0" using inv_leaving[OF i w] by (simp add: leaving_ok_def)
  have off: "sinv X s (w(c := None)) Q" by (rule inv_window[OF i]) (auto split: if_splits)
  have elsewhere: "w c' \<noteq> Some (p, m)" if "c' \<noteq> c" for c' m
    using live_unique[OF i, of c p c'] w p that by (auto simp: live_def)
  have "sinv X (upd_proc (upd_proc s n (on_cpu_update (\<lambda>_. True))) p (on_cpu_update (\<lambda>_. False))) (w(c := None)) Q"
    by (intro inv_on_cpu off) (use elsewhere in \<open>auto split: if_splits\<close>)
  then show "sinv X (switch_to s p n) (w(c := None)) Q" using p by (simp add: switch_to_def Let_def)
  show "rep (switch_to s p n) Q = rep s Q" by (rule rep_cong) (auto simp: switch_to_def Let_def)
qed

section \<open>Dispatch\<close>

lemma reap_sel [simp]:
  "procs (reap c s) = procs s" "g_runqueues (reap c s) = g_runqueues s" "current_process (reap c s) = current_process s"
  "online_cpu_count (reap c s) = online_cpu_count s" "g_cpu_count (reap c s) = g_cpu_count s"
  "cpu_online (reap c s) = cpu_online s" "master_core (reap c s) = master_core s" "ap_idle (reap c s) = ap_idle s"
  "g_deferred_reap (reap c s) = (g_deferred_reap s)(c := 0)" "idle_named (reap c s) = idle_named s"
  by (simp_all add: reap_def Let_def)

lemma reap_list: "set (proc_list (reap c s)) = {p \<in> set (proc_list s). \<not> reapable c (s\<lparr>g_deferred_reap := (g_deferred_reap s)(c := 0)\<rparr>) (g_deferred_reap s c) p}"
  by (auto simp: reap_def Let_def)

lemma current_found:
  "sinv X s w Q \<Longrightarrow> current_process s c = p \<Longrightarrow> p \<noteq> 0 \<Longrightarrow> process_is_current_on_any_cpu s p"
  using inv_live[of X s w Q c p] inv_machine[of X s w Q]
  by (auto simp: process_is_current_on_any_cpu_def live_def belongs_def machine_ok_def list_ex_iff Let_def intro!: bexI[of _ c])

lemma deferred_elsewhere:
  assumes "g_deferred_reap s c' = p" "c' \<noteq> c" "c' < MAX_CPUS"
  shows "is_deferred c s d p"
proof (cases "c' < c")
  case True
  then have "list_ex (\<lambda>i. p = g_deferred_reap s i) [0..<c]" using assms(1) by (auto simp: list_ex_iff)
  then show ?thesis by (simp add: is_deferred_def)
next
  case False
  then have "c' \<in> set [c + 1..<MAX_CPUS]" using assms(2,3) by simp
  then have "list_ex (\<lambda>i. p = g_deferred_reap s i) [c + 1..<MAX_CPUS]" using assms(1) unfolding list_ex_iff by blast
  then show ?thesis by (simp add: is_deferred_def)
qed

text \<open>Nothing that is queued, running or being left is reaped.\<close>

lemma reap_keeps:
  assumes i: "sinv X s w Q" and w: "w c = None" and p: "p \<in> set (proc_list s)" and use: "queued Q p \<or> live s w c' p"
  shows "p \<in> set (proc_list (reap c s))"
proof -
  let ?s = "s\<lparr>g_deferred_reap := (g_deferred_reap s)(c := 0)\<rparr>"
  consider "queued Q p" | "current_process s c' = p" "p \<noteq> 0" | n where "w c' = Some (p, n)" "c' \<noteq> c" "p \<noteq> 0"
    using use w unfolding live_def by (metis option.distinct(1))
  then have "\<not> reapable c ?s (g_deferred_reap s c) p"
  proof cases
    case 1
    then show ?thesis using inv_queued_ready[OF i] by (simp add: reapable_def dead_def)
  next
    case 2
    have "process_is_current_on_any_cpu ?s p = process_is_current_on_any_cpu s p"
      by (simp add: process_is_current_on_any_cpu_def)
    then show ?thesis using current_found[OF i 2] by (simp add: reapable_def)
  next
    case 3
    have "live s w c' p" using 3 by (simp add: live_def)
    then have "c' < MAX_CPUS" using inv_live[OF i, of c' p] inv_machine[OF i] by (simp add: belongs_def machine_ok_def)
    then have "dead (procs s p) \<Longrightarrow> is_deferred c ?s (g_deferred_reap s c) p"
      using inv_left[OF i 3(1) p] 3(2) by (intro deferred_elsewhere[of _ c']) auto
    then show ?thesis by (auto simp: reapable_def)
  qed
  then show ?thesis using p by (simp add: reap_list)
qed

lemma inv_reap:
  assumes i: "sinv X s w Q" and w: "w c = None"
  shows "sinv X (reap c s) w Q"
proof (rule invI)
  have sub: "p \<in> set (proc_list (reap c s)) \<Longrightarrow> p \<in> set (proc_list s)" for p by (simp add: reap_list)
  show "machine_ok (reap c s)" using inv_machine[OF i] by (simp add: machine_ok_def)
  show "distinct (proc_list (reap c s))" using i by (simp add: sinv_def reap_def Let_def)
  show "process_ok (reap c s) p" if "p \<in> set (proc_list (reap c s))" for p
    using inv_process[OF i sub[OF that]] by (auto simp: process_ok_def scheduler_is_idle_process_def)
  show "queued_ok (reap c s) c' l p" if "p \<in> set (Q c' l)" for c' l p
    using inv_queued[OF i that] reap_keeps[OF i w, of p] that by (auto simp: queued_ok_def queued_def)
  show "belongs (reap c s) p c'" if "live (reap c s) w c' p" for c' p
    using inv_live[OF i, of c' p] reap_keeps[OF i w, of p c'] that by (auto simp: live_def belongs_def)
  show "current_ok (reap c s) Q c'" if "c' \<notin> X" for c'
    using inv_current[OF i that] sub by (auto simp: current_ok_def Let_def)
  show "leaving_ok (reap c s) c' r" if "w c' = Some r" for c' r
    using inv_leaving[OF i that] sub w that by (auto simp: leaving_ok_def)
qed

lemma rep_reap [simp]: "rep (reap c s) Q = rep s Q"
  by (rule rep_cong) auto

end
