(* ===== verification/Sched_Dispatch.thy ===== *)
theory Sched_Dispatch
  imports Sched_Inv
begin

text \<open>
  \<^verbatim>\<open>schedule\<close> preserves the invariant and hands the CPU to the head of the best queue that is not empty; what it
  runs goes back to the end of the queue of its level.
\<close>

definition prepare :: "nat \<Rightarrow> sched \<Rightarrow> nat \<times> sched" where
  "prepare c s =
     (let s = reap c s; old = current_process s c;
          s = (if old \<noteq> 0 then upd_proc s old (on_cpu_update (\<lambda>_. True)) else s)
      in ap_idle_for c s)"

lemma schedule_prepare:
  "schedule c s =
     (case prepare c s of (idle, s1) \<Rightarrow>
        case pick_next c s1 of
          None \<Rightarrow> None
        | Some (p, s2) \<Rightarrow>
            Some (if p = 0 then stay_or_idle c s2 (current_process s c) idle
                  else dispatch c s2 (current_process s c) idle p))"
  by (simp only: schedule_def prepare_def Let_def reap_sel)

definition idle_of :: "sched \<Rightarrow> nat \<Rightarrow> nat" where
  "idle_of s c = (if c = master_core s then 0 else ap_idle s c)"

lemma inv_online: "sinv X s w Q \<Longrightarrow> c < online_cpu_count s \<Longrightarrow> c < MAX_CPUS"
  using inv_machine[of X s w Q] by (simp add: machine_ok_def)

lemma ap_idle_for_cases:
  assumes "c < MAX_CPUS"
  shows "fst (ap_idle_for c s) = idle_of s c"
    and "snd (ap_idle_for c s) = s \<or> snd (ap_idle_for c s) = upd_proc (s\<lparr>idle_named := (idle_named s)(c := True)\<rparr>) (ap_idle s c)
           (\<lambda>p. p\<lparr>sched_cpu := c, sched_level := SCHED_LEVEL_BACKGROUND\<rparr>)"
  using assms by (simp_all add: ap_idle_for_def Let_def idle_of_def)

lemma view_upd_unlisted: "p \<notin> set (proc_list s) \<Longrightarrow> view (upd_proc s p f) = view s"
  by (auto simp: view_def)

text \<open>Bookkeeping that the invariant does not look at.\<close>

lemma view_misc [simp]:
  "view (s\<lparr>idle_named := a\<rparr>) = view s" "view (s\<lparr>idle_cycles := n\<rparr>) = view s" "view (s\<lparr>tss_rsp0 := b\<rparr>) = view s"
  "view (s\<lparr>total_context_switches := n\<rparr>) = view s" "view (s\<lparr>clock_ms := n\<rparr>) = view s"
  "view (s\<lparr>g_global_tick_count := n\<rparr>) = view s" "view (s\<lparr>cpu_usage := u\<rparr>) = view s" "view (s\<lparr>events := e\<rparr>) = view s"
  "view (s\<lparr>pid_counter := n\<rparr>) = view s" "view (s\<lparr>scheduler_on := d\<rparr>) = view s"
  by (simp_all add: view_def cong: if_cong)

lemma rep_misc [simp]:
  "rep (s\<lparr>idle_named := a\<rparr>) Q = rep s Q" "rep (s\<lparr>idle_cycles := n\<rparr>) Q = rep s Q" "rep (s\<lparr>tss_rsp0 := b\<rparr>) Q = rep s Q"
  "rep (s\<lparr>total_context_switches := n\<rparr>) Q = rep s Q" "rep (s\<lparr>clock_ms := n\<rparr>) Q = rep s Q"
  "rep (s\<lparr>g_global_tick_count := n\<rparr>) Q = rep s Q" "rep (s\<lparr>cpu_usage := u\<rparr>) Q = rep s Q" "rep (s\<lparr>events := e\<rparr>) Q = rep s Q"
  "rep (s\<lparr>pid_counter := n\<rparr>) Q = rep s Q" "rep (s\<lparr>scheduler_on := d\<rparr>) Q = rep s Q" "rep (s\<lparr>g_deferred_reap := r\<rparr>) Q = rep s Q"
  by (rule rep_cong; simp)+

lemma inv_misc [simp]:
  "sinv X (s\<lparr>idle_named := a\<rparr>) w Q = sinv X s w Q" "sinv X (s\<lparr>idle_cycles := n\<rparr>) w Q = sinv X s w Q"
  "sinv X (s\<lparr>tss_rsp0 := b\<rparr>) w Q = sinv X s w Q" "sinv X (s\<lparr>total_context_switches := n\<rparr>) w Q = sinv X s w Q"
  "sinv X (s\<lparr>clock_ms := n\<rparr>) w Q = sinv X s w Q" "sinv X (s\<lparr>g_global_tick_count := n\<rparr>) w Q = sinv X s w Q"
  "sinv X (s\<lparr>cpu_usage := u\<rparr>) w Q = sinv X s w Q" "sinv X (s\<lparr>events := e\<rparr>) w Q = sinv X s w Q"
  "sinv X (s\<lparr>pid_counter := n\<rparr>) w Q = sinv X s w Q" "sinv X (s\<lparr>scheduler_on := d\<rparr>) w Q = sinv X s w Q"
  by (rule inv_view; simp)+

lemma prepare_ok:
  assumes i: "sinv X s w Q" and rep: "rep s Q" and w: "w c = None" and c: "c < online_cpu_count s"
  obtains s1 where "prepare c s = (idle_of s c, s1)" "rep s1 Q" "sinv X s1 w Q"
    "current_process s1 = current_process s" "master_core s1 = master_core s" "ap_idle s1 = ap_idle s"
    "online_cpu_count s1 = online_cpu_count s" "\<And>p. pstate (procs s1 p) = pstate (procs s p)"
    "\<And>p. p \<in> set (proc_list s) \<Longrightarrow> sched_level (procs s1 p) = sched_level (procs s p)"
    "current_process s c \<noteq> 0 \<Longrightarrow> on_cpu (procs s1 (current_process s c))"
    "proc_list s1 = proc_list (reap c s)"
proof -
  let ?old = "current_process s c"
  let ?r = "reap c s"
  let ?s = "if ?old \<noteq> 0 then upd_proc ?r ?old (on_cpu_update (\<lambda>_. True)) else ?r"
  have cm: "c < MAX_CPUS" using inv_online[OF i c] .
  have r: "sinv X ?r w Q" using inv_reap[OF i w] .
  have o: "sinv X ?s w Q" using inv_on_cpu[OF r] r by simp
  have ro: "rep ?s Q" using rep by simp
  have nl: "ap_idle s c \<notin> set (proc_list ?s)" using idle_not_listed[OF o cm] by (simp split: if_splits)
  have nl': "ap_idle s c \<notin> set (proc_list s)" using idle_not_listed[OF i cm] .
  obtain s1 where p: "prepare c s = (idle_of s c, s1)"
    and s1: "s1 = ?s \<or> s1 = upd_proc (?s\<lparr>idle_named := (idle_named ?s)(c := True)\<rparr>) (ap_idle s c)
                  (\<lambda>p. p\<lparr>sched_cpu := c, sched_level := SCHED_LEVEL_BACKGROUND\<rparr>)"
  proof (rule that)
    have p: "prepare c s = ap_idle_for c ?s" by (simp only: prepare_def Let_def reap_sel)
    have "ap_idle ?s = ap_idle s" "idle_of ?s c = idle_of s c" by (simp_all add: idle_of_def)
    then show "snd (ap_idle_for c ?s) = ?s \<or> snd (ap_idle_for c ?s) = upd_proc (?s\<lparr>idle_named := (idle_named ?s)(c := True)\<rparr>) (ap_idle s c)
        (\<lambda>p. p\<lparr>sched_cpu := c, sched_level := SCHED_LEVEL_BACKGROUND\<rparr>)"
      and "prepare c s = (idle_of s c, snd (ap_idle_for c ?s))"
      using ap_idle_for_cases[OF cm, of ?s] p by (simp_all only: prod_eq_iff fst_conv snd_conv)
  qed
  have v: "view s1 = view ?s" using s1 nl by (auto simp: view_upd_unlisted)
  show thesis
  proof (rule that[OF p])
    show "sinv X s1 w Q" using inv_view[OF v] o by simp
    show "rep s1 Q" using s1 ro by auto
    show "current_process s1 = current_process s" "master_core s1 = master_core s" "ap_idle s1 = ap_idle s"
      "online_cpu_count s1 = online_cpu_count s" "proc_list s1 = proc_list (reap c s)"
      using s1 by auto
    show "pstate (procs s1 q) = pstate (procs s q)" for q using s1 by auto
    show "q \<in> set (proc_list s) \<Longrightarrow> sched_level (procs s1 q) = sched_level (procs s q)" for q using s1 nl' by auto
    show "?old \<noteq> 0 \<Longrightarrow> on_cpu (procs s1 ?old)" using s1 by auto
  qed
qed

lemma not_queued_after_pop:
  assumes rep: "rep s Q" and q: "Q c l \<noteq> []"
  shows "\<not> queued (qset Q c l (tl (Q c l))) (hd (Q c l))"
proof -
  have "hd (Q c l) \<notin> set (tl (Q c l))" using rep_distinct[OF rep, of c l] q by (metis distinct.simps(2) list.collapse)
  moreover have "hd (Q c l) \<notin> set (Q c' l')" if "(c', l') \<noteq> (c, l)" for c' l'
    using rep_unique[OF rep, of "hd (Q c l)" c l c' l'] q that by auto
  ultimately show ?thesis by (auto simp: queued_def qset_def split: if_splits)
qed

lemma pick_next_none:
  assumes "rep s Q" "best_level Q c = None"
  shows "pick_next c s = Some (0, s)"
  using rep_pop_highest(1)[OF assms] by (subst pick_next.simps) simp

lemma pick_next_some:
  assumes i: "sinv X s w Q" and rep: "rep s Q" and l: "best_level Q c = Some l"
  obtains s' where "pick_next c s = Some (hd (Q c l), s')" "Q c l \<noteq> []" "hd (Q c l) \<noteq> 0"
    "rep s' (qset Q c l (tl (Q c l)))" "unlinked s' = unlinked s"
proof -
  obtain s' where p: "rq_pop_highest s c = (hd (Q c l), s')" "Q c l \<noteq> []"
    "rep s' (qset Q c l (tl (Q c l)))" "unlinked s' = unlinked s"
    using rep_pop_highest(2)[OF rep l] by blast
  have h: "hd (Q c l) \<in> set (Q c l)" using p(2) by simp
  then have n0: "hd (Q c l) \<noteq> 0" using rep_nonzero[OF rep, of c l] by metis
  have "pstate (procs s' (hd (Q c l))) = PROCESS_READY"
    using inv_queued[OF i h] unlinked_fields(13)[OF p(4)] by (simp add: queued_ok_def)
  then have "pick_next c s = Some (hd (Q c l), s')"
    using n0 p(1) by (subst pick_next.simps) (simp add: dead_def)
  then show thesis using that p n0 by blast
qed

text \<open>The queues after the outgoing process is back in its level.\<close>

definition requeued :: "sched \<Rightarrow> nat \<Rightarrow> queues \<Rightarrow> queues" where
  "requeued s c Q =
     (let old = current_process s c; l = sched_level (procs s old)
      in if old \<noteq> 0 \<and> pstate (procs s old) = PROCESS_RUNNING \<and> old \<noteq> idle_of s c then qset Q c l (Q c l @ [old]) else Q)"

lemma current_belongs: "sinv X s w Q \<Longrightarrow> current_process s c \<noteq> 0 \<Longrightarrow> belongs s (current_process s c) c"
  using inv_live[of X s w Q c] by (simp add: live_def)

lemma current_listed:
  "sinv X s w Q \<Longrightarrow> current_process s c \<noteq> 0 \<Longrightarrow> current_process s c \<noteq> idle_of s c \<Longrightarrow>
     current_process s c \<in> set (proc_list s) \<and> sched_cpu (procs s (current_process s c)) = c"
  using current_belongs[of X s w Q c] by (auto simp: belongs_def idle_of_def split: if_splits)

lemma requeue_ok:
  assumes i: "sinv {c} s w Q" and rep: "rep s Q" and w: "w c = None"
    and nq: "\<not> queued Q (current_process s c)"
  shows "sinv {c} (requeue c s (current_process s c) (idle_of s c)) w (requeued s c Q)"
    and "rep (requeue c s (current_process s c) (idle_of s c)) (requeued s c Q)"
proof -
  let ?old = "current_process s c"
  let ?r = "upd_proc s ?old (pstate_update (\<lambda>_. PROCESS_READY))"
  let ?go = "?old \<noteq> 0 \<and> pstate (procs s ?old) = PROCESS_RUNNING \<and> ?old \<noteq> idle_of s c"
  have go: "sinv {c} (rq_push ?r c ?old (sched_level (procs s ?old))) w (requeued s c Q) \<and>
      rep (rq_push ?r c ?old (sched_level (procs s ?old))) (requeued s c Q)" if ?go
  proof -
    have listed: "?old \<in> set (proc_list s)" "sched_cpu (procs s ?old) = c" using current_listed[OF i] that by auto
    have here: "live s w c ?old" using that by (simp add: live_def)
    have only: "c' = c" if "live s w c' ?old" for c' using live_unique[OF i here that] by simp
    have r: "sinv {c} ?r w Q"
    proof (rule inv_upd[OF i])
      show "on_cpu (pstate_update (\<lambda>_. PROCESS_READY) (procs s ?old)) \<and>
          (dead (pstate_update (\<lambda>_. PROCESS_READY) (procs s ?old)) \<longrightarrow> g_deferred_reap s c' = ?old)"
        if "w c' = Some (?old, n)" for c' n
        using only[of c'] that w \<open>?go\<close> by (auto simp: live_def)
    qed (use inv_level[OF i listed(1)] in auto)
    have "sinv {c} (rq_push ?r c ?old (sched_level (procs s ?old))) w (qset Q c (sched_level (procs s ?old)) (Q c (sched_level (procs s ?old)) @ [?old]))"
    proof (rule inv_push[OF r])
      show "current_process ?r c' \<noteq> ?old" if "c' \<notin> {c}" for c'
        using only[of c'] that \<open>?go\<close> by (auto simp: live_def)
    qed (use listed inv_level[OF i listed(1)] in auto)
    moreover have "rep (rq_push ?r c ?old (sched_level (procs s ?old))) (qset Q c (sched_level (procs s ?old)) (Q c (sched_level (procs s ?old)) @ [?old]))"
      by (rule rep_push) (use rep nq that in auto)
    ultimately show ?thesis using that by (simp add: requeued_def Let_def)
  qed
  show "sinv {c} (requeue c s ?old (idle_of s c)) w (requeued s c Q)"
    using go i by (cases ?go) (auto simp: requeue_def requeued_def Let_def)
  show "rep (requeue c s ?old (idle_of s c)) (requeued s c Q)"
    using go rep by (cases ?go) (auto simp: requeue_def requeued_def Let_def)
qed

lemma rq_push_sel [simp]:
  "online_cpu_count (rq_push s c p l) = online_cpu_count s" "master_core (rq_push s c p l) = master_core s"
  "ap_idle (rq_push s c p l) = ap_idle s" "proc_list (rq_push s c p l) = proc_list s"
  "current_process (rq_push s c p l) = current_process s" "g_deferred_reap (rq_push s c p l) = g_deferred_reap s"
  "clock_ms (rq_push s c p l) = clock_ms s"
  "pstate (procs (rq_push s c p l) q) = pstate (procs s q)" "sched_cpu (procs (rq_push s c p l) q) = sched_cpu (procs s q)"
  "sched_level (procs (rq_push s c p l) q) = sched_level (procs s q)" "on_cpu (procs (rq_push s c p l) q) = on_cpu (procs s q)"
  using unlinked_fields[OF rq_push_unlinked, of s c p l] by simp_all

lemma requeue_sel [simp]:
  "online_cpu_count (requeue c s old idle) = online_cpu_count s" "master_core (requeue c s old idle) = master_core s"
  "ap_idle (requeue c s old idle) = ap_idle s" "proc_list (requeue c s old idle) = proc_list s"
  "current_process (requeue c s old idle) = current_process s"
  "sched_cpu (procs (requeue c s old idle) q) = sched_cpu (procs s q)"
  "on_cpu (procs (requeue c s old idle) q) = on_cpu (procs s q)"
  "q \<noteq> old \<Longrightarrow> pstate (procs (requeue c s old idle) q) = pstate (procs s q)"
  by (simp_all add: requeue_def)

lemma defer_dead_sel [simp]:
  "online_cpu_count (defer_dead c s old) = online_cpu_count s" "master_core (defer_dead c s old) = master_core s"
  "ap_idle (defer_dead c s old) = ap_idle s" "proc_list (defer_dead c s old) = proc_list s"
  "current_process (defer_dead c s old) = current_process s" "procs (defer_dead c s old) = procs s"
  by (simp_all add: defer_dead_def)

lemma defer_dead_ok: "sinv X s w Q \<Longrightarrow> w c = None \<Longrightarrow> sinv X (defer_dead c s old) w Q"
  by (simp add: defer_dead_def inv_deferred)

lemma rep_defer_dead [simp]: "rep (defer_dead c s old) Q = rep s Q"
  by (simp add: defer_dead_def)

lemma defer_dead_defers: "dead (procs s old) \<Longrightarrow> g_deferred_reap (defer_dead c s old) c = old"
  by (simp add: defer_dead_def)

text \<open>The idle context of a CPU other than the boot core.\<close>

lemma idle_belongs:
  assumes i: "sinv X s w Q" and c: "c < online_cpu_count s" and m: "c \<noteq> master_core s"
  shows "belongs s (idle_of s c) c" "idle_of s c \<noteq> 0" "idle_of s c \<notin> set (proc_list s)" "\<not> queued Q (idle_of s c)"
proof -
  have cm: "c < MAX_CPUS" using inv_online[OF i c] .
  show "belongs s (idle_of s c) c" using c m by (simp add: belongs_def idle_of_def)
  show "idle_of s c \<noteq> 0" using inv_machine[OF i] cm m by (simp add: machine_ok_def idle_of_def)
  show n: "idle_of s c \<notin> set (proc_list s)" using idle_not_listed[OF i cm] m by (simp add: idle_of_def)
  show "\<not> queued Q (idle_of s c)" using n inv_queued[OF i] by (auto simp: queued_def queued_ok_def)
qed

lemma dispatch_ok:
  assumes i: "sinv {c} s w Q" and rep: "rep s Q" and w: "w c = None" and c: "c < online_cpu_count s"
    and old: "\<not> queued Q (current_process s c)" "current_process s c \<noteq> 0 \<Longrightarrow> on_cpu (procs s (current_process s c))"
    and n: "n \<noteq> 0" "n \<in> set (proc_list s)" "sched_cpu (procs s n) = c" "\<not> queued Q n" "n \<noteq> current_process s c"
  obtains r s' where "dispatch c s (current_process s c) (idle_of s c) n = (r, s')"
    "rep s' (requeued s c Q)" "sinv {} s' (w(c := r)) (requeued s c Q)" "current_process s' = (current_process s)(c := n)"
    "pstate (procs s' n) = PROCESS_RUNNING" "current_process s c \<noteq> 0 \<Longrightarrow> r \<noteq> None" "online_cpu_count s' = online_cpu_count s"
proof -
  let ?old = "current_process s c" let ?idle = "idle_of s c" let ?Q = "requeued s c Q"
  define s1 where "s1 = requeue c s ?old ?idle"
  define s2 where "s2 = (if ?old \<noteq> 0 then defer_dead c s1 ?old else s1)"
  define s3 where "s3 = upd_proc s2 n (\<lambda>p. p\<lparr>sched_ticks_used := 0, pstate := PROCESS_RUNNING\<rparr>)"
  define s4 where "s4 = (if kernel_stack (procs s3 n) \<noteq> 0
      then (set_current s3 c n)\<lparr>tss_rsp0 := (tss_rsp0 (set_current s3 c n))(c := kernel_stack (procs s3 n))\<rparr> else set_current s3 c n)"
  have s1: "sinv {c} s1 w ?Q" "rep s1 ?Q" using requeue_ok[OF i rep w old(1)] by (simp_all add: s1_def)
  have s2: "sinv {c} s2 w ?Q" "rep s2 ?Q" using s1 w by (simp_all add: s2_def defer_dead_ok)
  have sel: "current_process s2 = current_process s" "proc_list s2 = proc_list s" "master_core s2 = master_core s"
    "online_cpu_count s2 = online_cpu_count s" "ap_idle s2 = ap_idle s" "sched_cpu (procs s2 q) = sched_cpu (procs s q)"
    "on_cpu (procs s2 q) = on_cpu (procs s q)" for q by (simp_all add: s2_def s1_def)
  have nl: "belongs s n c" using n c by (simp add: belongs_def)
  have nw: "w c' \<noteq> Some (n, m)" for c' m
    using belongs_unique[OF i nl inv_live[OF i]] n(1) w by (fastforce simp: live_def)
  have q: "\<not> queued ?Q n" using n(4,5) by (auto simp: requeued_def queued_def qset_def Let_def split: if_splits)
  have s3: "sinv {c} s3 w ?Q" unfolding s3_def
    by (rule inv_upd[OF s2(1)]) (use q nw inv_level[OF s2(1)] in \<open>auto simp: sel\<close>)
  have sel3: "current_process s3 = current_process s" "proc_list s3 = proc_list s" "master_core s3 = master_core s"
    "online_cpu_count s3 = online_cpu_count s" "ap_idle s3 = ap_idle s" "pstate (procs s3 n) = PROCESS_RUNNING"
    "sched_cpu (procs s3 n) = c" "procs s3 ?old = procs s2 ?old"
    using n by (simp_all add: s3_def sel)
  have b3: "belongs s3 p c = belongs s p c" for p by (auto simp: belongs_def sel3 s3_def sel)
  define r where "r = (if ?old = 0 then (if c = master_core s then None else Some (?idle, n)) else Some (?old, n))"
  have ib: "belongs s ?idle c" "?idle \<noteq> 0" "?idle \<notin> set (proc_list s)" if "c \<noteq> master_core s"
    using idle_belongs[OF i c that] by auto
  have s4': "sinv {} (set_current s3 c n) (w(c := r)) ?Q"
  proof (rule inv_set_current[OF s3, where m = n])
    show "belongs s3 n c" using nl b3 by simp
    show "m = n \<and> o' \<noteq> 0 \<and> o' \<noteq> n \<and> belongs s3 o' c \<and> (o' \<in> set (proc_list s3) \<longrightarrow>
        on_cpu (procs s3 o') \<and> (dead (procs s3 o') \<longrightarrow> g_deferred_reap s3 c = o'))" if "r = Some (o', m)" for o' m
    proof (cases "?old = 0")
      case True
      then show ?thesis using that ib n(2) b3 sel3 by (auto simp: r_def split: if_splits)
    next
      case False
      have "dead (procs s3 ?old) \<Longrightarrow> g_deferred_reap s3 c = ?old"
        using False sel3(8) by (simp add: s3_def s2_def defer_dead_defers)
      then show ?thesis
        using that False n(5) b3 current_belongs[OF i False] old(2)[OF False] sel3(8) by (auto simp: r_def sel)
    qed
  qed (use n q sel3 in \<open>auto simp: r_def\<close>)
  then have s4: "sinv {} s4 (w(c := r)) ?Q" "rep s4 ?Q" using s2(2) by (simp_all add: s4_def s3_def)
  have sel4: "current_process s4 = (current_process s)(c := n)" "proc_list s4 = proc_list s" "pstate (procs s4 n) = PROCESS_RUNNING"
    "master_core s4 = master_core s"
    using sel3 by (simp_all add: s4_def)
  let ?s' = "if ?old = 0 \<and> c \<noteq> master_core s then upd_proc s4 ?idle (pstate_update (\<lambda>_. PROCESS_RUNNING))
    else if ?old = 0 then s4 else s4\<lparr>total_context_switches := total_context_switches s4 + 1\<rparr>"
  have "dispatch c s ?old ?idle n =
      (if ?old = 0 \<and> c \<noteq> master_core s4 then (Some (?idle, n), upd_proc s4 ?idle (pstate_update (\<lambda>_. PROCESS_RUNNING)))
       else if ?old = 0 then (None, s4) else (Some (?old, n), s4\<lparr>total_context_switches := total_context_switches s4 + 1\<rparr>))"
    unfolding dispatch_def Let_def s4_def s3_def s2_def s1_def set_current_sel(1) by (rule refl)
  then have d: "dispatch c s ?old ?idle n = (r, ?s')" by (simp add: r_def sel4(4))
  show thesis
  proof (rule that[OF d])
    have rep': "rep (upd_proc s4 ?idle (pstate_update (\<lambda>_. PROCESS_RUNNING))) ?Q" using s4(2) by simp
    then show "rep ?s' ?Q" using s4(2) unfolding rep_misc if_distrib[of "\<lambda>x. rep x _"] by (simp only: if_True if_False) argo
    have idle: "sinv {} (upd_proc s4 ?idle (pstate_update (\<lambda>_. PROCESS_RUNNING))) (w(c := r)) ?Q" if "c \<noteq> master_core s"
      using inv_view[OF view_upd_unlisted] ib(3)[OF that] sel4(2) s4(1) by metis
    show "sinv {} ?s' (w(c := r)) ?Q" using s4(1) idle by (cases "?old = 0"; cases "c = master_core s") (simp_all only: inv_misc simp_thms if_True if_False)
    show "current_process ?s' = (current_process s)(c := n)" using sel4(1) by (cases "?old = 0"; cases "c = master_core s") simp_all
    show "pstate (procs ?s' n) = PROCESS_RUNNING" using sel4(3) by (cases "?old = 0"; cases "c = master_core s") simp_all
    show "?old \<noteq> 0 \<Longrightarrow> r \<noteq> None" by (simp add: r_def)
    show "online_cpu_count ?s' = online_cpu_count s" using sel3(4) by (simp add: s4_def)
  qed
qed

lemma stay_or_idle_ok:
  assumes i: "sinv {c} s w Q" and rep: "rep s Q" and w: "w c = None" and c: "c < online_cpu_count s"
    and old: "\<not> queued Q (current_process s c)" "current_process s c \<noteq> 0 \<Longrightarrow> on_cpu (procs s (current_process s c))"
    and awake: "c = master_core s \<Longrightarrow> current_process s c \<in> set (proc_list s) \<Longrightarrow> pstate (procs s (current_process s c)) \<noteq> PROCESS_WAITING"
  obtains r s' where "stay_or_idle c s (current_process s c) (idle_of s c) = (r, s')" "rep s' Q" "sinv {} s' (w(c := r)) Q"
    "online_cpu_count s' = online_cpu_count s"
proof -
  let ?old = "current_process s c" let ?idle = "idle_of s c"
  have same: "current_ok s Q c" if "?old \<in> set (proc_list s) \<Longrightarrow> pstate (procs s ?old) \<noteq> PROCESS_WAITING"
    using old(1) that by (simp add: current_ok_def Let_def)
  have none: "w(c := None) = w" using w by auto
  have keep: "sinv {} s w Q" if "?old \<in> set (proc_list s) \<Longrightarrow> pstate (procs s ?old) \<noteq> PROCESS_WAITING"
    using i same[OF that] by (auto simp: sinv_def)
  consider (stay) "?old \<noteq> 0" "pstate (procs s ?old) = PROCESS_RUNNING \<or> pstate (procs s ?old) = PROCESS_READY"
    | (idle) "?old \<noteq> 0" "\<not> (pstate (procs s ?old) = PROCESS_RUNNING \<or> pstate (procs s ?old) = PROCESS_READY)"
        "?idle \<noteq> 0" "?old \<noteq> ?idle"
    | (neither) "?old = 0 \<or> \<not> (pstate (procs s ?old) = PROCESS_RUNNING \<or> pstate (procs s ?old) = PROCESS_READY)"
        "\<not> (?idle \<noteq> 0 \<and> ?old \<noteq> 0 \<and> ?old \<noteq> ?idle)"
    by argo
  then show thesis
  proof cases
    case stay
    let ?r = "upd_proc s ?old (pstate_update (\<lambda>_. PROCESS_RUNNING))"
    have "sinv {} ?r w Q"
      by (rule inv_upd[OF keep]) (use stay old(1) inv_level[OF i] inv_left[OF i] in \<open>auto simp: dead_def\<close>)
    moreover have "set_current ?r c ?old = ?r" by (simp add: set_current_def upd_proc_def)
    ultimately show thesis
      using that[of None "set_current ?r c ?old"] stay rep none by (simp add: stay_or_idle_def)
  next
    case idle
    let ?s = "s\<lparr>idle_cycles := idle_cycles s + 1\<rparr>"
    let ?d = "defer_dead c ?s ?old"
    let ?r = "upd_proc ?d ?idle (pstate_update (\<lambda>_. PROCESS_RUNNING))"
    have m: "c \<noteq> master_core s" using idle(3) by (auto simp: idle_of_def)
    note ib = idle_belongs[OF i c m]
    have "sinv {c} ?d w Q" using i w by (simp add: defer_dead_ok)
    then have r: "sinv {c} ?r w Q" using inv_view[OF view_upd_unlisted[of ?idle ?d]] ib(3) by simp
    have "sinv {} (set_current ?r c ?idle) (w(c := Some (?old, ?idle))) Q"
    proof (rule inv_set_current[OF r, where m = ?idle])
      show "belongs ?r ?idle c" using ib(1,3) by (auto simp: belongs_def)
      show "m = ?idle \<and> o' \<noteq> 0 \<and> o' \<noteq> ?idle \<and> belongs ?r o' c \<and> (o' \<in> set (proc_list ?r) \<longrightarrow>
          on_cpu (procs ?r o') \<and> (dead (procs ?r o') \<longrightarrow> g_deferred_reap ?r c = o'))"
        if "Some (?old, ?idle) = Some (o', m)" for o' m
        using that idle current_belongs[OF i idle(1)] old(2)[OF idle(1)] ib(3)
        by (auto simp: belongs_def defer_dead_def)
    qed (use ib in auto)
    then show thesis
      using that[of "Some (?old, ?idle)" "set_current ?r c ?idle"] idle rep by (simp add: stay_or_idle_def Let_def)
  next
    case neither
    have "?old \<in> set (proc_list s) \<Longrightarrow> pstate (procs s ?old) \<noteq> PROCESS_WAITING"
    proof (cases "c = master_core s")
      case False
      assume "?old \<in> set (proc_list s)"
      then have "?old \<noteq> 0" "?old \<noteq> ?idle" using inv_process[OF i] idle_belongs(3)[OF i c False] by (auto simp: process_ok_def)
      then show ?thesis using neither(2) idle_belongs(2)[OF i c False] by blast
    qed (rule awake)
    then show thesis
      using that[of None "s\<lparr>idle_cycles := idle_cycles s + 1\<rparr>"] neither rep none keep by (auto simp: stay_or_idle_def Let_def)
  qed
qed

lemma requeued_cong:
  assumes "current_process s' = current_process s" "master_core s' = master_core s" "ap_idle s' = ap_idle s"
    "pstate (procs s' (current_process s c)) = pstate (procs s (current_process s c))"
    "current_process s c \<noteq> 0 \<Longrightarrow> current_process s c \<noteq> idle_of s c \<Longrightarrow>
       sched_level (procs s' (current_process s c)) = sched_level (procs s (current_process s c))"
  shows "requeued s' c Q = requeued s c Q"
proof -
  have "idle_of s' c = idle_of s c" using assms by (simp add: idle_of_def)
  then show ?thesis using assms by (simp add: requeued_def Let_def)
qed

lemma schedule_some:
  assumes i: "sinv {c} s w Q" and rep: "rep s Q" and w: "w c = None" and c: "c < online_cpu_count s"
    and old: "\<not> queued Q (current_process s c)" and l: "best_level Q c = Some l"
  obtains r s' where "schedule c s = Some (r, s')" "rep s' (requeued s c (qset Q c l (tl (Q c l))))"
    "sinv {} s' (w(c := r)) (requeued s c (qset Q c l (tl (Q c l))))"
    "current_process s' = (current_process s)(c := hd (Q c l))" "pstate (procs s' (hd (Q c l))) = PROCESS_RUNNING"
    "current_process s c \<noteq> 0 \<Longrightarrow> r \<noteq> None" "online_cpu_count s' = online_cpu_count s"
proof -
  let ?Q = "qset Q c l (tl (Q c l))" let ?n = "hd (Q c l)"
  obtain s1 where p: "prepare c s = (idle_of s c, s1)" "rep s1 Q" "sinv {c} s1 w Q"
    "current_process s1 = current_process s" "master_core s1 = master_core s" "ap_idle s1 = ap_idle s"
    "online_cpu_count s1 = online_cpu_count s" "\<And>p. pstate (procs s1 p) = pstate (procs s p)"
    "\<And>p. p \<in> set (proc_list s) \<Longrightarrow> sched_level (procs s1 p) = sched_level (procs s p)"
    "current_process s c \<noteq> 0 \<Longrightarrow> on_cpu (procs s1 (current_process s c))"
    by (rule prepare_ok[OF i rep w c]) (rule that)
  obtain s2 where n: "pick_next c s1 = Some (?n, s2)" "Q c l \<noteq> []" "?n \<noteq> 0" "rep s2 ?Q" "unlinked s2 = unlinked s1"
    by (rule pick_next_some[OF p(3,2) l])
  note u = unlinked_fields[OF n(5)]
  have sub: "set (?Q c' l') \<subseteq> set (Q c' l')" for c' l' by (auto simp: qset_def dest: list.set_sel(2)[OF n(2)])
  have i2: "sinv {c} s2 w ?Q" using inv_sub[OF p(3) sub] inv_unlinked[OF n(5)] by simp
  have nQ: "?n \<in> set (Q c l)" using n(2) by simp
  then have neq: "?n \<noteq> current_process s c" using old by (auto simp: queued_def)
  have oq: "\<not> queued ?Q (current_process s2 c)" using old sub u(7) p(4) unfolding queued_def by (metis subsetD)
  have idle: "idle_of s2 c = idle_of s c" using u p by (simp add: idle_of_def)
  obtain r s' where d: "dispatch c s2 (current_process s2 c) (idle_of s2 c) ?n = (r, s')"
      "rep s' (requeued s2 c ?Q)" "sinv {} s' (w(c := r)) (requeued s2 c ?Q)"
      "current_process s' = (current_process s2)(c := ?n)" "pstate (procs s' ?n) = PROCESS_RUNNING"
      "current_process s2 c \<noteq> 0 \<Longrightarrow> r \<noteq> None" "online_cpu_count s' = online_cpu_count s2"
  proof (rule dispatch_ok[OF i2 n(4) w _ oq _ n(3)])
    show "c < online_cpu_count s2" using c u p by simp
    show "on_cpu (procs s2 (current_process s2 c))" if "current_process s2 c \<noteq> 0" using p(4,10) u(7,16) that by simp
    show "?n \<in> set (proc_list s2)" "sched_cpu (procs s2 ?n) = c" using inv_queued[OF p(3) nQ] u by (simp_all add: queued_ok_def)
    show "\<not> queued ?Q ?n" by (rule not_queued_after_pop[OF rep n(2)])
    show "?n \<noteq> current_process s2 c" using neq u p by simp
  qed (use that in blast)
  have rq: "requeued s2 c ?Q = requeued s c ?Q"
  proof (rule requeued_cong)
    show "sched_level (procs s2 (current_process s c)) = sched_level (procs s (current_process s c))"
      if "current_process s c \<noteq> 0" "current_process s c \<noteq> idle_of s c"
      using current_listed[OF i that] p(9) u by simp
  qed (use u p in simp_all)
  have "schedule c s = Some (r, s')" using p(1,4) n(1,3) d(1) u idle by (simp add: schedule_prepare)
  then show thesis using that d rq u p(4,7) by simp
qed

lemma schedule_none:
  assumes i: "sinv {c} s w Q" and rep: "rep s Q" and w: "w c = None" and c: "c < online_cpu_count s"
    and old: "\<not> queued Q (current_process s c)" and l: "best_level Q c = None"
    and awake: "c = master_core s \<Longrightarrow> pstate (procs s (current_process s c)) \<noteq> PROCESS_WAITING \<or> current_process s c = 0"
  obtains r s' where "schedule c s = Some (r, s')" "rep s' Q" "sinv {} s' (w(c := r)) Q" "online_cpu_count s' = online_cpu_count s"
proof -
  obtain s1 where p: "prepare c s = (idle_of s c, s1)" "rep s1 Q" "sinv {c} s1 w Q"
    "current_process s1 = current_process s" "master_core s1 = master_core s" "ap_idle s1 = ap_idle s"
    "online_cpu_count s1 = online_cpu_count s" "\<And>p. pstate (procs s1 p) = pstate (procs s p)"
    "current_process s c \<noteq> 0 \<Longrightarrow> on_cpu (procs s1 (current_process s c))"
    by (rule prepare_ok[OF i rep w c]) (rule that)
  have n: "pick_next c s1 = Some (0, s1)" by (rule pick_next_none[OF p(2) l])
  have idle: "idle_of s1 c = idle_of s c" using p by (simp add: idle_of_def)
  obtain r s' where d: "stay_or_idle c s1 (current_process s1 c) (idle_of s1 c) = (r, s')" "rep s' Q" "sinv {} s' (w(c := r)) Q"
      "online_cpu_count s' = online_cpu_count s1"
  proof (rule stay_or_idle_ok[OF p(3,2) w])
    show "pstate (procs s1 (current_process s1 c)) \<noteq> PROCESS_WAITING"
      if "c = master_core s1" "current_process s1 c \<in> set (proc_list s1)"
      using awake inv_process[OF p(3) that(2)] that p(4,5,8) by (auto simp: process_ok_def)
  qed (use c old p that in auto)
  have "schedule c s = Some (r, s')" using p(1,4) n d(1) idle by (simp add: schedule_prepare)
  then show thesis using that d p(7) by simp
qed

text \<open>Whoever gives up the CPU: on the boot core a sleeping process needs somebody to hand over to.\<close>

lemma schedule_ok:
  assumes "sinv {c} s w Q" "rep s Q" "w c = None" "c < online_cpu_count s" "\<not> queued Q (current_process s c)"
    and "c = master_core s \<Longrightarrow> best_level Q c = None \<Longrightarrow>
      pstate (procs s (current_process s c)) \<noteq> PROCESS_WAITING \<or> current_process s c = 0"
  obtains r s' Q' where "schedule c s = Some (r, s')" "rep s' Q'" "sinv {} s' (w(c := r)) Q'" "online_cpu_count s' = online_cpu_count s"
proof (cases "best_level Q c")
  case None
  then show thesis using schedule_none[OF assms(1-5) None] assms(6) that by metis
next
  case (Some l)
  then show thesis using schedule_some[OF assms(1-5) Some] that by metis
qed

lemma inv_current_not_queued: "sinv X s w Q \<Longrightarrow> c \<notin> X \<Longrightarrow> \<not> queued Q (current_process s c) \<or> current_process s c = 0"
  using inv_current[of X s w Q c] by (auto simp: current_ok_def Let_def)

lemma rep_null_not_queued: "rep s Q \<Longrightarrow> \<not> queued Q 0"
  using rep_nonzero by (auto simp: queued_def)

corollary yield_ok:
  assumes i: "sinv {} s w Q" and rep: "rep s Q" and "w c = None" "c < online_cpu_count s"
  obtains r s' Q' where "schedule c s = Some (r, s')" "rep s' Q'" "sinv {} s' (w(c := r)) Q'" "online_cpu_count s' = online_cpu_count s"
proof (rule schedule_ok[OF inv_weaken[OF i] rep assms(3,4)])
  show "\<not> queued Q (current_process s c)"
    using inv_current_not_queued[OF i, of c] rep_null_not_queued[OF rep] by auto
  show "pstate (procs s (current_process s c)) \<noteq> PROCESS_WAITING \<or> current_process s c = 0" if "c = master_core s"
  proof (cases "current_process s c = 0")
    case False
    have "current_process s c \<noteq> idle_of s c" using False that by (simp add: idle_of_def)
    then show ?thesis using inv_awake[OF i] current_listed[OF i False] by blast
  qed simp
qed (use that in auto)

text \<open>A CPU that keeps a dead process has nothing to switch to and leaves the processes as they are.\<close>

lemma prepare_frame:
  assumes "c < MAX_CPUS"
  shows "pstate (procs (snd (prepare c s)) p) = pstate (procs s p)"
    "cleanup_requested (procs (snd (prepare c s)) p) = cleanup_requested (procs s p)"
    "cleanup_deadline_ms (procs (snd (prepare c s)) p) = cleanup_deadline_ms (procs s p)"
    "clock_ms (snd (prepare c s)) = clock_ms s" "proc_list (snd (prepare c s)) = proc_list (reap c s)"
    "current_process (snd (prepare c s)) = current_process s" "online_cpu_count (snd (prepare c s)) = online_cpu_count s"
proof -
  define t where "t = (if current_process s c \<noteq> 0 then upd_proc (reap c s) (current_process s c) (on_cpu_update (\<lambda>_. True)) else reap c s)"
  have p: "prepare c s = ap_idle_for c t" by (simp only: prepare_def Let_def reap_sel t_def)
  have r: "clock_ms (reap c s) = clock_ms s" by (simp add: reap_def Let_def)
  have t: "pstate (procs t q) = pstate (procs s q)" "cleanup_requested (procs t q) = cleanup_requested (procs s q)"
      "cleanup_deadline_ms (procs t q) = cleanup_deadline_ms (procs s q)" "clock_ms t = clock_ms s"
      "proc_list t = proc_list (reap c s)" "current_process t = current_process s" "online_cpu_count t = online_cpu_count s" for q
    using r by (auto simp: t_def)
  show "pstate (procs (snd (prepare c s)) p) = pstate (procs s p)"
    "cleanup_requested (procs (snd (prepare c s)) p) = cleanup_requested (procs s p)"
    "cleanup_deadline_ms (procs (snd (prepare c s)) p) = cleanup_deadline_ms (procs s p)"
    "clock_ms (snd (prepare c s)) = clock_ms s" "proc_list (snd (prepare c s)) = proc_list (reap c s)"
    "current_process (snd (prepare c s)) = current_process s" "online_cpu_count (snd (prepare c s)) = online_cpu_count s"
    using ap_idle_for_cases(2)[OF assms, of t] t unfolding p by (auto split: if_splits)
qed

lemma schedule_keeps:
  assumes i: "sinv {} s w Q" and rep: "rep s Q" and w: "w c = None" and c: "c < online_cpu_count s"
    and cur: "current_process s c \<noteq> 0" "dead (procs s (current_process s c))" and r: "schedule c s = Some (None, s')"
  shows "pstate (procs s' p) = pstate (procs s p)" "cleanup_requested (procs s' p) = cleanup_requested (procs s p)"
    "cleanup_deadline_ms (procs s' p) = cleanup_deadline_ms (procs s p)" "clock_ms s' = clock_ms s"
    "proc_list s' = proc_list (reap c s)" "current_process s' = current_process s"
proof -
  have x: "sinv {c} s w Q" by (rule inv_weaken[OF i]) simp
  have q: "\<not> queued Q (current_process s c)" using inv_current_not_queued[OF i, of c] cur by simp
  have none: "best_level Q c = None"
  proof (rule ccontr)
    assume "best_level Q c \<noteq> None"
    then obtain l where l: "best_level Q c = Some l" by blast
    show False by (rule schedule_some[OF x rep w c q l]) (use r cur in auto)
  qed
  let ?s = "snd (prepare c s)"
  have f: "fst (prepare c s) = idle_of s c" "rep ?s Q" by (rule prepare_ok[OF i rep w c]; simp)+
  note pf = prepare_frame[OF inv_online[OF i c], of s]
  have "dead (procs ?s (current_process s c))" using cur(2) pf(1)[of "current_process s c"] by (simp add: dead_def)
  then have "s' = ?s\<lparr>idle_cycles := idle_cycles ?s + 1\<rparr>"
    using r pick_next_none[OF f(2) none] cur(1)
    by (auto simp: schedule_prepare stay_or_idle_def Let_def dead_def case_prod_unfold split: if_splits)
  then show "pstate (procs s' p) = pstate (procs s p)" "cleanup_requested (procs s' p) = cleanup_requested (procs s p)"
    "cleanup_deadline_ms (procs s' p) = cleanup_deadline_ms (procs s p)" "clock_ms s' = clock_ms s"
    "proc_list s' = proc_list (reap c s)" "current_process s' = current_process s"
    using pf by simp_all
qed

lemma reaped_dead: "p \<in> set (proc_list s) \<Longrightarrow> p \<notin> set (proc_list (reap c s)) \<Longrightarrow> dead (procs s p)"
  by (simp add: reap_list reapable_def)

lemma best_level_some: "l < SCHED_NUM_LEVELS \<Longrightarrow> Q c l \<noteq> [] \<Longrightarrow> best_level Q c \<noteq> None"
  by (auto simp: best_level_def find_None_iff)

lemma total_best: "rep s Q \<Longrightarrow> rq_total s c > 0 \<Longrightarrow> best_level Q c \<noteq> None"
proof
  assume "rep s Q" "rq_total s c > 0" "best_level Q c = None"
  then have "Q c l = []" if "l < SCHED_NUM_LEVELS" for l using best_level_some[OF that] by blast
  then show False using rep_total[OF \<open>rep s Q\<close>, of c] \<open>rq_total s c > 0\<close> by simp
qed

end
