(* ===== verification/Sched_Ops.thy ===== *)
theory Sched_Ops
  imports Sched_Dispatch
begin

text \<open>
  The other operations of \<^verbatim>\<open>scheduler.c\<close> on the run queues: enqueueing, waking, parking, the priority boost and the
  load balancing. Each returns and keeps the invariant; the boost and the balancing have their effect on the
  queues as lemmas.
\<close>

section \<open>Enqueueing and parking\<close>

lemma inv_requeue_existing:
  assumes i: "sinv {} s w Q" and p: "p \<in> set (proc_list s)" "pstate (procs s p) = PROCESS_READY"
    and c: "\<And>c. current_process s c \<noteq> p" and l: "l < SCHED_NUM_LEVELS"
  shows "sinv {} (rq_push s (sched_cpu (procs s p)) p l) w (qset Q (sched_cpu (procs s p)) l (Q (sched_cpu (procs s p)) l @ [p]))"
  by (rule inv_push[OF i]) (use p c l in auto)

text \<open>A change of CPU is safe for a process that no CPU runs or leaves.\<close>

lemma inv_move:
  assumes i: "sinv X s w Q" and p: "p \<in> set (proc_list s)" and nq: "\<not> queued Q p" and nl: "\<And>c. \<not> live s w c p"
    and f: "sched_cpu (f (procs s p)) < online_cpu_count s" "sched_level (f (procs s p)) < SCHED_NUM_LEVELS"
  shows "sinv X (upd_proc s p f) w Q"
proof -
  have p0: "p \<noteq> 0" using inv_process[OF i p] by (simp add: process_ok_def)
  have nc: "current_process s c \<noteq> p" and nw: "w c \<noteq> Some (p, n)" for c n using nl[of c] p0 by (auto simp: live_def)
  show ?thesis
  proof (rule invI)
    show "machine_ok (upd_proc s p f)" using inv_machine[OF i] by (simp add: machine_ok_def)
    show "distinct (proc_list (upd_proc s p f))" using i by (simp add: sinv_def)
    show "process_ok (upd_proc s p f) q" if "q \<in> set (proc_list (upd_proc s p f))" for q
      using inv_process[OF i, of q] that f by (auto simp: process_ok_def scheduler_is_idle_process_def)
    show "queued_ok (upd_proc s p f) c l q" if "q \<in> set (Q c l)" for c l q
      using inv_queued[OF i that] that nq by (auto simp: queued_ok_def queued_def)
    show "belongs (upd_proc s p f) q c" if "live (upd_proc s p f) w c q" for c q
      using inv_live[OF i, of c q] that nl[of c] by (auto simp: live_def belongs_def)
    show "current_ok (upd_proc s p f) Q c" if "c \<notin> X" for c
      using inv_current[OF i that] nc[of c] by (auto simp: current_ok_def Let_def)
    show "leaving_ok (upd_proc s p f) c r" if "w c = Some r" for c r
      using inv_leaving[OF i that] nw[of c "snd r"] that by (cases r) (auto simp: leaving_ok_def)
  qed
qed

lemma least_loaded_in: "least_loaded s cs b n \<in> insert b (set cs)"
  by (induction cs arbitrary: b n) (auto simp: Let_def)

lemma pick_least_loaded_online:
  assumes "machine_ok s"
  shows "pick_least_loaded_cpu s < online_cpu_count s"
  using least_loaded_in[of s "[0..<online_cpu_count s]" 0 "0xFFFFFFFF"] assms
  by (auto simp: pick_least_loaded_cpu_def machine_ok_def Let_def)

text \<open>A parked process goes to the least loaded CPU.\<close>

lemma enqueue_new_ok:
  assumes i: "sinv {} s w Q" and rep: "rep s Q" and p: "p \<in> set (proc_list s)" "pstate (procs s p) = PROCESS_READY"
    and nq: "\<not> queued Q p" and nl: "\<And>c. \<not> live s w c p"
  obtains Q' where "rep (scheduler_enqueue_new s p) Q'" "sinv {} (scheduler_enqueue_new s p) w Q'"
proof -
  let ?c = "pick_least_loaded_cpu s"
  let ?s = "upd_proc s p (\<lambda>q. q\<lparr>sched_level := SCHED_LEVEL_INTERACTIVE, sched_ticks_used := 0, sched_cpu := ?c\<rparr>)"
  have p0: "p \<noteq> 0" using inv_process[OF i p(1)] by (simp add: process_ok_def)
  have m: "sinv {} ?s w Q"
    by (rule inv_move[OF i p(1) nq nl])
      (use pick_least_loaded_online[OF inv_machine[OF i]] in \<open>simp_all add: SCHED_LEVEL_INTERACTIVE_def SCHED_NUM_LEVELS_def\<close>)
  have nc: "current_process s c \<noteq> p" for c using nl[of c] p0 by (auto simp: live_def)
  have "sinv {} (rq_push ?s ?c p SCHED_LEVEL_INTERACTIVE) w (qset Q ?c SCHED_LEVEL_INTERACTIVE (Q ?c SCHED_LEVEL_INTERACTIVE @ [p]))"
    by (rule inv_push[OF m]) (use p nc in \<open>auto simp: SCHED_LEVEL_INTERACTIVE_def SCHED_NUM_LEVELS_def\<close>)
  moreover have "rep (rq_push ?s ?c p SCHED_LEVEL_INTERACTIVE) (qset Q ?c SCHED_LEVEL_INTERACTIVE (Q ?c SCHED_LEVEL_INTERACTIVE @ [p]))"
    by (rule rep_push) (use rep p0 nq in auto)
  ultimately show thesis using that p0 by (simp add: scheduler_enqueue_new_def Let_def)
qed

text \<open>A process that is ready again goes back to its own CPU.\<close>

lemma push_back_ok:
  assumes i: "sinv {} s w Q" and rep: "rep s Q" and p: "p \<in> set (proc_list s)" and nq: "\<not> queued Q p"
    and nc: "\<And>c. current_process s c \<noteq> p"
    and f: "pstate (f (procs s p)) = PROCESS_READY" "sched_cpu (f (procs s p)) = sched_cpu (procs s p)"
      "on_cpu (f (procs s p)) = on_cpu (procs s p)" "sched_level (f (procs s p)) < SCHED_NUM_LEVELS"
      "\<And>q. rq_next (f q) = rq_next q"
    and l: "l < SCHED_NUM_LEVELS" and c: "c = sched_cpu (procs s p)"
  shows "rep (rq_push (upd_proc s p f) c p l) (qset Q c l (Q c l @ [p]))"
    and "sinv {} (rq_push (upd_proc s p f) c p l) w (qset Q c l (Q c l @ [p]))"
proof -
  have p0: "p \<noteq> 0" using inv_process[OF i p] by (simp add: process_ok_def)
  show "rep (rq_push (upd_proc s p f) c p l) (qset Q c l (Q c l @ [p]))"
    by (rule rep_push) (use rep p0 nq f(5) in auto)
  have u: "sinv {} (upd_proc s p f) w Q"
    by (rule inv_upd[OF i]) (use f nc nq inv_left[OF i] in \<open>auto simp: dead_def\<close>)
  show "sinv {} (rq_push (upd_proc s p f) c p l) w (qset Q c l (Q c l @ [p]))"
    by (rule inv_push[OF u]) (use p f nc l c in auto)
qed

lemma level_0 [simp]: "SCHED_LEVEL_INTERACTIVE < SCHED_NUM_LEVELS"
  by (simp add: SCHED_LEVEL_INTERACTIVE_def SCHED_NUM_LEVELS_def)

lemma enqueue_existing_ok:
  assumes i: "sinv {} s w Q" and rep: "rep s Q" and p: "p \<in> set (proc_list s)" and nq: "\<not> queued Q p"
    and nc: "\<And>c. current_process s c \<noteq> p"
  obtains Q' where "rep (scheduler_enqueue_existing (upd_proc s p (pstate_update (\<lambda>_. PROCESS_READY))) p) Q'"
    "sinv {} (scheduler_enqueue_existing (upd_proc s p (pstate_update (\<lambda>_. PROCESS_READY))) p) w Q'"
proof -
  let ?f = "\<lambda>q. q\<lparr>pstate := PROCESS_READY, sched_level := SCHED_LEVEL_INTERACTIVE, sched_ticks_used := 0\<rparr>"
  let ?c = "sched_cpu (procs s p)"
  let ?s = "rq_push (upd_proc s p ?f) ?c p SCHED_LEVEL_INTERACTIVE"
  let ?Q = "qset Q ?c SCHED_LEVEL_INTERACTIVE (Q ?c SCHED_LEVEL_INTERACTIVE @ [p])"
  have p0: "p \<noteq> 0" "sched_cpu (procs s p) < MAX_CPUS"
    using inv_process[OF i p] inv_machine[OF i] by (simp_all add: process_ok_def machine_ok_def)
  have e: "scheduler_enqueue_existing (upd_proc s p (pstate_update (\<lambda>_. PROCESS_READY))) p = ?s"
    using p0 by (simp add: scheduler_enqueue_existing_def Let_def upd_proc_def)
  have "rep ?s ?Q" "sinv {} ?s w ?Q" by (rule push_back_ok[OF i rep p nq nc]; simp)+
  then show thesis using that[of ?Q] e by simp
qed

text \<open>Killing or pausing takes the process off its queue. It must not be a process that a CPU is just leaving.\<close>

lemma park_ok:
  assumes i: "sinv {} s w Q" and rep: "rep s Q" and p: "p \<in> set (proc_list s)" and st: "st \<noteq> PROCESS_WAITING"
    and nw: "\<And>c n. st = PROCESS_ZOMBIE \<or> st = PROCESS_TERMINATED \<Longrightarrow> w c \<noteq> Some (p, n)"
  obtains s' where "scheduler_dequeue (upd_proc s p (pstate_update (\<lambda>_. st))) p = Some s'" "rep s' (qdel Q p)" "sinv {} s' w (qdel Q p)"
    "unlinked s' = unlinked (upd_proc s p (pstate_update (\<lambda>_. st)))"
proof -
  let ?s = "upd_proc s p (pstate_update (\<lambda>_. st))"
  have home: "c = sched_cpu (procs ?s p) \<and> c < MAX_CPUS \<and> l < SCHED_NUM_LEVELS" if "p \<in> set (Q c l)" for c l
    using inv_queued[OF i that] inv_process[OF i p] inv_machine[OF i] by (auto simp: queued_ok_def process_ok_def machine_ok_def)
  have r: "rep ?s Q" using rep by simp
  obtain s' where d: "scheduler_dequeue ?s p = Some s'" "unlinked s' = unlinked ?s" "rep s' (qdel Q p)"
    by (rule rep_dequeue[OF r home]) blast+
  have "sinv {} s w (qdel Q p)" by (rule inv_sub[OF i]) (auto simp: qdel_def)
  then have "sinv {} ?s w (qdel Q p)"
    by (rule inv_upd) (use st inv_level[OF i p] inv_left[OF i] nw in \<open>auto simp: queued_def qdel_def dead_def\<close>)
  then show thesis using that d inv_unlinked[OF d(2)] by simp
qed

section \<open>Waking\<close>

lemma wake_process_sel [simp]:
  "proc_list (wake_process c s p) = proc_list s" "online_cpu_count (wake_process c s p) = online_cpu_count s"
  "current_process (wake_process c s p) = current_process s" "clock_ms (wake_process c s p) = clock_ms s"
  by (simp_all add: wake_process_def Let_def)

lemma wake_process_ok:
  assumes i: "sinv {} s w Q" and rep: "rep s Q" and p: "p \<in> set (proc_list s)"
  obtains Q' where "rep (wake_process c s p) Q'" "sinv {} (wake_process c s p) w Q'"
proof (cases "pstate (procs s p) = PROCESS_WAITING \<and> wake_time_ms (procs s p) > 0 \<and> clock_ms s \<ge> wake_time_ms (procs s p) \<and> sched_cpu (procs s p) = c")
  case True
  have nq: "\<not> queued Q p" using inv_queued_ready[OF i, of p] True by auto
  have nc: "current_process s c' \<noteq> p" for c' using inv_awake[OF i, of c' p] True p by auto
  let ?f = "\<lambda>q. q\<lparr>pstate := PROCESS_READY, wake_time_ms := 0, sched_level := SCHED_LEVEL_INTERACTIVE, sched_ticks_used := 0\<rparr>"
  have "wake_process c s p = rq_push (upd_proc s p ?f) c p SCHED_LEVEL_INTERACTIVE"
    using True by (simp add: wake_process_def Let_def)
  moreover have "rep (rq_push (upd_proc s p ?f) c p SCHED_LEVEL_INTERACTIVE) (qset Q c SCHED_LEVEL_INTERACTIVE (Q c SCHED_LEVEL_INTERACTIVE @ [p]))"
    "sinv {} (rq_push (upd_proc s p ?f) c p SCHED_LEVEL_INTERACTIVE) w (qset Q c SCHED_LEVEL_INTERACTIVE (Q c SCHED_LEVEL_INTERACTIVE @ [p]))"
    by (rule push_back_ok[OF i rep p nq nc]; use True in simp)+
  ultimately show thesis using that by simp
next
  case False
  then have "wake_process c s p = s" by (auto simp: wake_process_def Let_def)
  then show thesis using that i rep by simp
qed

lemma wake_fold_sel [simp]:
  "proc_list (foldl (wake_process c) s ps) = proc_list s" "online_cpu_count (foldl (wake_process c) s ps) = online_cpu_count s"
  "current_process (foldl (wake_process c) s ps) = current_process s" "clock_ms (foldl (wake_process c) s ps) = clock_ms s"
  by (induction ps arbitrary: s) simp_all

lemma wake_fold_ok:
  "sinv {} s w Q \<Longrightarrow> rep s Q \<Longrightarrow> set ps \<subseteq> set (proc_list s) \<Longrightarrow>
     \<exists>Q'. rep (foldl (wake_process c) s ps) Q' \<and> sinv {} (foldl (wake_process c) s ps) w Q'"
proof (induction ps arbitrary: s Q)
  case (Cons p ps)
  then obtain Q' where "rep (wake_process c s p) Q'" "sinv {} (wake_process c s p) w Q'"
    using wake_process_ok[of s w Q p c] by auto
  then show ?case using Cons by simp
qed auto

lemma wake_ok:
  assumes "sinv {} s w Q" "rep s Q"
  obtains Q' where "rep (wake_sleeping_processes c s) Q'" "sinv {} (wake_sleeping_processes c s) w Q'"
  using wake_fold_ok[OF assms, of "proc_list s" c] by (auto simp: wake_sleeping_processes_def)

section \<open>The priority boost\<close>

definition lift_level :: "queues \<Rightarrow> nat \<Rightarrow> nat \<Rightarrow> queues" where
  "lift_level Q c l = qset (qset Q c l []) c 0 (Q c 0 @ Q c l)"

lemma boost_level_ok:
  assumes "sinv {} s w Q" "rep s Q" "l \<noteq> 0"
  obtains s' where "boost_level s c l = Some s'" "rep s' (lift_level Q c l)" "sinv {} s' w (lift_level Q c l)"
    "current_process s' = current_process s" "online_cpu_count s' = online_cpu_count s" "clock_ms s' = clock_ms s"
proof -
  have "\<exists>s'. boost_level s c l = Some s' \<and> rep s' (lift_level Q c l) \<and> sinv {} s' w (lift_level Q c l) \<and>
      current_process s' = current_process s \<and> online_cpu_count s' = online_cpu_count s \<and> clock_ms s' = clock_ms s"
    using assms
  proof (induction "Q c l" arbitrary: s Q)
    case Nil
    have "lift_level Q c l = Q" using Nil(1) by (intro ext) (auto simp: lift_level_def qset_def)
    moreover have "boost_level s c l = Some s"
      using rep_pop_empty[OF Nil(3), of c l] Nil(1) by (subst boost_level.simps) simp
    ultimately show ?case using Nil by simp
  next
    case (Cons p ps)
    let ?Q = "qset Q c l ps" let ?Q' = "qset ?Q c 0 (?Q c 0 @ [p])"
    let ?f = "\<lambda>q. q\<lparr>sched_level := SCHED_LEVEL_INTERACTIVE, sched_ticks_used := 0\<rparr>"
    have q: "Q c l = p # ps" using Cons(2) by simp
    let ?s = "snd (rq_pop s c l)" let ?s' = "rq_push (upd_proc ?s p ?f) c p SCHED_LEVEL_INTERACTIVE"
    note pop = rep_pop[OF Cons(4) q]
    note u = unlinked_fields[OF rq_pop_unlinked[of s c l]]
    have pQ: "p \<in> set (Q c l)" using q by simp
    have p0: "p \<noteq> 0" using rep_nonzero[OF Cons(4), of c l] pQ by metis
    note qo = inv_queued[OF Cons(3) pQ, unfolded queued_ok_def]
    have i: "sinv {} ?s w ?Q"
      unfolding inv_unlinked[OF rq_pop_unlinked[of s c l]] by (rule inv_sub[OF Cons(3)]) (use q in \<open>auto simp: qset_def\<close>)
    have nq: "\<not> queued ?Q p" using not_queued_after_pop[OF Cons(4), of c l] q by simp
    have nc: "current_process ?s c' \<noteq> p" for c'
      using inv_current_not_queued[OF Cons(3), of c'] pQ p0 u(7) by (auto simp: queued_def)
    have step: "rep ?s' ?Q'" "sinv {} ?s' w ?Q'"
      using push_back_ok[OF i pop(2) _ nq nc, of ?f SCHED_LEVEL_INTERACTIVE c] qo u
      by (simp_all add: SCHED_LEVEL_INTERACTIVE_def SCHED_NUM_LEVELS_def)
    have b: "boost_level s c l = boost_level ?s' c l"
      using pop(1) p0 by (subst boost_level.simps) (simp add: case_prod_unfold Let_def)
    have "ps = ?Q' c l" using \<open>l \<noteq> 0\<close> by (simp add: qset_def)
    moreover have "lift_level ?Q' c l = lift_level Q c l"
      using \<open>l \<noteq> 0\<close> q by (intro ext) (auto simp: lift_level_def qset_def)
    ultimately show ?case using Cons(1)[of ?Q' ?s'] step b u \<open>l \<noteq> 0\<close> by simp
  qed
  then show thesis using that by blast
qed

definition boosted :: "queues \<Rightarrow> nat set \<Rightarrow> queues" where
  "boosted Q C = (\<lambda>c l. if c \<in> C \<and> l < SCHED_NUM_LEVELS then (if l = 0 then Q c 0 @ Q c 1 @ Q c 2 else []) else Q c l)"

lemma boost_levels_ok:
  assumes i: "sinv {} s w Q" and rep: "rep s Q"
  obtains s' where "boost_levels s c [1..<SCHED_NUM_LEVELS] = Some s'" "rep s' (boosted Q {c})" "sinv {} s' w (boosted Q {c})"
    "current_process s' = current_process s" "online_cpu_count s' = online_cpu_count s" "clock_ms s' = clock_ms s"
proof -
  obtain s1 where s1: "boost_level s c 1 = Some s1" "rep s1 (lift_level Q c 1)" "sinv {} s1 w (lift_level Q c 1)"
    "current_process s1 = current_process s" "online_cpu_count s1 = online_cpu_count s" "clock_ms s1 = clock_ms s"
    by (rule boost_level_ok[OF i rep, of 1 c]) simp_all
  obtain s2 where s2: "boost_level s1 c 2 = Some s2" "rep s2 (lift_level (lift_level Q c 1) c 2)"
    "sinv {} s2 w (lift_level (lift_level Q c 1) c 2)" "current_process s2 = current_process s1"
    "online_cpu_count s2 = online_cpu_count s1" "clock_ms s2 = clock_ms s1"
    by (rule boost_level_ok[OF s1(3,2), of 2 c]) simp_all
  have "lift_level (lift_level Q c 1) c 2 = boosted Q {c}"
    by (intro ext) (auto simp: lift_level_def boosted_def qset_def SCHED_NUM_LEVELS_def)
  moreover have "[1..<SCHED_NUM_LEVELS] = [1, 2]" by (simp add: SCHED_NUM_LEVELS_def upt_rec)
  ultimately show thesis using that[of s2] s1 s2 by simp
qed

lemma boost_cpus_ok:
  "sinv {} s w Q \<Longrightarrow> rep s Q \<Longrightarrow> distinct cs \<Longrightarrow>
     \<exists>s'. boost_cpus s cs = Some s' \<and> rep s' (boosted Q (set cs)) \<and> sinv {} s' w (boosted Q (set cs)) \<and>
       current_process s' = current_process s \<and> online_cpu_count s' = online_cpu_count s \<and> clock_ms s' = clock_ms s"
proof (induction cs arbitrary: s Q)
  case Nil
  have "boosted Q {} = Q" by (intro ext) (simp add: boosted_def)
  then show ?case using Nil by simp
next
  case (Cons c cs)
  obtain s1 where s1: "boost_levels s c [1..<SCHED_NUM_LEVELS] = Some s1" "rep s1 (boosted Q {c})" "sinv {} s1 w (boosted Q {c})"
    "current_process s1 = current_process s" "online_cpu_count s1 = online_cpu_count s" "clock_ms s1 = clock_ms s"
    by (rule boost_levels_ok[OF Cons.prems(1,2)])
  have "boosted (boosted Q {c}) (set cs) = boosted Q (set (c # cs))"
    using Cons.prems(3) by (intro ext) (auto simp: boosted_def)
  then show ?case using Cons.IH[OF s1(3,2)] Cons.prems(3) s1 by simp
qed

lemma boost_ok:
  assumes i: "sinv {} s w Q" and rep: "rep s Q"
  obtains s' where "scheduler_priority_boost s = Some s'" "rep s' (boosted Q {..<online_cpu_count s})"
    "sinv {} s' w (boosted Q {..<online_cpu_count s})" "current_process s' = current_process s"
    "online_cpu_count s' = online_cpu_count s" "clock_ms s' = clock_ms s"
proof -
  have "\<not> online_cpu_count s > MAX_CPUS" using inv_machine[OF i] by (simp add: machine_ok_def)
  then show thesis
    using boost_cpus_ok[OF i rep, of "[0..<online_cpu_count s]"] that
    by (auto simp: scheduler_priority_boost_def Let_def atLeast0LessThan)
qed

section \<open>Load balancing\<close>

lemma scan_loads_in:
  "scan_loads s cs ((bl, b), (il, i)) = ((bl', b'), (il', i')) \<Longrightarrow> b' \<in> insert b (set cs) \<and> i' \<in> insert i (set cs)"
  by (induction cs arbitrary: bl b il i) (auto simp: Let_def split: if_splits)

definition migrant_ok :: "sched \<Rightarrow> nat \<Rightarrow> nat list \<Rightarrow> nat \<times> nat \<times> nat \<Rightarrow> bool" where
  "migrant_ok s l xs m \<longleftrightarrow> fst m \<in> set xs \<and> fst (snd m) = l \<and> \<not> on_cpu (procs s (fst m)) \<and> user_privilege (procs s (fst m))"

lemma scan_migrants_chain:
  "chain (nexts s) h xs \<Longrightarrow>
     \<exists>m. scan_migrants s l h best = Some m \<and> (m = best \<or> migrant_ok s l xs m)"
proof (induction xs arbitrary: h best)
  case Nil
  then show ?case by (subst scan_migrants.simps) simp
next
  case (Cons x xs)
  then have h: "h = x" "x \<noteq> 0" and ch: "chain (nexts s) (nexts s x) xs" by auto
  let ?b = "if \<not> on_cpu (procs s x) \<and> user_privilege (procs s x) \<and> cpu_time_ms (procs s x) < snd (snd best)
      then (x, l, cpu_time_ms (procs s x)) else best"
  have "scan_migrants s l h best = scan_migrants s l (nexts s x) ?b"
    using h by (subst scan_migrants.simps) (simp add: Let_def nexts_def)
  moreover obtain m where "scan_migrants s l (nexts s x) ?b = Some m" "m = ?b \<or> migrant_ok s l xs m"
    using Cons.IH[OF ch] by blast
  ultimately show ?case by (auto simp: migrant_ok_def split: if_splits)
qed

lemma scan_levels_rep:
  assumes rep: "rep s Q"
  shows "\<exists>m. scan_levels s c ls best = Some m \<and> (m = best \<or> (\<exists>l\<in>set ls. migrant_ok s l (Q c l) m))"
proof (induction ls arbitrary: best)
  case (Cons l ls)
  obtain m where m: "scan_migrants s l (rq_head (g_runqueues s c) l) best = Some m" "m = best \<or> migrant_ok s l (Q c l) m"
    using scan_migrants_chain[OF rep_chain[OF rep]] by blast
  then show ?case using Cons[of m] by auto
qed simp

text \<open>What the balancing does: nothing, or one user process that no CPU holds moves to the end of another CPU's queue.\<close>

definition migrated :: "sched \<Rightarrow> queues \<Rightarrow> nat \<Rightarrow> nat \<Rightarrow> queues" where
  "migrated s Q p c = qset (qdel Q p) c (sched_level (procs s p)) (qdel Q p c (sched_level (procs s p)) @ [p])"

lemma migrate_ok:
  assumes i: "sinv {} s w Q" and rep: "rep s Q" and m: "p \<in> set (Q b l)" "\<not> on_cpu (procs s p)" and c: "c < online_cpu_count s"
  defines "s1 \<equiv> rq_unlink s b l (last_or_null (takeWhile (\<lambda>x. x \<noteq> p) (Q b l))) p"
  defines "s2 \<equiv> upd_proc s1 p (sched_cpu_update (\<lambda>_. c))"
  shows "rep (rq_push s2 c p (sched_level (procs s2 p))) (migrated s Q p c)"
    and "sinv {} (rq_push s2 c p (sched_level (procs s2 p))) w (migrated s Q p c)"
proof -
  have u: "unlinked s1 = unlinked s" by (simp add: s1_def)
  note f = unlinked_fields[OF u]
  have r1: "rep s1 (qdel Q p)" unfolding s1_def by (rule rep_unlink_qdel[OF rep m(1)])
  have i1: "sinv {} s1 w (qdel Q p)" unfolding inv_unlinked[OF u] by (rule inv_sub[OF i]) (auto simp: qdel_def)
  note q = inv_queued[OF i m(1), unfolded queued_ok_def]
  have p0: "p \<noteq> 0" using inv_process[OF i] q by (auto simp: process_ok_def)
  have nq: "\<not> queued (qdel Q p) p" by (simp add: queued_def qdel_def)
  have nc: "current_process s c' \<noteq> p" for c' using inv_current_not_queued[OF i, of c'] m(1) p0 by (auto simp: queued_def)
  have nl: "\<not> live s1 w c' p" for c' using nc inv_left[OF i, of c' p] m(2) q f by (auto simp: live_def)
  have i2: "sinv {} s2 w (qdel Q p)" unfolding s2_def
    by (rule inv_move[OF i1 _ nq nl]) (use q f c inv_level[OF i] in simp_all)
  have lv: "sched_level (procs s2 p) = sched_level (procs s p)" using f by (simp add: s2_def)
  show "sinv {} (rq_push s2 c p (sched_level (procs s2 p))) w (migrated s Q p c)"
    unfolding migrated_def lv by (rule inv_push[OF i2]) (use q f nc inv_level[OF i] in \<open>auto simp: s2_def\<close>)
  show "rep (rq_push s2 c p (sched_level (procs s2 p))) (migrated s Q p c)"
    unfolding migrated_def lv by (rule rep_push) (use r1 p0 nq in \<open>auto simp: s2_def\<close>)
qed

lemma rebalance_ok:
  assumes i: "sinv {} s w Q" and rep: "rep s Q"
  obtains s' Q' where "scheduler_rebalance s = Some s'" "rep s' Q'" "sinv {} s' w Q'" "current_process s' = current_process s"
    "online_cpu_count s' = online_cpu_count s"
    "Q' = Q \<or> (\<exists>p b l c. p \<in> set (Q b l) \<and> \<not> on_cpu (procs s p) \<and> user_privilege (procs s p) \<and> c < online_cpu_count s \<and>
       Q' = migrated s Q p c)"
proof -
  obtain bl b il c where sc: "scan_loads s [0..<online_cpu_count s] ((0, 0), (0xFFFFFFFF, 0)) = ((bl, b), (il, c))"
    by (metis prod.collapse)
  have on: "c < online_cpu_count s" using scan_loads_in[OF sc] inv_machine[OF i] by (auto simp: machine_ok_def)
  obtain m where m: "scan_levels s b [0..<SCHED_NUM_LEVELS] (0, 0, 2 ^ 64 - 1) = Some m"
      "m = (0, 0, 2 ^ 64 - 1) \<or> (\<exists>l\<in>set [0..<SCHED_NUM_LEVELS]. migrant_ok s l (Q b l) m)"
    using scan_levels_rep[OF rep, of b "[0..<SCHED_NUM_LEVELS]"] by blast
  obtain p l t where mm: "m = (p, l, t)" by (cases m)
  show thesis
  proof (cases "online_cpu_count s < 2 \<or> online_cpu_count s > MAX_CPUS \<or> b = c \<or> bl < il + 2 \<or> p = 0")
    case True
    then have "scheduler_rebalance s = Some s" using sc m mm by (auto simp: scheduler_rebalance_def Let_def)
    then show thesis using that i rep by blast
  next
    case False
    then have mo: "p \<in> set (Q b l)" "\<not> on_cpu (procs s p)" "user_privilege (procs s p)"
      using m(2) mm by (auto simp: migrant_ok_def)
    let ?s1 = "rq_unlink s b l (last_or_null (takeWhile (\<lambda>x. x \<noteq> p) (Q b l))) p"
    let ?s2 = "upd_proc ?s1 p (sched_cpu_update (\<lambda>_. c))"
    let ?s' = "rq_push ?s2 c p (sched_level (procs ?s2 p))"
    have e: "scheduler_rebalance s = Some ?s'"
      using False sc m mm mo(1) find_prev_rep[OF rep, of p b l] by (simp add: scheduler_rebalance_def Let_def)
    note f = unlinked_fields[OF rq_unlink_unlinked[of s b l "last_or_null (takeWhile (\<lambda>x. x \<noteq> p) (Q b l))" p]]
    show thesis
    proof (rule that[OF e migrate_ok[OF i rep mo(1,2) on]])
      show "current_process ?s' = current_process s" "online_cpu_count ?s' = online_cpu_count s" using f(1,7) by simp_all
      show "migrated s Q p c = Q \<or> (\<exists>p' b l c'. p' \<in> set (Q b l) \<and> \<not> on_cpu (procs s p') \<and> user_privilege (procs s p') \<and>
          c' < online_cpu_count s \<and> migrated s Q p c = migrated s Q p' c')"
        using mo on by blast
    qed
  qed
qed

end
