(* ===== verification/Sched_Tick.thy ===== *)
theory Sched_Tick
  imports Sched_Ops
begin

text \<open>
  The timer tick, sleeping and exiting: each returns from every state of the invariant and keeps it.
\<close>

definition due :: "sched \<Rightarrow> nat \<Rightarrow> bool" where
  "due s p \<longleftrightarrow> cleanup_requested (procs s p) \<and> cleanup_deadline_ms (procs s p) \<le> clock_ms s"

text \<open>No CPU is just leaving a process that is about to be killed for an overdue cleanup.\<close>

definition calm :: "sched \<Rightarrow> window \<Rightarrow> bool" where
  "calm s w \<longleftrightarrow> (\<forall>c p n. w c = Some (p, n) \<longrightarrow> \<not> due s p)"

lemma calm_cong: "(\<And>p. due s' p = due s p) \<Longrightarrow> calm s w \<Longrightarrow> calm s' w"
  by (simp add: calm_def)

lemma wake_due [simp]: "due (wake_process c s p) q = due s q"
proof -
  have "cleanup_requested (procs (rq_push t c p l) q) = cleanup_requested (procs t q) \<and>
      cleanup_deadline_ms (procs (rq_push t c p l) q) = cleanup_deadline_ms (procs t q)" for t l
    using unlinked_fields(21,22)[OF rq_push_unlinked, of t c p l q] by simp
  then show ?thesis by (auto simp: due_def wake_process_def Let_def)
qed

lemma wake_all_due: "due (wake_sleeping_processes c s) q = due s q"
proof -
  have "due (foldl (wake_process c) s ps) q = due s q" for ps by (induction ps arbitrary: s) simp_all
  then show ?thesis by (simp add: wake_sleeping_processes_def)
qed

lemma expire_step:
  "expire_cleanup c s (p # ps) =
     (if due s p \<and> \<not> dead (procs s p) then
        (case scheduler_dequeue (upd_proc (s\<lparr>events := events s @ [Exit_Hooks p]\<rparr>) p (pstate_update (\<lambda>_. PROCESS_ZOMBIE))) p of
           None \<Rightarrow> None
         | Some s' \<Rightarrow>
             if p = current_process s' c then
               (case schedule c s' of
                  None \<Rightarrow> None
                | Some (Some w, t) \<Rightarrow> Some (Some w, t)
                | Some (None, t) \<Rightarrow> expire_cleanup c t ps)
             else expire_cleanup c s' ps)
      else expire_cleanup c s ps)"
  by (auto simp: due_def Let_def not_less split: option.splits)

declare expire_cleanup.simps(2) [simp del]

lemma expire_ok:
  "sinv {} s w Q \<Longrightarrow> rep s Q \<Longrightarrow> w c = None \<Longrightarrow> c < online_cpu_count s \<Longrightarrow> calm s w \<Longrightarrow>
     (\<And>p. p \<in> set ps \<Longrightarrow> p \<in> set (proc_list s) \<or> dead (procs s p)) \<Longrightarrow>
     \<exists>r s' Q'. expire_cleanup c s ps = Some (r, s') \<and> rep s' Q' \<and> sinv {} s' (w(c := r)) Q' \<and>
       online_cpu_count s' = online_cpu_count s"
proof (induction ps arbitrary: s Q)
  case Nil
  have "w(c := None) = w" using Nil.prems(3) by auto
  then show ?case using Nil by (intro exI[of _ None] exI[of _ s] exI[of _ Q]) simp
next
  case (Cons p ps)
  show ?case
  proof (cases "due s p \<and> \<not> dead (procs s p)")
    case False
    then have e: "expire_cleanup c s (p # ps) = expire_cleanup c s ps" by (subst expire_step) (simp only: if_False)
    show ?thesis unfolding e by (rule Cons.IH[OF Cons.prems(1-5)]) (use Cons.prems(6) in auto)
  next
    case True
    let ?e = "s\<lparr>events := events s @ [Exit_Hooks p]\<rparr>"
    let ?z = "upd_proc ?e p (pstate_update (\<lambda>_. PROCESS_ZOMBIE))"
    have e: "sinv {} ?e w Q" "rep ?e Q" using Cons.prems by simp_all
    have p: "p \<in> set (proc_list ?e)" using Cons.prems(6)[of p] True by simp
    have nw: "w c' \<noteq> Some (p, n)" for c' n using Cons.prems(5) True by (auto simp: calm_def)
    obtain t where t: "scheduler_dequeue ?z p = Some t" "rep t (qdel Q p)" "sinv {} t w (qdel Q p)" "unlinked t = unlinked ?z"
      by (rule park_ok[OF e p, of PROCESS_ZOMBIE]) (use nw in auto)
    note f = unlinked_fields[OF t(4)]
    have due: "due t q = due s q" for q using f by (auto simp: due_def)
    have dead: "dead (procs t q) \<longleftrightarrow> q = p \<or> dead (procs s q)" for q using f by (auto simp: dead_def)
    have t': "c < online_cpu_count t" "calm t w" "proc_list t = proc_list s" "online_cpu_count t = online_cpu_count s"
      using f Cons.prems(4) calm_cong[OF due Cons.prems(5)] by simp_all
    have rest: "q \<in> set (proc_list t) \<or> dead (procs t q)" if "q \<in> set ps" for q
      using Cons.prems(6)[of q] that t'(3) dead by auto
    show ?thesis
    proof (cases "p = current_process t c")
      case False
      then have e: "expire_cleanup c s (p # ps) = expire_cleanup c t ps" using True t(1) by (simp add: expire_step)
      show ?thesis unfolding e t'(4)[symmetric] by (rule Cons.IH[OF t(3,2) Cons.prems(3) t'(1,2) rest])
    next
      case here: True
      have p0: "p \<noteq> 0" using inv_process[OF e(1) p] by (simp add: process_ok_def)
      obtain r u Q' where u: "schedule c t = Some (r, u)" "rep u Q'" "sinv {} u (w(c := r)) Q'"
          and on: "online_cpu_count u = online_cpu_count t"
        by (rule yield_ok[OF t(3,2) Cons.prems(3) t'(1)])
      show ?thesis
      proof (cases r)
        case (Some x)
        then have "expire_cleanup c s (p # ps) = Some (r, u)" using True t(1) u(1) here by (simp add: expire_step)
        moreover have "online_cpu_count u = online_cpu_count s" using on t'(4) by simp
        ultimately show ?thesis using u(2,3) by blast
      next
        case None
        have "dead (procs t (current_process t c))" "current_process t c \<noteq> 0" using dead here p0 by auto
        note k = schedule_keeps[OF t(3,2) Cons.prems(3) t'(1) this(2,1) u(1)[unfolded None]]
        have w: "w(c := None) = w" using Cons.prems(3) by auto
        have "due u q = due t q" for q by (simp add: due_def k)
        then have calm: "calm u w" using calm_cong t'(2) by blast
        have rest': "q \<in> set (proc_list u) \<or> dead (procs u q)" if "q \<in> set ps" for q
          using rest[OF that] reaped_dead[of q t c] k(1,5) by (auto simp: dead_def)
        have e: "expire_cleanup c s (p # ps) = expire_cleanup c u ps" using True t(1) u(1) here None by (simp add: expire_step)
        have "sinv {} u w Q'" "c < online_cpu_count u" "online_cpu_count s = online_cpu_count u" using u(3) None w on t' by simp_all
        then show ?thesis unfolding e using Cons.IH[OF _ u(2) Cons.prems(3) _ calm rest'] by simp
      qed
    qed
  qed
qed

section \<open>The tick\<close>

lemma inv_upd_same:
  assumes "sinv X s w Q" "\<And>q. pstate (f q) = pstate q" "\<And>q. sched_cpu (f q) = sched_cpu q" "\<And>q. on_cpu (f q) = on_cpu q"
    "p \<in> set (proc_list s) \<Longrightarrow> sched_level (f (procs s p)) < SCHED_NUM_LEVELS"
  shows "sinv X (upd_proc s p f) w Q"
  by (rule inv_upd[OF assms(1)])
    (use assms(2-) inv_queued_ready[OF assms(1)] inv_awake[OF assms(1)] inv_left[OF assms(1)] in \<open>auto simp: dead_def\<close>)

lemma charge_ok:
  assumes i: "sinv {} s w Q" and rep: "rep s Q" and w: "w c = None" and c: "c < online_cpu_count s"
  obtains r s' Q' where "charge_tick c s = Some (r, s')" "rep s' Q'" "sinv {} s' (w(c := r)) Q'"
proof -
  let ?cur = "current_process s c"
  define s0 where "s0 = upd_proc s ?cur (\<lambda>p. p\<lparr>sched_ticks_used := sched_ticks_used p + 1, cpu_time_ms := cpu_time_ms p + 1\<rparr>)"
  define s1 where "s1 = s0\<lparr>g_global_tick_count := g_global_tick_count s0 + 1\<rparr>"
  have s1: "sinv {} s1 w Q" "rep s1 Q" "online_cpu_count s1 = online_cpu_count s"
    unfolding s1_def inv_misc rep_misc s0_def by (rule inv_upd_same[OF i]; use inv_level[OF i] in auto) (use rep in auto)
  let ?boost = "g_global_tick_count s1 mod SCHED_BOOST_INTERVAL_TICKS = 0"
  let ?move = "g_global_tick_count s1 mod SCHED_REBALANCE_INTERVAL_TICKS = 0"
  obtain s2 Q2 where s2: "(if ?boost then scheduler_priority_boost s1 else Some s1) = Some s2" "rep s2 Q2" "sinv {} s2 w Q2"
      "online_cpu_count s2 = online_cpu_count s"
  proof (cases ?boost)
    case True
    show thesis by (rule boost_ok[OF s1(1,2)]) (use True that s1(3) in auto)
  qed (use that s1 in auto)
  obtain s3 Q3 where s3: "(if ?move then scheduler_rebalance s2 else Some s2) = Some s3" "rep s3 Q3" "sinv {} s3 w Q3"
      "online_cpu_count s3 = online_cpu_count s"
  proof (cases ?move)
    case True
    show thesis by (rule rebalance_ok[OF s2(3,2)]) (use True that s2(4) in auto)
  qed (use that s2 in auto)
  have c3: "c < online_cpu_count s3" using c s3(4) by simp
  let ?level = "if sched_level (procs s3 ?cur) \<ge> SCHED_NUM_LEVELS then SCHED_NUM_LEVELS - 1 else sched_level (procs s3 ?cur)"
  define s4 where "s4 = upd_proc s3 ?cur (\<lambda>p. p\<lparr>sched_level := (if sched_level p < SCHED_NUM_LEVELS - 1 then sched_level p + 1 else sched_level p),
      sched_ticks_used := 0\<rparr>)"
  have s4: "sinv {} s4 w Q3" "rep s4 Q3" "c < online_cpu_count s4"
    unfolding s4_def by (rule inv_upd_same[OF s3(3)]; use inv_level[OF s3(3)] in auto) (use s3(2) c3 in auto)
  have charge: "charge_tick c s =
      (if c < MAX_CPUS \<and> better_ready c s3 ?level then schedule c s3
       else if sched_ticks_used (procs s3 ?cur) \<ge> sched_level_quantum_ticks ! ?level then schedule c s4 else Some (None, s3))"
    unfolding charge_tick_def Let_def s0_def[symmetric] s1_def[symmetric]
    by (simp only: s2(1) s3(1) Option.bind.simps s4_def)
  consider "c < MAX_CPUS \<and> better_ready c s3 ?level" | "\<not> (c < MAX_CPUS \<and> better_ready c s3 ?level)" "sched_ticks_used (procs s3 ?cur) \<ge> sched_level_quantum_ticks ! ?level"
    | "\<not> (c < MAX_CPUS \<and> better_ready c s3 ?level)" "\<not> sched_ticks_used (procs s3 ?cur) \<ge> sched_level_quantum_ticks ! ?level" by blast
  then show thesis
  proof cases
    case 1
    then show thesis using yield_ok[OF s3(3,2) w c3] charge that by metis
  next
    case 2
    then show thesis using yield_ok[OF s4(1,2) w s4(3)] charge that by metis
  next
    case 3
    have "w(c := None) = w" using w by auto
    moreover have "charge_tick c s = Some (None, s3)" unfolding charge using 3 by (simp only: if_False)
    ultimately show thesis using that[of None s3 Q3] s3(2,3) by metis
  qed
qed

lemma tick_current_ok:
  assumes i: "sinv {} s w Q" and rep: "rep s Q" and w: "w c = None" and c: "c < online_cpu_count s"
  obtains r s' Q' where "tick_current c s b = Some (r, s')" "rep s' Q'" "sinv {} s' (w(c := r)) Q'"
proof -
  let ?s = "count_usage c s"
  have u: "sinv {} ?s w Q" "rep ?s Q" "c < online_cpu_count ?s" "current_process ?s = current_process s"
    using i rep c by (simp_all add: count_usage_def Let_def)
  have none: "w(c := None) = w" using w by auto
  consider (wait) "b \<or> current_process ?s c = 0" | (idle) "\<not> (b \<or> current_process ?s c = 0)" "scheduler_is_idle_process ?s (current_process ?s c)"
    | (run) "\<not> (b \<or> current_process ?s c = 0)" "\<not> scheduler_is_idle_process ?s (current_process ?s c)" by argo
  then show thesis
  proof cases
    case wait
    then have "tick_current c s b = Some (None, ?s)" by (simp add: tick_current_def Let_def)
    then show thesis using that[of None ?s Q] u none by simp
  next
    case idle
    then have t: "tick_current c s b = (if rq_total ?s c > 0 then schedule c ?s else Some (None, ?s))"
      by (simp add: tick_current_def Let_def)
    show thesis
    proof (cases "rq_total ?s c > 0")
      case True
      then show thesis using yield_ok[OF u(1,2) w u(3)] t that by metis
    next
      case False
      then show thesis using that[of None ?s Q] u none t by simp
    qed
  next
    case run
    then have "tick_current c s b = charge_tick c ?s" by (simp add: tick_current_def Let_def)
    then show thesis using charge_ok[OF u(1,2) w u(3)] that by metis
  qed
qed

lemma tick_ok:
  assumes i: "sinv {} s w Q" and rep: "rep s Q" and w: "w c = None" and c: "c < online_cpu_count s" and calm: "calm s w"
  obtains r s' Q' where "scheduler_tick c s = Some (r, s')" "rep s' Q'" "sinv {} s' (w(c := r)) Q'"
proof (cases "scheduler_on s")
  case False
  have "w(c := None) = w" using w by auto
  then show thesis using that[of None s Q] False i rep by (simp add: scheduler_tick_def)
next
  case True
  let ?k = "wake_sleeping_processes c s"
  obtain Q1 where k: "rep ?k Q1" "sinv {} ?k w Q1" by (rule wake_ok[OF i rep])
  have k': "c < online_cpu_count ?k" "calm ?k w" using c calm_cong[OF wake_all_due calm] by (simp_all add: wake_sleeping_processes_def)
  obtain r1 t Q2 where t: "expire_cleanup_requests c ?k = Some (r1, t)" "rep t Q2" "sinv {} t (w(c := r1)) Q2"
      "online_cpu_count t = online_cpu_count ?k"
    using expire_ok[OF k(2,1) w k', of "proc_list ?k"] by (auto simp: expire_cleanup_requests_def)
  have none: "w(c := None) = w" using w by auto
  show thesis
  proof (cases r1)
    case (Some x)
    then show thesis using that t True by (simp add: scheduler_tick_def)
  next
    case None
    have t': "sinv {} t w Q2" "c < online_cpu_count t" using t None none k'(1) by simp_all
    show thesis
    proof (cases "current_process t c = 0")
      case False
      then have "scheduler_tick c s = tick_current c t False" using True None t(1) by (simp add: scheduler_tick_def)
      then show thesis using tick_current_ok[OF t'(1) t(2) w t'(2)] that by metis
    next
      case idle: True
      obtain r u Q3 where u: "schedule c t = Some (r, u)" "rep u Q3" "sinv {} u (w(c := r)) Q3" "online_cpu_count u = online_cpu_count t"
        by (rule yield_ok[OF t'(1) t(2) w t'(2)])
      have e: "scheduler_tick c s = (case r of None \<Rightarrow> tick_current c u True | Some x \<Rightarrow> Some (Some x, u))"
        using True None t(1) idle u(1) by (simp add: scheduler_tick_def split: option.splits)
      show thesis
      proof (cases r)
        case (Some x)
        then show thesis using e that u by simp
      next
        case None
        have u': "sinv {} u w Q3" "c < online_cpu_count u" using u None none t'(2) by simp_all
        have "scheduler_tick c s = tick_current c u True" using e None by simp
        then show thesis using tick_current_ok[OF u'(1) u(2) w u'(2)] that by metis
      qed
    qed
  qed
qed

section \<open>Sleeping and exiting\<close>

lemma current_window: "sinv X s w Q \<Longrightarrow> w c = None \<Longrightarrow> current_process s c \<noteq> 0 \<Longrightarrow> w c' \<noteq> Some (current_process s c, n)"
  using live_unique[of X s w Q c "current_process s c" c'] by (auto simp: live_def)

lemma sleep_ok:
  assumes i: "sinv {} s w Q" and rep: "rep s Q" and w: "w c = None" and c: "c < online_cpu_count s"
    and other: "c = master_core s \<Longrightarrow> rq_total s c > 0"
  obtains r s' Q' where "sleep c s ms = Some (r, s')" "rep s' Q'" "sinv {} s' (w(c := r)) Q'"
proof -
  have none: "w(c := None) = w" using w by auto
  let ?cur = "current_process s c"
  let ?s = "upd_proc s ?cur (\<lambda>p. p\<lparr>wake_time_ms := clock_ms s + ms, pstate := PROCESS_WAITING\<rparr>)"
  consider "ms = 0" | "ms \<noteq> 0" "?cur = 0" | "ms \<noteq> 0" "?cur \<noteq> 0" by blast
  then show thesis
  proof cases
    case 1
    then show thesis using that[of None s Q] i rep none by (simp add: sleep_def)
  next
    case 2
    then show thesis using that[of None "s\<lparr>clock_ms := clock_ms s + ms\<rparr>" Q] i rep none by (simp add: sleep_def)
  next
    case 3
    have nq: "\<not> queued Q ?cur" using inv_current_not_queued[OF i, of c] 3 by simp
    have x: "sinv {c} s w Q" by (rule inv_weaken[OF i]) simp
    have only: "c' = c" if "current_process s c' = ?cur" for c'
      using live_unique[OF i, of c ?cur c'] that 3 by (simp add: live_def)
    have u: "sinv {c} ?s w Q"
      by (rule inv_upd[OF x]) (use nq inv_level[OF i] current_window[OF i w 3(2)] only in auto)
    have r: "rep ?s Q" using rep by simp
    have e: "sleep c s ms = schedule c ?s" using 3 by (simp add: sleep_def)
    show thesis
    proof (rule schedule_ok[OF u r w])
      show "pstate (procs ?s (current_process ?s c)) \<noteq> PROCESS_WAITING \<or> current_process ?s c = 0"
        if "c = master_core ?s" "best_level Q c = None"
        using total_best[OF rep, of c] other that by simp
    qed (use c nq e that in auto)
  qed
qed

lemma exit_ok:
  assumes i: "sinv {} s w Q" and rep: "rep s Q" and w: "w c = None" and c: "c < online_cpu_count s"
    and cur: "current_process s c \<noteq> 0"
  obtains r s' Q' where "process_exit_with_status c s code crash vec = Some (r, s')" "rep s' Q'" "sinv {} s' (w(c := r)) Q'"
proof -
  let ?cur = "current_process s c"
  let ?s = "upd_proc s ?cur (\<lambda>p. p\<lparr>exit_code := code, crashed := crash, crash_vector := vec, pstate := PROCESS_TERMINATED\<rparr>)"
  let ?e = "?s\<lparr>events := events ?s @ [Exit_Hooks ?cur, Exit_Report ?cur code crash vec]\<rparr>"
  have nq: "\<not> queued Q ?cur" using inv_current_not_queued[OF i, of c] cur by simp
  have "sinv {} ?s w Q"
    by (rule inv_upd[OF i]) (use nq inv_level[OF i] current_window[OF i w cur] in auto)
  then have u: "sinv {} ?e w Q" "rep ?e Q" "c < online_cpu_count ?e" using rep c by simp_all
  have "process_exit_with_status c s code crash vec = schedule c ?e" using cur by (simp add: process_exit_with_status_def Let_def)
  then show thesis using yield_ok[OF u(1,2) w u(3)] that by metis
qed

end
