(* ===== verification/Proc.thy ===== *)
theory Proc
  imports Scheduler CString
begin

text \<open>
  \<^verbatim>\<open>src/impl/proc/proc.c\<close> and \<^verbatim>\<open>src/impl/handlers/prochandler.c\<close>: creating, finding, pausing and killing processes.
  C strings are byte lists without their terminator. What the allocators return to \<^verbatim>\<open>proc_create_ex\<close> is its
  argument \<open>m\<close>, with \<open>0\<close> for NULL; a panic is \<^const>\<open>None\<close>. As in the scheduler the first argument is the CPU that
  executes the operation.
\<close>

section \<open>Creation\<close>

definition MAX_PROCESS_NAME_LEN :: nat where "MAX_PROCESS_NAME_LEN = 128"

record creation =
  new_proc :: nat
  kernel_pml4 :: nat
  cloned_pml4 :: nat
  stack_mem :: nat
  stack_pages_mem :: nat
  user_stack_mem :: nat
  user_stack_pages_mem :: nat
  proc_trampoline :: nat

definition get_next_pid :: "sched \<Rightarrow> nat \<times> sched" where
  "get_next_pid s = (pid_counter s, s\<lparr>pid_counter := w64 (pid_counter s + 1)\<rparr>)"

text \<open>Appending to the name stops when the buffer is full.\<close>

definition name_add :: "bytes \<Rightarrow> bytes \<Rightarrow> bytes" where
  "name_add p xs = p @ take (MAX_PROCESS_NAME_LEN - 1 - length p) xs"

definition proc_name :: "bytes option \<Rightarrow> nat \<Rightarrow> nat \<Rightarrow> bytes" where
  "proc_name file_name entry n =
     (let p = name_add [] (case file_name of Some f \<Rightarrow> f | None \<Rightarrow> map char_byte ''unknown'');
          p = name_add p (map char_byte ''@'');
          p = name_add p (hex_to_str entry);
          p = name_add p (map char_byte '' [pid='');
          p = name_add p (uint_to_str n)
      in name_add p (map char_byte '']''))"

definition blank_process :: process where
  "blank_process =
     \<lparr>pid = 0, pname = [], pstate = PROCESS_READY, regs = replicate 9 0, pml4 = 0, kernel_stack = 0, user_stack = 0,
      wake_time_ms = 0, cpu_time_ms = 0, creation_time_ms = 0, entry_point = 0, sched_level = 0, sched_cpu = 0,
      sched_ticks_used = 0, rq_next = 0, user_privilege = False, user_image_phys = 0, user_image_pages = 0,
      user_stack_phys = 0, user_stack_pages = 0, kernel_stack_page_backed = False, kernel_stack_pages = 0,
      cleanup_entry = 0, cleanup_deadline_ms = 0, cleanup_requested = False, cleanup_invoked = False,
      user_heap_allocations = [], exit_code = 0, crashed = False, crash_vector = 0, user_image_address = 0,
      user_image_size = 0, user_stack_address = 0, user_stack_size = 0, parent_pid = 0, is_window_manager = False,
      on_cpu = False\<rparr>"

text \<open>The kernel stack comes from the heap, or page by page when the heap is full.\<close>

definition give_stack :: "creation \<Rightarrow> process \<Rightarrow> process option" where
  "give_stack m p =
     (if stack_mem m \<noteq> 0 then Some (p\<lparr>kernel_stack := w64 (stack_mem m + STACK_SIZE)\<rparr>)
      else if stack_pages_mem m = 0 then None
      else Some (p\<lparr>kernel_stack_pages := (STACK_SIZE + 0xFFF) div 0x1000, kernel_stack_page_backed := True,
                   kernel_stack := w64 (stack_pages_mem m + STACK_SIZE)\<rparr>))"

definition give_user_stack :: "creation \<Rightarrow> process \<Rightarrow> process option" where
  "give_user_stack m p =
     (if user_stack_mem m \<noteq> 0 then Some (p\<lparr>user_stack := w64 (user_stack_mem m + STACK_SIZE)\<rparr>)
      else if user_stack_pages_mem m = 0 then None
      else Some (p\<lparr>user_stack := w64 (user_stack_pages_mem m + STACK_SIZE)\<rparr>))"

definition new_process :: "nat \<Rightarrow> sched \<Rightarrow> creation \<Rightarrow> nat \<Rightarrow> bytes option \<Rightarrow> nat \<Rightarrow> bool \<Rightarrow> process option" where
  "new_process c s m n file_name entry user =
     (let cur = current_process s c;
          p = blank_process\<lparr>pid := n, pstate := PROCESS_READY, user_privilege := user,
                parent_pid := (if cur \<noteq> 0 then pid (procs s cur) else 0),
                is_window_manager := (user \<and> file_name = Some (map char_byte ''0:/programs/mosWM/mosWM.run'') \<and>
                  cur \<noteq> 0 \<and> \<not> user_privilege (procs s cur)),
                creation_time_ms := clock_ms s, pname := proc_name file_name entry n,
                pml4 := (if user then cloned_pml4 m else kernel_pml4 m)\<rparr>
      in if pml4 p = 0 then None
         else do {
           p \<leftarrow> give_stack m p;
           p \<leftarrow> give_user_stack m p;
           Some (p\<lparr>entry_point := entry,
                   regs := (regs p)[6 := sub64 (16 * (kernel_stack p div 16)) 8, 7 := proc_trampoline m, 8 := 0x202]\<rparr>)
         })"

definition proc_create_ex :: "nat \<Rightarrow> sched \<Rightarrow> creation \<Rightarrow> bytes option \<Rightarrow> nat \<Rightarrow> bool \<Rightarrow> (nat \<times> sched) option" where
  "proc_create_ex c s m file_name entry user =
     (let proc = new_proc m in
      if proc = 0 then None
      else
        let (n, s) = get_next_pid s
        in case new_process c s m n file_name entry user of
             None \<Rightarrow> None
           | Some p \<Rightarrow>
               let s = s\<lparr>procs := (procs s)(proc := p), proc_list := proc # proc_list s\<rparr>
               in if user then Some (proc, upd_proc s proc (pstate_update (\<lambda>_. PROCESS_PAUSED)))
                  else Some (proc, scheduler_enqueue_new s proc))"

definition proc_start :: "sched \<Rightarrow> nat \<Rightarrow> sched" where
  "proc_start s proc =
     (if proc = 0 \<or> pstate (procs s proc) \<noteq> PROCESS_PAUSED then s
      else scheduler_enqueue_new (upd_proc s proc (pstate_update (\<lambda>_. PROCESS_READY))) proc)"

definition proc_create :: "nat \<Rightarrow> sched \<Rightarrow> creation \<Rightarrow> bytes option \<Rightarrow> nat \<Rightarrow> (nat \<times> sched) option" where
  "proc_create c s m file_name entry = proc_create_ex c s m file_name entry False"

text \<open>
  \<^verbatim>\<open>createProcessWithPrivilege\<close> marks the new kernel process ready once more after \<^verbatim>\<open>proc_create_ex\<close> has queued it, when
  another CPU may run it already: the two halves are separate steps.
\<close>

definition mark_created :: "sched \<Rightarrow> nat \<Rightarrow> bool \<Rightarrow> sched" where
  "mark_created s proc user = (if \<not> user then upd_proc s proc (pstate_update (\<lambda>_. PROCESS_READY)) else s)"

definition createProcessWithPrivilege :: "nat \<Rightarrow> sched \<Rightarrow> creation \<Rightarrow> bytes option \<Rightarrow> nat \<Rightarrow> bool \<Rightarrow> (nat \<times> sched) option" where
  "createProcessWithPrivilege c s m file_name entry user =
     (if file_name = None \<or> entry = 0 then Some (0, s)
      else case proc_create_ex c s m file_name entry user of
        None \<Rightarrow> None
      | Some (proc, s) \<Rightarrow> Some (proc, mark_created s proc user))"

definition createProcess :: "nat \<Rightarrow> sched \<Rightarrow> creation \<Rightarrow> bytes option \<Rightarrow> nat \<Rightarrow> (nat \<times> sched) option" where
  "createProcess c s m file_name entry = createProcessWithPrivilege c s m file_name entry False"

definition createUserProcess :: "nat \<Rightarrow> sched \<Rightarrow> creation \<Rightarrow> bytes option \<Rightarrow> nat \<Rightarrow> (nat \<times> sched) option" where
  "createUserProcess c s m file_name entry = createProcessWithPrivilege c s m file_name entry True"

section \<open>Lookup\<close>

fun find_pid :: "sched \<Rightarrow> nat list \<Rightarrow> nat \<Rightarrow> nat" where
  "find_pid s [] n = 0"
| "find_pid s (p # ps) n = (if pid (procs s p) = n then p else find_pid s ps n)"

definition findProcessByPID :: "sched \<Rightarrow> nat \<Rightarrow> nat" where
  "findProcessByPID s n = find_pid s (proc_list s) n"

fun same_name :: "bytes \<Rightarrow> bytes \<Rightarrow> bool" where
  "same_name (a # as) (b # bs) = (a = b \<and> same_name as bs)"
| "same_name [] [] = True"
| "same_name _ _ = False"

fun find_name :: "sched \<Rightarrow> nat list \<Rightarrow> bytes \<Rightarrow> nat" where
  "find_name s [] n = 0"
| "find_name s (p # ps) n = (if same_name (pname (procs s p)) n then p else find_name s ps n)"

definition get_proc_by_name :: "sched \<Rightarrow> bytes option \<Rightarrow> nat" where
  "get_proc_by_name s n = (case n of None \<Rightarrow> 0 | Some n \<Rightarrow> find_name s (proc_list s) n)"

definition findProcessByName :: "sched \<Rightarrow> bytes option \<Rightarrow> nat" where
  "findProcessByName s n = (if n = None then 0 else get_proc_by_name s n)"

text \<open>\<^verbatim>\<open>get_procs\<close> with the allocator's answer: the list, and the count it reports.\<close>

definition get_procs :: "sched \<Rightarrow> bool \<Rightarrow> nat list option \<times> nat" where
  "get_procs s allocated =
     (if length (proc_list s) = 0 then (None, 0)
      else if \<not> allocated then (None, 0)
      else (Some (proc_list s), length (proc_list s)))"

definition getProcessCount :: "sched \<Rightarrow> nat" where
  "getProcessCount s = length (proc_list s)"

definition getProcessCountByState :: "sched \<Rightarrow> process_state \<Rightarrow> nat" where
  "getProcessCountByState s st = length (filter (\<lambda>p. pstate (procs s p) = st) (proc_list s))"

definition getprocslist :: "sched \<Rightarrow> nat \<Rightarrow> nat list" where
  "getprocslist s max_procs = take max_procs (proc_list s)"

definition getprocslistNames :: "sched \<Rightarrow> nat \<Rightarrow> bytes list" where
  "getprocslistNames s max_procs = map (\<lambda>p. pname (procs s p)) (take max_procs (proc_list s))"

definition getCurrentProcess :: "nat \<Rightarrow> sched \<Rightarrow> nat" where
  "getCurrentProcess c s = current_process s c"

definition getCurrentPID :: "nat \<Rightarrow> sched \<Rightarrow> nat" where
  "getCurrentPID c s = (if current_process s c \<noteq> 0 then pid (procs s (current_process s c)) else 0)"

definition getCurrentProcessName :: "nat \<Rightarrow> sched \<Rightarrow> bytes" where
  "getCurrentProcessName c s =
     (if current_process s c \<noteq> 0 then pname (procs s (current_process s c)) else map char_byte ''none'')"

definition isCurrentProcessUser :: "nat \<Rightarrow> sched \<Rightarrow> bool" where
  "isCurrentProcessUser c s \<longleftrightarrow> current_process s c \<noteq> 0 \<and> user_privilege (procs s (current_process s c))"

section \<open>Ending, pausing and resuming\<close>

definition kill :: "sched \<Rightarrow> nat \<Rightarrow> sched option" where
  "kill s proc =
     (if proc = 0 then Some s
      else scheduler_dequeue (upd_proc (s\<lparr>events := events s @ [Exit_Hooks proc]\<rparr>) proc (pstate_update (\<lambda>_. PROCESS_ZOMBIE))) proc)"

text \<open>The rest of killing or pausing: off the queue, and away from it when it is the caller itself.\<close>

definition leave_cpu :: "nat \<Rightarrow> sched \<Rightarrow> nat \<Rightarrow> (switch \<times> sched) option" where
  "leave_cpu c s proc =
     (case scheduler_dequeue s proc of
        None \<Rightarrow> None
      | Some s \<Rightarrow> if proc = current_process s c then schedule c s else Some (None, s))"

definition killProcess :: "nat \<Rightarrow> sched \<Rightarrow> nat \<Rightarrow> (bool \<times> switch \<times> sched) option" where
  "killProcess c s n =
     (if n = 0 then Some (False, None, s)
      else
        let proc = find_pid s (proc_list s) n in
        if proc = 0 then Some (False, None, s)
        else if dead (procs s proc) then Some (False, None, s)
        else map_option (\<lambda>r. (True, r))
          (leave_cpu c (upd_proc (s\<lparr>events := events s @ [Exit_Hooks proc]\<rparr>) proc (pstate_update (\<lambda>_. PROCESS_ZOMBIE))) proc))"

definition requestProcessCleanup :: "nat \<Rightarrow> sched \<Rightarrow> nat \<Rightarrow> (bool \<times> switch \<times> sched) option" where
  "requestProcessCleanup c s n =
     (let proc = findProcessByPID s n in
      if proc = 0 \<or> \<not> user_privilege (procs s proc) \<or> dead (procs s proc) then Some (False, None, s)
      else if cleanup_entry (procs s proc) = 0 then killProcess c s n
      else Some (True, None, upd_proc s proc (\<lambda>p.
             p\<lparr>cleanup_requested := True, cleanup_invoked := False, cleanup_deadline_ms := clock_ms s + 1000\<rparr>)))"

definition killProcessByName :: "nat \<Rightarrow> sched \<Rightarrow> bytes option \<Rightarrow> (bool \<times> switch \<times> sched) option" where
  "killProcessByName c s n =
     (if n = None then Some (False, None, s)
      else
        let proc = get_proc_by_name s n
        in if proc = 0 then Some (False, None, s) else killProcess c s (pid (procs s proc)))"

definition pauseProcess :: "nat \<Rightarrow> sched \<Rightarrow> nat \<Rightarrow> (bool \<times> switch \<times> sched) option" where
  "pauseProcess c s n =
     (let proc = findProcessByPID s n in
      if proc = 0 then Some (False, None, s)
      else if pstate (procs s proc) = PROCESS_PAUSED then Some (False, None, s)
      else if dead (procs s proc) then Some (False, None, s)
      else map_option (\<lambda>r. (True, r)) (leave_cpu c (upd_proc s proc (pstate_update (\<lambda>_. PROCESS_PAUSED))) proc))"

definition unpauseProcess :: "sched \<Rightarrow> nat \<Rightarrow> bool \<times> sched" where
  "unpauseProcess s n =
     (let proc = findProcessByPID s n in
      if proc = 0 then (False, s)
      else if pstate (procs s proc) \<noteq> PROCESS_PAUSED then (False, s)
      else (True, scheduler_enqueue_existing (upd_proc s proc (pstate_update (\<lambda>_. PROCESS_READY))) proc))"

definition pauseProcessByName :: "nat \<Rightarrow> sched \<Rightarrow> bytes option \<Rightarrow> (bool \<times> switch \<times> sched) option" where
  "pauseProcessByName c s n =
     (let proc = findProcessByName s n
      in if proc = 0 then Some (False, None, s) else pauseProcess c s (pid (procs s proc)))"

definition unpauseProcessByName :: "sched \<Rightarrow> bytes option \<Rightarrow> bool \<times> sched" where
  "unpauseProcessByName s n =
     (let proc = findProcessByName s n
      in if proc = 0 then (False, s) else unpauseProcess s (pid (procs s proc)))"

end
