(* ===== verification/Sched_Run.thy ===== *)
theory Sched_Run
  imports Sched_Tick Proc
begin

text \<open>
  The scheduler and the process operations as a machine: the CPUs take turns, each operation that a CPU executes is a
  step, and so is the context switch in which an operation ends. A configuration is the state with the switches in
  progress. The guards of the steps say when the code may be entered.
\<close>

section \<open>Process operations keep the invariant\<close>

lemma rep_fresh:
  assumes rep: "rep s Q" and nq: "\<not> queued Q p" and s': "g_runqueues s' = g_runqueues s" "\<And>q. q \<noteq> p \<Longrightarrow> rq_next (procs s' q) = rq_next (procs s q)"
  shows "rep s' Q"
proof -
  have "queue_at (nexts s') (g_runqueues s' c) l (Q c l)" for c l
  proof -
    have "nexts s' x = nexts s x" if "x \<in> set (Q c l)" for x
      using nq that s'(2)[of x] by (auto simp: queued_def nexts_def)
    then show ?thesis
      using rep_queue[OF rep, of c l] queue_at_cong[of "Q c l" "nexts s'" "nexts s" "g_runqueues s' c" l "g_runqueues s c"] s'(1) by simp
  qed
  then show ?thesis using rep by (simp add: rep_def)
qed

lemma unlisted_unused:
  assumes i: "sinv X s w Q" and p: "p \<notin> set (proc_list s)" "\<not> scheduler_is_idle_process s p"
  shows "\<not> queued Q p" "\<not> live s w c p"
proof -
  show "\<not> queued Q p" using inv_queued[OF i] p(1) by (auto simp: queued_def queued_ok_def)
  show "\<not> live s w c p"
  proof
    assume l: "live s w c p"
    then have "p = ap_idle s c" "c < MAX_CPUS" "p \<noteq> 0"
      using inv_live[OF i l] p(1) inv_machine[OF i] by (auto simp: belongs_def machine_ok_def live_def)
    then show False using p(2) by (auto simp: scheduler_is_idle_process_def list_ex_iff)
  qed
qed

lemma inv_create:
  assumes i: "sinv {} s w Q" and rep: "rep s Q" and p: "p \<noteq> 0" "p \<notin> set (proc_list s)" "\<not> scheduler_is_idle_process s p"
    and f: "sched_cpu q < online_cpu_count s" "sched_level q < SCHED_NUM_LEVELS"
  defines "s' \<equiv> s\<lparr>procs := (procs s)(p := q), proc_list := p # proc_list s\<rparr>"
  shows "sinv {} s' w Q" "rep s' Q" "\<not> live s' w c p"
proof -
  have nq: "\<not> queued Q p" and nl: "\<not> live s w c p" for c using unlisted_unused[OF i p(2,3)] by auto
  have nc: "current_process s c \<noteq> p" and nw: "w c \<noteq> Some (p, n)" for c n using nl[of c] p(1) by (auto simp: live_def)
  show "rep s' Q" by (rule rep_fresh[OF rep nq]) (simp_all add: s'_def)
  show "\<not> live s' w c p" using nl[of c] by (simp add: live_def s'_def)
  show "sinv {} s' w Q"
  proof (rule invI)
    show "machine_ok s'" using inv_machine[OF i] by (simp add: machine_ok_def s'_def)
    show "distinct (proc_list s')" using i p by (simp add: sinv_def s'_def)
    show "process_ok s' r" if "r \<in> set (proc_list s')" for r
      using inv_process[OF i, of r] that f p by (auto simp: process_ok_def scheduler_is_idle_process_def s'_def)
    show "queued_ok s' c l r" if "r \<in> set (Q c l)" for c l r
      using inv_queued[OF i that] that nq by (auto simp: queued_ok_def queued_def s'_def)
    show "belongs s' r c" if "live s' w c r" for c r
      using inv_live[OF i, of c r] that nl[of c] by (auto simp: live_def belongs_def s'_def)
    show "current_ok s' Q c" for c
      using inv_current[OF i, of c] nc[of c] by (auto simp: current_ok_def Let_def s'_def)
    show "leaving_ok s' c r" if "w c = Some r" for c r
      using inv_leaving[OF i that] nw[of c "snd r"] that by (cases r) (auto simp: leaving_ok_def s'_def)
  qed
qed

lemma give_stack_fields:
  "give_stack m p = Some q \<Longrightarrow> sched_cpu q = sched_cpu p \<and> sched_level q = sched_level p \<and> pstate q = pstate p"
  "give_user_stack m p = Some q \<Longrightarrow> sched_cpu q = sched_cpu p \<and> sched_level q = sched_level p \<and> pstate q = pstate p"
  by (auto simp: give_stack_def give_user_stack_def split: if_splits)

lemma new_process_fields:
  "new_process c s m n name entry user = Some p \<Longrightarrow> sched_cpu p = 0 \<and> sched_level p = 0 \<and> pstate p = PROCESS_READY"
  by (auto simp: new_process_def blank_process_def Let_def bind_eq_Some_conv split: if_splits dest!: give_stack_fields)

lemma create_ok:
  assumes i: "sinv {} s w Q" and rep: "rep s Q" and p: "new_proc m \<notin> set (proc_list s)" "\<not> scheduler_is_idle_process s (new_proc m)"
    and r: "proc_create_ex c s m name entry user = Some (p, s')"
  obtains Q' where "rep s' Q'" "sinv {} s' w Q'"
proof -
  let ?p = "new_proc m"
  let ?s = "s\<lparr>pid_counter := w64 (pid_counter s + 1)\<rparr>"
  have p0: "?p \<noteq> 0" using r by (auto simp: proc_create_ex_def Let_def split: if_splits)
  obtain q where q: "new_process c ?s m (pid_counter s) name entry user = Some q"
    using r p0 by (auto simp: proc_create_ex_def get_next_pid_def Let_def split: option.splits)
  let ?t = "?s\<lparr>procs := (procs ?s)(?p := q), proc_list := ?p # proc_list ?s\<rparr>"
  note qf = new_process_fields[OF q]
  have i': "sinv {} ?s w Q" "rep ?s Q" "?p \<notin> set (proc_list ?s)" "\<not> scheduler_is_idle_process ?s ?p"
    using i rep p by (auto simp: scheduler_is_idle_process_def)
  have q': "sched_cpu q < online_cpu_count ?s" "sched_level q < SCHED_NUM_LEVELS"
    using qf inv_machine[OF i] by (auto simp: machine_ok_def SCHED_NUM_LEVELS_def)
  note t = inv_create[OF i'(1,2) p0 i'(3,4) q']
  show thesis
  proof (cases user)
    case True
    have "sinv {} (upd_proc ?t ?p (pstate_update (\<lambda>_. PROCESS_PAUSED))) w Q"
      by (rule inv_upd[OF t(1)]) (use t(3) qf p0 unlisted_unused(1)[OF i'(1,3,4)] in \<open>auto simp: live_def SCHED_NUM_LEVELS_def\<close>)
    moreover have "s' = upd_proc ?t ?p (pstate_update (\<lambda>_. PROCESS_PAUSED))"
      using r p0 q True by (auto simp: proc_create_ex_def get_next_pid_def Let_def)
    ultimately show thesis using that t(2) by simp
  next
    case False
    have "s' = scheduler_enqueue_new ?t ?p"
      using r p0 q False by (auto simp: proc_create_ex_def get_next_pid_def Let_def)
    moreover have "?p \<in> set (proc_list ?t)" "pstate (procs ?t ?p) = PROCESS_READY" using qf by simp_all
    ultimately show thesis
      using enqueue_new_ok[OF t(1,2) _ _ unlisted_unused(1)[OF i'(1,3,4)] t(3)] that by metis
  qed
qed

lemma find_pid_in: "find_pid s ps n \<noteq> 0 \<Longrightarrow> find_pid s ps n \<in> set ps"
  by (induction ps) auto

lemma inv_not_waiting_queued: "sinv X s w Q \<Longrightarrow> pstate (procs s p) \<noteq> PROCESS_READY \<Longrightarrow> \<not> queued Q p"
  using inv_queued_ready by blast

lemma start_ok:
  assumes i: "sinv {} s w Q" and rep: "rep s Q" and p: "p \<in> set (proc_list s)" and nl: "\<And>c. \<not> live s w c p"
  obtains Q' where "rep (proc_start s p) Q'" "sinv {} (proc_start s p) w Q'"
proof (cases "p = 0 \<or> pstate (procs s p) \<noteq> PROCESS_PAUSED")
  case True
  then show thesis using that i rep by (auto simp: proc_start_def)
next
  case False
  let ?s = "upd_proc s p (pstate_update (\<lambda>_. PROCESS_READY))"
  have nq: "\<not> queued Q p" using inv_not_waiting_queued[OF i] False by simp
  have u: "sinv {} ?s w Q" by (rule inv_upd[OF i]) (use nq nl inv_level[OF i] False in \<open>auto simp: live_def\<close>)
  have "\<not> live ?s w c p" for c using nl[of c] by (simp add: live_def)
  then show thesis
    using enqueue_new_ok[OF u, of p] that rep p nq False by (auto simp: proc_start_def)
qed

text \<open>Killing and pausing, on the caller's own process or another one.\<close>

lemma leave_cpu_ok:
  assumes i: "sinv {} s w Q" and rep: "rep s Q" and p: "p \<in> set (proc_list s)" and st: "st \<noteq> PROCESS_WAITING"
    and nw: "\<And>c n. st = PROCESS_ZOMBIE \<or> st = PROCESS_TERMINATED \<Longrightarrow> w c \<noteq> Some (p, n)"
    and w: "w c = None" and c: "c < online_cpu_count s"
  obtains r s' Q' where "leave_cpu c (upd_proc s p (pstate_update (\<lambda>_. st))) p = Some (r, s')" "rep s' Q'" "sinv {} s' (w(c := r)) Q'"
proof -
  obtain t where t: "scheduler_dequeue (upd_proc s p (pstate_update (\<lambda>_. st))) p = Some t" "rep t (qdel Q p)" "sinv {} t w (qdel Q p)"
      "unlinked t = unlinked (upd_proc s p (pstate_update (\<lambda>_. st)))"
    by (rule park_ok[OF i rep p st nw])
  have ct: "c < online_cpu_count t" using c unlinked_fields(1)[OF t(4)] by simp
  show thesis
  proof (cases "p = current_process t c")
    case True
    then have "leave_cpu c (upd_proc s p (pstate_update (\<lambda>_. st))) p = schedule c t" using t(1) by (simp add: leave_cpu_def)
    then show thesis using yield_ok[OF t(3,2) w ct] that by metis
  next
    case False
    have "w(c := None) = w" using w by auto
    then show thesis using False t that[of None t "qdel Q p"] by (simp add: leave_cpu_def)
  qed
qed

lemma killProcess_ok:
  assumes i: "sinv {} s w Q" and rep: "rep s Q" and w: "w c = None" and c: "c < online_cpu_count s"
    and nw: "\<And>c m. w c \<noteq> Some (find_pid s (proc_list s) n, m)"
  obtains b r s' Q' where "killProcess c s n = Some (b, r, s')" "rep s' Q'" "sinv {} s' (w(c := r)) Q'"
proof (cases "n = 0 \<or> find_pid s (proc_list s) n = 0 \<or> dead (procs s (find_pid s (proc_list s) n))")
  case True
  have "w(c := None) = w" using w by auto
  then show thesis using True that[of False None s Q] i rep by (auto simp: killProcess_def Let_def)
next
  case False
  let ?p = "find_pid s (proc_list s) n" let ?e = "s\<lparr>events := events s @ [Exit_Hooks ?p]\<rparr>"
  have e: "sinv {} ?e w Q" "rep ?e Q" "?p \<in> set (proc_list ?e)" "c < online_cpu_count ?e"
    using i rep c find_pid_in[of s "proc_list s" n] False by simp_all
  obtain r s' Q' where "leave_cpu c (upd_proc ?e ?p (pstate_update (\<lambda>_. PROCESS_ZOMBIE))) ?p = Some (r, s')" "rep s' Q'" "sinv {} s' (w(c := r)) Q'"
    by (rule leave_cpu_ok[OF e(1-3) _ _ w e(4), of PROCESS_ZOMBIE]) (use nw in auto)
  then show thesis using False that[of True r s' Q'] by (simp add: killProcess_def Let_def)
qed

lemma requestCleanup_ok:
  assumes i: "sinv {} s w Q" and rep: "rep s Q" and w: "w c = None" and c: "c < online_cpu_count s"
    and nw: "\<And>c m. w c \<noteq> Some (find_pid s (proc_list s) n, m)"
  obtains b r s' Q' where "requestProcessCleanup c s n = Some (b, r, s')" "rep s' Q'" "sinv {} s' (w(c := r)) Q'"
proof -
  let ?p = "findProcessByPID s n"
  let ?f = "\<lambda>p. p\<lparr>cleanup_requested := True, cleanup_invoked := False, cleanup_deadline_ms := clock_ms s + 1000\<rparr>"
  have none: "w(c := None) = w" using w by auto
  have u: "sinv {} (upd_proc s ?p ?f) w Q" "rep (upd_proc s ?p ?f) Q"
    by (rule inv_upd_same[OF i]; use inv_level[OF i] in auto) (use rep in auto)
  consider "?p = 0 \<or> \<not> user_privilege (procs s ?p) \<or> dead (procs s ?p)"
    | "\<not> (?p = 0 \<or> \<not> user_privilege (procs s ?p) \<or> dead (procs s ?p))" "cleanup_entry (procs s ?p) = 0"
    | "\<not> (?p = 0 \<or> \<not> user_privilege (procs s ?p) \<or> dead (procs s ?p))" "cleanup_entry (procs s ?p) \<noteq> 0" by argo
  then show thesis
  proof cases
    case 1
    then have "requestProcessCleanup c s n = Some (False, None, s)" by (auto simp: requestProcessCleanup_def Let_def)
    then show thesis using that[of False None s Q] none i rep by metis
  next
    case 2
    then have "requestProcessCleanup c s n = killProcess c s n" by (simp add: requestProcessCleanup_def Let_def)
    then show thesis using killProcess_ok[OF assms] that by metis
  next
    case 3
    then have "requestProcessCleanup c s n = Some (True, None, upd_proc s ?p ?f)" by (simp add: requestProcessCleanup_def Let_def)
    then show thesis using that[of True None "upd_proc s ?p ?f" Q] none u by metis
  qed
qed

lemma pause_ok:
  assumes i: "sinv {} s w Q" and rep: "rep s Q" and w: "w c = None" and c: "c < online_cpu_count s"
  obtains b r s' Q' where "pauseProcess c s n = Some (b, r, s')" "rep s' Q'" "sinv {} s' (w(c := r)) Q'"
proof -
  let ?p = "findProcessByPID s n"
  show thesis
  proof (cases "?p = 0 \<or> pstate (procs s ?p) = PROCESS_PAUSED \<or> dead (procs s ?p)")
    case True
    have "w(c := None) = w" using w by auto
    moreover have "pauseProcess c s n = Some (False, None, s)" using True by (auto simp: pauseProcess_def Let_def)
    ultimately show thesis using that[of False None s Q] i rep by metis
  next
    case False
    have p: "?p \<in> set (proc_list s)" using find_pid_in[of s "proc_list s" n] False by (simp add: findProcessByPID_def)
    obtain r s' Q' where "leave_cpu c (upd_proc s ?p (pstate_update (\<lambda>_. PROCESS_PAUSED))) ?p = Some (r, s')" "rep s' Q'" "sinv {} s' (w(c := r)) Q'"
      by (rule leave_cpu_ok[OF i rep p _ _ w c, of PROCESS_PAUSED]) auto
    then show thesis using False that[of True r s' Q'] by (simp add: pauseProcess_def Let_def)
  qed
qed

lemma unpause_ok:
  assumes i: "sinv {} s w Q" and rep: "rep s Q"
    and nc: "\<And>c. pstate (procs s (findProcessByPID s n)) = PROCESS_PAUSED \<Longrightarrow> current_process s c \<noteq> findProcessByPID s n \<or> findProcessByPID s n = 0"
  obtains b s' Q' where "unpauseProcess s n = (b, s')" "rep s' Q'" "sinv {} s' w Q'"
proof -
  let ?p = "findProcessByPID s n"
  show thesis
  proof (cases "?p = 0 \<or> pstate (procs s ?p) \<noteq> PROCESS_PAUSED")
    case True
    then have "unpauseProcess s n = (False, s)" by (auto simp: unpauseProcess_def Let_def)
    then show thesis using that i rep by metis
  next
    case False
    have p: "?p \<in> set (proc_list s)" using find_pid_in[of s "proc_list s" n] False by (simp add: findProcessByPID_def)
    have nq: "\<not> queued Q ?p" using inv_not_waiting_queued[OF i] False by simp
    have c: "current_process s c' \<noteq> ?p" for c' using nc[of c'] False by blast
    have e: "unpauseProcess s n = (True, scheduler_enqueue_existing (upd_proc s ?p (pstate_update (\<lambda>_. PROCESS_READY))) ?p)"
      using False by (simp add: unpauseProcess_def Let_def)
    show thesis by (rule enqueue_existing_ok[OF i rep p nq c]) (rule that[OF e])
  qed
qed

lemma kill_ok:
  assumes i: "sinv {} s w Q" and rep: "rep s Q" and p: "p \<in> set (proc_list s)" and nw: "\<And>c n. w c \<noteq> Some (p, n)"
  obtains s' Q' where "kill s p = Some s'" "rep s' Q'" "sinv {} s' w Q'"
proof -
  let ?e = "s\<lparr>events := events s @ [Exit_Hooks p]\<rparr>"
  have e: "sinv {} ?e w Q" "rep ?e Q" "p \<in> set (proc_list ?e)" using i rep p by simp_all
  have p0: "p \<noteq> 0" using inv_process[OF i p] by (simp add: process_ok_def)
  obtain t where "scheduler_dequeue (upd_proc ?e p (pstate_update (\<lambda>_. PROCESS_ZOMBIE))) p = Some t" "rep t (qdel Q p)" "sinv {} t w (qdel Q p)"
    by (rule park_ok[OF e, of PROCESS_ZOMBIE]) (use nw in auto)
  then show thesis using that p0 by (simp add: kill_def)
qed

lemma mark_created_ok:
  assumes "sinv {} s w Q" "rep s Q"
  shows "sinv {} (mark_created s p user) w Q" "rep (mark_created s p user) Q"
proof -
  have "sinv {} (upd_proc s p (pstate_update (\<lambda>_. PROCESS_READY))) w Q"
    by (rule inv_upd[OF assms(1)]) (use inv_level[OF assms(1)] inv_left[OF assms(1)] in \<open>auto simp: dead_def\<close>)
  then show "sinv {} (mark_created s p user) w Q" "rep (mark_created s p user) Q"
    using assms by (auto simp: mark_created_def)
qed

section \<open>The machine\<close>

text \<open>
  The guards: a CPU that is in the middle of a switch does nothing else; the boot core, which has no idle context, sleeps
  only while something else is queued there; memory for a new process is not in use; nothing kills a process that a CPU is just
  leaving; a process is started or resumed only when no CPU holds it.
\<close>

inductive sched_step :: "sched \<times> window \<Rightarrow> sched \<times> window \<Rightarrow> bool" where
  Switch: "w c = Some (p, n) \<Longrightarrow> sched_step (s, w) (switch_to s p n, w(c := None))"
| Clock: "sched_step (s, w) (s\<lparr>clock_ms := clock_ms s + ms\<rparr>, w)"
| Init: "sched_step (s, w) (schedulerInit s, w)"
| Tick: "w c = None \<Longrightarrow> c < online_cpu_count s \<Longrightarrow> calm s w \<Longrightarrow> scheduler_tick c s = Some (r, s') \<Longrightarrow>
    sched_step (s, w) (s', w(c := r))"
| Yield: "w c = None \<Longrightarrow> c < online_cpu_count s \<Longrightarrow> schedule c s = Some (r, s') \<Longrightarrow> sched_step (s, w) (s', w(c := r))"
| Sleep: "w c = None \<Longrightarrow> c < online_cpu_count s \<Longrightarrow> (c = master_core s \<Longrightarrow> rq_total s c > 0) \<Longrightarrow> sleep c s ms = Some (r, s') \<Longrightarrow>
    sched_step (s, w) (s', w(c := r))"
| Exit: "w c = None \<Longrightarrow> c < online_cpu_count s \<Longrightarrow> process_exit_with_status c s code crash vec = Some (r, s') \<Longrightarrow>
    sched_step (s, w) (s', w(c := r))"
| Create: "w c = None \<Longrightarrow> new_proc m \<notin> set (proc_list s) \<Longrightarrow> \<not> scheduler_is_idle_process s (new_proc m) \<Longrightarrow>
    proc_create_ex c s m name entry user = Some (p, s') \<Longrightarrow> sched_step (s, w) (s', w)"
| Created: "sched_step (s, w) (mark_created s p user, w)"
| Start: "p \<in> set (proc_list s) \<Longrightarrow> (\<And>c. \<not> live s w c p) \<Longrightarrow> sched_step (s, w) (proc_start s p, w)"
| Kill: "p \<in> set (proc_list s) \<Longrightarrow> (\<And>c n. w c \<noteq> Some (p, n)) \<Longrightarrow> kill s p = Some s' \<Longrightarrow> sched_step (s, w) (s', w)"
| Kill_Pid: "w c = None \<Longrightarrow> c < online_cpu_count s \<Longrightarrow> (\<And>c m. w c \<noteq> Some (find_pid s (proc_list s) n, m)) \<Longrightarrow>
    killProcess c s n = Some (b, r, s') \<Longrightarrow> sched_step (s, w) (s', w(c := r))"
| Cleanup: "w c = None \<Longrightarrow> c < online_cpu_count s \<Longrightarrow> (\<And>c m. w c \<noteq> Some (find_pid s (proc_list s) n, m)) \<Longrightarrow>
    requestProcessCleanup c s n = Some (b, r, s') \<Longrightarrow> sched_step (s, w) (s', w(c := r))"
| Pause: "w c = None \<Longrightarrow> c < online_cpu_count s \<Longrightarrow> pauseProcess c s n = Some (b, r, s') \<Longrightarrow> sched_step (s, w) (s', w(c := r))"
| Unpause: "(\<And>c. current_process s c \<noteq> findProcessByPID s n) \<Longrightarrow> unpauseProcess s n = (b, s') \<Longrightarrow> sched_step (s, w) (s', w)"


definition boot_state :: "sched \<Rightarrow> bool" where
  "boot_state s \<longleftrightarrow>
     machine_ok s \<and> proc_list s = [] \<and> (\<forall>c. current_process s c = 0) \<and>
     (\<forall>c l. rq_head (g_runqueues s c) l = 0 \<and> rq_tail (g_runqueues s c) l = 0 \<and> rq_count (g_runqueues s c) l = 0)"

inductive sched_reachable :: "sched \<Rightarrow> window \<Rightarrow> bool" where
  Boot: "boot_state s \<Longrightarrow> sched_reachable s (\<lambda>_. None)"
| Next: "sched_reachable s w \<Longrightarrow> sched_step (s, w) (s', w') \<Longrightarrow> sched_reachable s' w'"

definition sched_ok :: "sched \<Rightarrow> window \<Rightarrow> bool" where
  "sched_ok s w \<longleftrightarrow> (\<exists>Q. rep s Q \<and> sinv {} s w Q)"

lemma sched_okI: "rep s Q \<Longrightarrow> sinv {} s w Q \<Longrightarrow> sched_ok s w"
  by (auto simp: sched_ok_def)

lemma exit_current: "process_exit_with_status c s code crash vec = Some x \<Longrightarrow> current_process s c \<noteq> 0"
  by (auto simp: process_exit_with_status_def Let_def split: if_splits)

lemma step_ok:
  assumes step: "sched_step (s, w) (s', w')" and ok: "sched_ok s w"
  shows "sched_ok s' w'"
proof -
  obtain Q where rep: "rep s Q" and i: "sinv {} s w Q" using ok by (auto simp: sched_ok_def)
  show ?thesis
    using step
  proof cases
    case (Switch c p n)
    then show ?thesis using inv_switch_to[OF i Switch(3)] rep sched_okI by metis
  next
    case Clock
    then show ?thesis using i rep sched_okI[of _ Q] by simp
  next
    case Init
    then show ?thesis using i rep sched_okI[of _ Q] by (simp add: schedulerInit_def)
  next
    case (Tick c r)
    then show ?thesis using tick_ok[OF i rep Tick(2-4)] sched_okI by (metis option.inject prod.inject)
  next
    case (Yield c r)
    then show ?thesis using yield_ok[OF i rep Yield(2,3)] sched_okI by (metis option.inject prod.inject)
  next
    case (Sleep c ms r)
    then show ?thesis using sleep_ok[OF i rep Sleep(2,3,4)] sched_okI by (metis option.inject prod.inject)
  next
    case (Exit c code crash vec r)
    then show ?thesis using exit_ok[OF i rep Exit(2,3) exit_current[OF Exit(4)]] sched_okI by (metis option.inject prod.inject)
  next
    case (Create c m name entry user p)
    then show ?thesis using create_ok[OF i rep Create(3-5)] sched_okI by metis
  next
    case (Created p user)
    then show ?thesis using mark_created_ok[OF i rep] sched_okI by metis
  next
    case (Start p)
    then show ?thesis using start_ok[OF i rep Start(3,4)] sched_okI by metis
  next
    case (Kill p)
    then show ?thesis using kill_ok[OF i rep Kill(2,3)] sched_okI by (metis option.inject)
  next
    case (Kill_Pid c n b r)
    then show ?thesis using killProcess_ok[OF i rep Kill_Pid(2-4)] sched_okI by (metis option.inject prod.inject)
  next
    case (Cleanup c n b r)
    then show ?thesis using requestCleanup_ok[OF i rep Cleanup(2-4)] sched_okI by (metis option.inject prod.inject)
  next
    case (Pause c n b r)
    then show ?thesis using pause_ok[OF i rep Pause(2,3)] sched_okI by (metis option.inject prod.inject)
  next
    case (Unpause n b)
    then show ?thesis using unpause_ok[OF i rep] sched_okI by (metis prod.inject)
  qed
qed

lemma boot_ok: "boot_state s \<Longrightarrow> sched_ok s (\<lambda>_. None)"
proof (rule sched_okI)
  assume b: "boot_state s"
  show "rep s (\<lambda>_ _. [])" using b by (auto simp: rep_def queue_at_def boot_state_def last_or_null_def)
  show "sinv {} s (\<lambda>_. None) (\<lambda>_ _. [])" using b by (auto simp: sinv_def boot_state_def live_def current_ok_def)
qed

lemma reachable_ok: "sched_reachable s w \<Longrightarrow> sched_ok s w"
  by (induction rule: sched_reachable.induct) (auto intro: boot_ok step_ok)

end
