(* ===== verification/Sched_Demo.thy ===== *)
theory Sched_Demo
  imports Sched_Run
begin

text \<open>
  A run on two CPUs, the boot core \<open>0\<close> and CPU \<open>1\<close>, up to the states in which a new process is lost and in which a killed process is
  freed while a CPU still uses its stack. Its states are the inputs of the witnesses.
\<close>

definition sched_demo :: sched where
  "sched_demo =
     \<lparr>procs = (\<lambda>_. blank_process), g_runqueues = (\<lambda>_. \<lparr>rq_head = \<lambda>_. 0, rq_tail = \<lambda>_. 0, rq_count = \<lambda>_. 0\<rparr>),
      g_deferred_reap = (\<lambda>_. 0), current_process = (\<lambda>_. 0), cpu_online = (\<lambda>c. c < 2), g_cpu_count = 2, online_cpu_count = 2,
      master_core = 0, proc_list = [], pid_counter = 1, ap_idle = (\<lambda>c. 1000 + c), idle_named = (\<lambda>_. False), scheduler_on = True,
      total_context_switches = 0, idle_cycles = 0, g_global_tick_count = 0, clock_ms = 0, tss_rsp0 = (\<lambda>_. 0),
      cpu_usage = (\<lambda>_. \<lparr>usage_total_ticks = 0, usage_busy_ticks = 0, usage_window_ticks = 0, usage_window_busy_ticks = 0, usage_last_percent = 0\<rparr>),
      events = []\<rparr>"

definition demo_memory :: "nat \<Rightarrow> creation" where
  "demo_memory p = \<lparr>new_proc = p, kernel_pml4 = 1, cloned_pml4 = 1, stack_mem = 0x10000 * p, stack_pages_mem = 0,
     user_stack_mem = 1, user_stack_pages_mem = 0, proc_trampoline = 1\<rparr>"

definition demo_create :: "nat \<Rightarrow> sched \<Rightarrow> sched" where
  "demo_create p s = snd (the (proc_create_ex 0 s (demo_memory p) None 1 False))"

definition demo_1 :: sched where "demo_1 = demo_create 11 sched_demo"
definition demo_2 :: sched where "demo_2 = demo_create 12 demo_1"
definition demo_3 :: sched where "demo_3 = snd (the (schedule 1 demo_2))"
definition demo_4 :: sched where "demo_4 = switch_to demo_3 1001 12"
definition demo_5 :: sched where "demo_5 = demo_create 13 (mark_created demo_4 12 False)"
definition demo_6 :: sched where "demo_6 = snd (the (schedule 1 demo_5))"
definition demo_7 :: sched where "demo_7 = switch_to demo_6 12 13"
definition demo_8 :: sched where "demo_8 = demo_create 13 demo_4"
definition demo_9 :: sched where "demo_9 = snd (the (schedule 1 demo_8))"

definition demo_proc :: "nat \<Rightarrow> nat \<Rightarrow> nat \<Rightarrow> process" where
  "demo_proc p n c = blank_process\<lparr>pid := n, pname := proc_name None 1 n, regs := (replicate 9 0)[6 := 0x10000 * p + 0x4000 - 8, 7 := 1, 8 := 0x202],
     pml4 := 1, kernel_stack := 0x10000 * p + 0x4000, user_stack := 0x4001, entry_point := 1, sched_cpu := c\<rparr>"

lemma new_demo:
  assumes "current_process s 0 = 0" "clock_ms s = 0" "0 < p" "p < 100"
  shows "new_process 0 s (demo_memory p) n None 1 False = Some (demo_proc p n 0)"
proof -
  have "p * 0x10000 + 0x4000 < 2 ^ 64" "16 * ((p * 0x10000 + 0x4000) div 16) = p * 0x10000 + 0x4000" using assms(4) by auto
  moreover have "(18446744073709551616 + (16376 + p * 0x10000)) mod 18446744073709551616 = 16376 + p * 0x10000"
    using assms(4) by (subst mod_add_self1) simp
  ultimately show ?thesis
    using assms by (simp add: new_process_def give_stack_def give_user_stack_def demo_memory_def demo_proc_def blank_process_def
      Let_def w64_def sub64_def STACK_SIZE_def mult.commute)
qed

lemma demo_create_eq:
  assumes "current_process s 0 = 0" "clock_ms s = 0" "0 < p" "p < 100"
  shows "proc_create_ex 0 s (demo_memory p) None 1 False = Some (p, demo_create p s)"
    and "demo_create p s = scheduler_enqueue_new (s\<lparr>pid_counter := w64 (pid_counter s + 1),
      procs := (procs s)(p := demo_proc p (pid_counter s) 0), proc_list := p # proc_list s\<rparr>) p"
proof -
  have m: "new_proc (demo_memory p) = p" by (simp add: demo_memory_def)
  show "proc_create_ex 0 s (demo_memory p) None 1 False = Some (p, demo_create p s)"
    "demo_create p s = scheduler_enqueue_new (s\<lparr>pid_counter := w64 (pid_counter s + 1),
      procs := (procs s)(p := demo_proc p (pid_counter s) 0), proc_list := p # proc_list s\<rparr>) p"
    using assms by (simp_all add: demo_create_def proc_create_ex_def get_next_pid_def m Let_def new_demo[unfolded One_nat_def])
qed

lemma demo_sel:
  "pstate (demo_proc p n c) = PROCESS_READY" "sched_level (demo_proc p n c) = 0" "sched_cpu (demo_proc p n c) = c"
  "rq_next (demo_proc p n c) = 0" "kernel_stack (demo_proc p n c) = 0x10000 * p + 0x4000" "\<not> on_cpu (demo_proc p n c)"
  "rq_next blank_process = 0" "pstate blank_process = PROCESS_READY" "sched_level blank_process = 0"
  "kernel_stack_page_backed (demo_proc p n c) = False" "user_image_phys (demo_proc p n c) = 0" "user_stack_phys (demo_proc p n c) = 0"
  "user_privilege (demo_proc p n c) = False"
  by (simp_all add: demo_proc_def blank_process_def)

definition empty_queue :: runqueue where
  "empty_queue = \<lparr>rq_head = \<lambda>_. 0, rq_tail = \<lambda>_. 0, rq_count = \<lambda>_. 0\<rparr>"

definition demo_queue :: "nat \<Rightarrow> runqueue" where
  "demo_queue p = \<lparr>rq_head = (\<lambda>_. 0)(0 := p), rq_tail = (\<lambda>_. 0)(0 := p), rq_count = (\<lambda>_. 0)(0 := 1)\<rparr>"

lemmas demo_defs = demo_create_eq(2) demo_sel
  scheduler_enqueue_new_def pick_least_loaded_cpu_def rq_total_def rq_push_def
  upd_proc_def upd_rq_def MAX_CPUS_def SCHED_NUM_LEVELS_def SCHED_LEVEL_INTERACTIVE_def STACK_SIZE_def Let_def upt_rec w64_def sub64_def
lemmas run_defs = schedule_def reap_def ap_idle_for_def pick_next.simps rq_pop_highest_def rq_pop_def dispatch_def requeue_def stay_or_idle_def
  defer_dead_def dead_def set_current_def switch_to_def SCHED_LEVEL_BACKGROUND_def reapable_def mark_created_def

lemma demo_1_eq: "demo_1 = sched_demo\<lparr>procs := (\<lambda>_. blank_process)(11 := demo_proc 11 1 0),
    g_runqueues := (\<lambda>_. empty_queue)(0 := demo_queue 11), proc_list := [11], pid_counter := 2\<rparr>"
  by (simp add: demo_1_def sched_demo_def demo_defs demo_queue_def empty_queue_def) (simp add: demo_proc_def blank_process_def)?

lemma demo_2_eq: "demo_2 = sched_demo\<lparr>procs := (\<lambda>_. blank_process)(11 := demo_proc 11 1 0, 12 := demo_proc 12 2 1),
    g_runqueues := (\<lambda>_. empty_queue)(0 := demo_queue 11, 1 := demo_queue 12), proc_list := [12, 11], pid_counter := 3\<rparr>"
  by (simp add: demo_2_def demo_1_eq sched_demo_def demo_defs demo_queue_def empty_queue_def) (simp add: demo_proc_def blank_process_def)?

lemma upd_null [simp]: "(\<lambda>_. 0 :: nat)(a := 0) = (\<lambda>_. 0)"
  by auto

lemma demo_3_eq: "schedule 1 demo_2 = Some (Some (1001, 12), demo_3)"
  "demo_3 = sched_demo\<lparr>procs := (\<lambda>_. blank_process)(11 := demo_proc 11 1 0, 12 := (demo_proc 12 2 1)\<lparr>pstate := PROCESS_RUNNING\<rparr>,
      1001 := blank_process\<lparr>sched_cpu := 1, sched_level := 2, pstate := PROCESS_RUNNING\<rparr>),
    g_runqueues := (\<lambda>_. empty_queue)(0 := demo_queue 11, 1 := empty_queue), proc_list := [12, 11], pid_counter := 3,
    current_process := (\<lambda>_. 0)(1 := 12), idle_named := (\<lambda>_. False)(1 := True), tss_rsp0 := (\<lambda>_. 0)(1 := 0xC4000)\<rparr>"
  by (simp_all add: demo_3_def demo_2_eq sched_demo_def demo_defs demo_queue_def empty_queue_def run_defs) (simp add: demo_proc_def blank_process_def)?

lemma demo_4_eq: "demo_4 = sched_demo\<lparr>procs := (\<lambda>_. blank_process)(11 := demo_proc 11 1 0, 12 := (demo_proc 12 2 1)\<lparr>pstate := PROCESS_RUNNING, on_cpu := True\<rparr>,
      1001 := blank_process\<lparr>sched_cpu := 1, sched_level := 2, pstate := PROCESS_RUNNING\<rparr>),
    g_runqueues := (\<lambda>_. empty_queue)(0 := demo_queue 11, 1 := empty_queue), proc_list := [12, 11], pid_counter := 3,
    current_process := (\<lambda>_. 0)(1 := 12), idle_named := (\<lambda>_. False)(1 := True), tss_rsp0 := (\<lambda>_. 0)(1 := 0xC4000)\<rparr>"
  by (simp add: demo_4_def demo_3_eq switch_to_def upd_proc_def blank_process_def demo_proc_def fun_upd_twist) (simp add: demo_proc_def blank_process_def)?

lemma demo_8_eq: "demo_8 = sched_demo\<lparr>procs := (\<lambda>_. blank_process)(11 := demo_proc 11 1 0, 12 := (demo_proc 12 2 1)\<lparr>pstate := PROCESS_RUNNING, on_cpu := True\<rparr>,
      1001 := blank_process\<lparr>sched_cpu := 1, sched_level := 2, pstate := PROCESS_RUNNING\<rparr>, 13 := demo_proc 13 3 1),
    g_runqueues := (\<lambda>_. empty_queue)(0 := demo_queue 11, 1 := demo_queue 13), proc_list := [13, 12, 11], pid_counter := 4,
    current_process := (\<lambda>_. 0)(1 := 12), idle_named := (\<lambda>_. False)(1 := True), tss_rsp0 := (\<lambda>_. 0)(1 := 0xC4000)\<rparr>"
  by (simp add: demo_8_def demo_4_eq sched_demo_def demo_defs demo_queue_def empty_queue_def) (simp add: demo_proc_def blank_process_def)?

lemma demo_9_eq: "schedule 1 demo_8 = Some (Some (12, 13), demo_9)"
  "demo_9 = sched_demo\<lparr>procs := (\<lambda>_. blank_process)(11 := demo_proc 11 1 0, 12 := (demo_proc 12 2 1)\<lparr>pstate := PROCESS_READY, on_cpu := True\<rparr>,
      1001 := blank_process\<lparr>sched_cpu := 1, sched_level := 2, pstate := PROCESS_RUNNING\<rparr>, 13 := (demo_proc 13 3 1)\<lparr>pstate := PROCESS_RUNNING\<rparr>),
    g_runqueues := (\<lambda>_. empty_queue)(0 := demo_queue 11, 1 := demo_queue 12), proc_list := [13, 12, 11], pid_counter := 4,
    current_process := (\<lambda>_. 0)(1 := 13), idle_named := (\<lambda>_. False)(1 := True), tss_rsp0 := (\<lambda>_. 0)(1 := 0xD4000), total_context_switches := 1\<rparr>"
  by (simp_all add: demo_9_def demo_8_eq sched_demo_def demo_defs demo_queue_def empty_queue_def run_defs) (simp add: demo_proc_def blank_process_def fun_upd_twist)?

lemma demo_5_eq: "demo_5 = sched_demo\<lparr>procs := (\<lambda>_. blank_process)(11 := demo_proc 11 1 0, 12 := (demo_proc 12 2 1)\<lparr>pstate := PROCESS_READY, on_cpu := True\<rparr>,
      1001 := blank_process\<lparr>sched_cpu := 1, sched_level := 2, pstate := PROCESS_RUNNING\<rparr>, 13 := demo_proc 13 3 1),
    g_runqueues := (\<lambda>_. empty_queue)(0 := demo_queue 11, 1 := demo_queue 13), proc_list := [13, 12, 11], pid_counter := 4,
    current_process := (\<lambda>_. 0)(1 := 12), idle_named := (\<lambda>_. False)(1 := True), tss_rsp0 := (\<lambda>_. 0)(1 := 0xC4000)\<rparr>"
  by (simp add: demo_5_def demo_4_eq sched_demo_def demo_defs demo_queue_def empty_queue_def mark_created_def) (simp add: demo_proc_def blank_process_def fun_upd_twist)?

lemma demo_6_eq: "schedule 1 demo_5 = Some (Some (12, 13), demo_6)"
  "demo_6 = sched_demo\<lparr>procs := (\<lambda>_. blank_process)(11 := demo_proc 11 1 0, 12 := (demo_proc 12 2 1)\<lparr>pstate := PROCESS_READY, on_cpu := True\<rparr>,
      1001 := blank_process\<lparr>sched_cpu := 1, sched_level := 2, pstate := PROCESS_RUNNING\<rparr>, 13 := (demo_proc 13 3 1)\<lparr>pstate := PROCESS_RUNNING\<rparr>),
    g_runqueues := (\<lambda>_. empty_queue)(0 := demo_queue 11, 1 := empty_queue), proc_list := [13, 12, 11], pid_counter := 4,
    current_process := (\<lambda>_. 0)(1 := 13), idle_named := (\<lambda>_. False)(1 := True), tss_rsp0 := (\<lambda>_. 0)(1 := 0xD4000), total_context_switches := 1\<rparr>"
  by (simp_all add: demo_6_def demo_5_eq sched_demo_def demo_defs demo_queue_def empty_queue_def run_defs) (simp add: demo_proc_def blank_process_def fun_upd_twist)?

section \<open>The run is a run of the machine\<close>

abbreviation steady :: window where "steady \<equiv> (\<lambda>_. None)"

lemma demo_boot: "boot_state sched_demo"
  by (auto simp: boot_state_def machine_ok_def sched_demo_def MAX_CPUS_def inj_on_def)

lemma demo_idle: "ap_idle s = ap_idle sched_demo \<Longrightarrow> p < 1000 \<Longrightarrow> \<not> scheduler_is_idle_process s p"
  by (auto simp: scheduler_is_idle_process_def list_ex_iff sched_demo_def)

lemma demo_create_step:
  assumes "sched_reachable s steady" "current_process s 0 = 0" "clock_ms s = 0" "0 < p" "p < 100" "p \<notin> set (proc_list s)"
    "ap_idle s = ap_idle sched_demo"
  shows "sched_reachable (demo_create p s) steady"
proof (rule sched_reachable.Next[OF assms(1)], rule sched_step.Create)
  have m: "new_proc (demo_memory p) = p" by (simp add: demo_memory_def)
  show "proc_create_ex 0 s (demo_memory p) None 1 False = Some (p, demo_create p s)" by (rule demo_create_eq(1)[OF assms(2-5)])
  show "new_proc (demo_memory p) \<notin> set (proc_list s)" "\<not> scheduler_is_idle_process s (new_proc (demo_memory p))"
    using assms(5,6) demo_idle[OF assms(7), of p] m by auto
qed simp

lemma demo_yield_step:
  assumes "sched_reachable s steady" "1 < online_cpu_count s" "schedule 1 s = Some (Some (p, n), s')"
  shows "sched_reachable s' (steady(1 := Some (p, n)))" "sched_reachable (switch_to s' p n) steady"
proof -
  show y: "sched_reachable s' (steady(1 := Some (p, n)))"
    by (rule sched_reachable.Next[OF assms(1)], rule sched_step.Yield) (use assms in auto)
  have "sched_step (s', steady(1 := Some (p, n))) (switch_to s' p n, (steady(1 := Some (p, n)))(1 := None))"
    by (rule sched_step.Switch) simp
  moreover have "(steady(1 := Some (p, n)))(1 := None) = steady" by auto
  ultimately show "sched_reachable (switch_to s' p n) steady" using sched_reachable.Next[OF y] by metis
qed

lemma demo_fields:
  "current_process demo_1 0 = 0" "clock_ms demo_1 = 0" "proc_list demo_1 = [11]" "ap_idle demo_1 = ap_idle sched_demo"
  "online_cpu_count demo_2 = 2"
  "current_process demo_4 0 = 0" "clock_ms demo_4 = 0" "proc_list demo_4 = [12, 11]" "ap_idle demo_4 = ap_idle sched_demo"
  "online_cpu_count demo_5 = 2" "online_cpu_count demo_8 = 2"
  by (simp_all add: demo_1_eq demo_2_eq demo_4_eq demo_5_eq demo_8_eq) (simp_all add: sched_demo_def)

lemma demo_4_reachable: "sched_reachable demo_4 steady"
proof -
  have "sched_reachable sched_demo steady" by (rule sched_reachable.Boot[OF demo_boot])
  then have "sched_reachable demo_1 steady" unfolding demo_1_def by (rule demo_create_step) (simp_all add: sched_demo_def)
  then have "sched_reachable demo_2 steady" unfolding demo_2_def by (rule demo_create_step) (simp_all add: demo_fields)
  then show ?thesis unfolding demo_4_def by (rule demo_yield_step(2)[OF _ _ demo_3_eq(1)]) (simp add: demo_fields)
qed

lemma demo_7_reachable: "sched_reachable demo_7 steady"
proof -
  have "sched_reachable (mark_created demo_4 12 False) steady"
    by (rule sched_reachable.Next[OF demo_4_reachable sched_step.Created])
  then have "sched_reachable demo_5 steady" unfolding demo_5_def
    by (rule demo_create_step) (simp_all add: mark_created_def demo_fields)
  then show ?thesis unfolding demo_7_def by (rule demo_yield_step(2)[OF _ _ demo_6_eq(1)]) (simp add: demo_fields)
qed

lemma demo_8_reachable: "sched_reachable demo_8 steady"
  using demo_4_reachable unfolding demo_8_def by (rule demo_create_step) (simp_all add: demo_fields)

lemma demo_9_reachable: "sched_reachable demo_9 (steady(1 := Some (12, 13)))" "sched_reachable (switch_to demo_9 12 13) steady"
  by (rule demo_yield_step[OF demo_8_reachable _ demo_9_eq(1)]; simp add: demo_fields)+

definition demo_Q :: queues where
  "demo_Q = (\<lambda>_ _. [])(0 := (\<lambda>_. [])(0 := [11]), 1 := (\<lambda>_. [])(0 := [12]))"

lemma demo_9_rep: "rep (switch_to demo_9 12 13) demo_Q"
proof -
  have nx: "nexts (switch_to demo_9 12 13) = (\<lambda>_. 0)"
    by (rule ext) (simp add: nexts_def switch_to_def demo_9_eq(2) Let_def demo_sel)
  have g: "g_runqueues (switch_to demo_9 12 13) = (\<lambda>_. empty_queue)(0 := demo_queue 11, 1 := demo_queue 12)"
    by (simp add: demo_9_eq(2))
  show ?thesis
    unfolding rep_def nx g by (auto simp: queue_at_def demo_Q_def empty_queue_def demo_queue_def last_or_null_def split: if_splits)
qed

lemma demo_9_facts:
  "online_cpu_count (switch_to demo_9 12 13) = 2" "proc_list (switch_to demo_9 12 13) = [13, 12, 11]"
  "current_process (switch_to demo_9 12 13) = (\<lambda>_. 0)(1 := 13)" "current_process demo_9 = (\<lambda>_. 0)(1 := 13)" "proc_list demo_9 = [13, 12, 11]"
  by (simp_all add: demo_9_eq(2)) (simp_all add: sched_demo_def)

lemma demo_9_online: "online_cpu_count demo_9 = 2"
  using demo_9_facts(1) by simp

lemma demo_7_facts:
  "proc_list demo_7 = [13, 12, 11]" "current_process demo_7 = (\<lambda>_. 0)(1 := 13)" "pstate (procs demo_7 12) = PROCESS_READY"
  "g_runqueues demo_7 = (\<lambda>_. empty_queue)(0 := demo_queue 11, 1 := empty_queue)"
  by (simp_all add: demo_7_def demo_6_eq(2) switch_to_def Let_def demo_sel)

text \<open>Killing process 12 while CPU 1 is leaving it.\<close>

lemma demo_kill: "\<exists>s'. kill demo_9 12 = Some s' \<and> 12 \<notin> set (proc_list (reap 0 s')) \<and> Free_Mem 0xC0000 \<in> set (events (reap 0 s'))"
proof -
  let ?z = "upd_proc (demo_9\<lparr>events := events demo_9 @ [Exit_Hooks 12]\<rparr>) 12 (pstate_update (\<lambda>_. PROCESS_ZOMBIE))"
  define t where "t = rq_unlink ?z 1 0 0 12"
  have f: "find_prev ?z 12 0 12 = Some (Some 0)" by (subst find_prev.simps) simp
  have z: "sched_cpu (procs ?z 12) = 1" "rq_head (g_runqueues ?z 1) 0 = 12" "kernel_stack (procs ?z 12) = 0xC4000"
    "\<not> kernel_stack_page_backed (procs ?z 12)" by (simp_all add: demo_9_eq(2) demo_sel demo_queue_def)
  have "kill demo_9 12 = Some t"
    using z f by (simp add: kill_def scheduler_dequeue_def MAX_CPUS_def SCHED_NUM_LEVELS_def upt_rec t_def)
  moreover have u: "unlinked t = unlinked ?z" by (simp add: t_def)
  note g = unlinked_fields[OF u] unlinked_field[OF u, of kernel_stack_page_backed, simplified]
  let ?t = "t\<lparr>g_deferred_reap := (g_deferred_reap t)(0 := 0)\<rparr>"
  have d: "g_deferred_reap t = (\<lambda>_. 0)" "current_process t = (\<lambda>_. 0)(1 := 13)" using g by (simp_all add: demo_9_eq(2)) (simp add: sched_demo_def)
  have "reapable 0 ?t (g_deferred_reap t 0) 12"
    using d g by (auto simp: reapable_def dead_def is_deferred_def process_is_current_on_any_cpu_def list_ex_iff)
  moreover have "12 \<in> set (proc_list t)" using g by (simp add: demo_9_facts)
  moreover have "Free_Mem 0xC0000 \<in> set (release_events ?t 12)"
    using z g by (simp add: release_events_def Let_def STACK_SIZE_def sub64_def)
  ultimately show ?thesis by (intro exI[of _ t]) (auto simp: reap_def Let_def)
qed

end
