(* ===== verification/Sched_Props.thy ===== *)
theory Sched_Props
  imports Sched_Demo
begin

text \<open>
  What the scheduler promises: exclusive use of a context, well-formed queues, operations that return, dispatch by
  level and order, and no starvation across a priority boost. Two runs show where the code does not keep a
  process: marking a new process ready again while it runs, and killing a process that a CPU is just leaving.
\<close>

section \<open>Rounds\<close>

text \<open>A CPU gives up its process \<open>n\<close> times.\<close>

fun rounds :: "nat \<Rightarrow> nat \<Rightarrow> sched \<Rightarrow> sched option" where
  "rounds 0 c s = Some s"
| "rounds (Suc n) c s = (case schedule c s of None \<Rightarrow> None | Some r \<Rightarrow> rounds n c (finish r))"

lemma best_level_0: "Q c 0 \<noteq> [] \<Longrightarrow> best_level Q c = Some 0"
  by (simp add: best_level_def SCHED_NUM_LEVELS_def upt_rec)

lemma finish_ok:
  assumes i: "sinv {} s (w(c := r)) Q" and rep: "rep s Q" and w: "w c = None"
  shows "sinv {} (finish (r, s)) w Q" "rep (finish (r, s)) Q" "current_process (finish (r, s)) = current_process s"
    "online_cpu_count (finish (r, s)) = online_cpu_count s"
proof -
  have none: "w(c := None) = w" using w by auto
  have "sinv {} (finish (r, s)) w Q \<and> rep (finish (r, s)) Q \<and> current_process (finish (r, s)) = current_process s \<and>
      online_cpu_count (finish (r, s)) = online_cpu_count s"
  proof (cases r)
    case None
    then show ?thesis using i rep none by (simp add: finish_def)
  next
    case (Some x)
    obtain p n where x: "x = (p, n)" by (cases x)
    have "(w(c := r)) c = Some (p, n)" using Some x by simp
    note sw = inv_switch_to[OF i this]
    have "(w(c := r))(c := None) = w" using none by simp
    then show ?thesis using sw rep Some x by (metis finish_def fst_conv snd_conv option.simps(5) case_prod_conv switch_to_sel(1,2))
  qed
  then show "sinv {} (finish (r, s)) w Q" "rep (finish (r, s)) Q" "current_process (finish (r, s)) = current_process s"
    "online_cpu_count (finish (r, s)) = online_cpu_count s" by auto
qed

lemma round_ok:
  assumes i: "sinv {} s w Q" and rep: "rep s Q" and w: "w c = None" and c: "c < online_cpu_count s" and q: "Q c 0 \<noteq> []"
  obtains r s' Q' zs where "schedule c s = Some r" "s' = finish r" "rep s' Q'" "sinv {} s' w Q'" "c < online_cpu_count s'"
    "current_process s' c = hd (Q c 0)" "Q' c 0 = tl (Q c 0) @ zs"
proof -
  have x: "sinv {c} s w Q" by (rule inv_weaken[OF i]) simp
  have nq: "\<not> queued Q (current_process s c)" using inv_current_not_queued[OF i, of c] rep_null_not_queued[OF rep] by auto
  let ?Q = "requeued s c (qset Q c 0 (tl (Q c 0)))"
  obtain r s' where s': "schedule c s = Some (r, s')" "rep s' ?Q" "sinv {} s' (w(c := r)) ?Q"
      "current_process s' = (current_process s)(c := hd (Q c 0))" "online_cpu_count s' = online_cpu_count s"
    by (rule schedule_some[OF x rep w c nq best_level_0[of Q c, OF q]]) (rule that)
  have "\<exists>zs. ?Q c 0 = tl (Q c 0) @ zs" by (auto simp: requeued_def qset_def Let_def)
  then obtain zs where zs: "?Q c 0 = tl (Q c 0) @ zs" by blast
  note f = finish_ok[OF s'(3,2) w]
  show thesis by (rule that[OF s'(1) refl f(2,1) _ _ zs]) (use f s' c in auto)
qed

lemma rounds_reach:
  "sinv {} s w Q \<Longrightarrow> rep s Q \<Longrightarrow> w c = None \<Longrightarrow> c < online_cpu_count s \<Longrightarrow> Q c 0 = xs @ p # ys \<Longrightarrow>
     \<exists>s'. rounds (Suc (length xs)) c s = Some s' \<and> current_process s' c = p"
proof (induction xs arbitrary: s Q ys)
  case Nil
  obtain r s' Q' zs where "schedule c s = Some r" "s' = finish r" "current_process s' c = hd (Q c 0)"
    by (rule round_ok[OF Nil.prems(1-4)]) (use Nil.prems(5) that in auto)
  then show ?case using Nil.prems(5) by simp
next
  case (Cons x xs)
  obtain r s' Q' zs where s': "schedule c s = Some r" "s' = finish r" "rep s' Q'" "sinv {} s' w Q'" "c < online_cpu_count s'"
      "Q' c 0 = tl (Q c 0) @ zs"
    by (rule round_ok[OF Cons.prems(1-4)]) (use Cons.prems(5) that in auto)
  have "Q' c 0 = xs @ p # (ys @ zs)" using s'(6) Cons.prems(5) by simp
  from Cons.IH[OF s'(4,3) Cons.prems(3) s'(5) this] show ?case using s'(1,2) by simp
qed

section \<open>Properties\<close>




text \<open>
  C9. Dispatch is by level and then by order of arrival: when something is queued on a CPU, \<^verbatim>\<open>schedule\<close> runs the head of the
  queue of the first level that has one, takes it off that queue, and puts the process that was running at the end of the
  queue of its own level; no other queue changes.
\<close>

theorem schedule_by_level_and_order:
  assumes "sched_reachable s w" "w c = None" "c < online_cpu_count s" "rep s Q" "best_level Q c = Some l"
  shows "\<exists>r s'. schedule c s = Some (r, s') \<and> current_process s' c = hd (Q c l) \<and>
    pstate (procs s' (hd (Q c l))) = PROCESS_RUNNING \<and> rep s' (requeued s c (qset Q c l (tl (Q c l))))"
proof -
  obtain Q' where rep': "rep s Q'" and i': "sinv {} s w Q'" using reachable_ok[OF assms(1)] by (auto simp: sched_ok_def)
  have "Q' = Q" by (rule rep_fun[OF rep' assms(4)])
  then have i: "sinv {} s w Q" using i' by simp
  have x: "sinv {c} s w Q" by (rule inv_weaken[OF i]) simp
  have nq: "\<not> queued Q (current_process s c)" using inv_current_not_queued[OF i, of c] rep_null_not_queued[OF assms(4)] by auto
  show ?thesis by (rule schedule_some[OF x assms(4,2,3) nq assms(5)]) simp
qed

text \<open>
  C4. No process starves: whatever the level of a queued process, after the priority boost it runs after at most as many
  rounds on its CPU as processes were queued there, although every process that gives up the CPU queues again.
\<close>

theorem boost_prevents_starvation:
  assumes "sched_reachable s w" "w c = None" "c < online_cpu_count s" "rep s Q" "p \<in> set (Q c l)"
  shows "\<exists>s1 s2 n. scheduler_priority_boost s = Some s1 \<and> n \<le> rq_total s c \<and> rounds n c s1 = Some s2 \<and> current_process s2 c = p"
proof -
  obtain Q' where rep': "rep s Q'" and i': "sinv {} s w Q'" using reachable_ok[OF assms(1)] by (auto simp: sched_ok_def)
  have "Q' = Q" by (rule rep_fun[OF rep' assms(4)])
  then have i: "sinv {} s w Q" using i' by simp
  let ?B = "boosted Q {..<online_cpu_count s}"
  obtain s1 where s1: "scheduler_priority_boost s = Some s1" "rep s1 ?B" "sinv {} s1 w ?B" "online_cpu_count s1 = online_cpu_count s"
    by (rule boost_ok[OF i assms(4)])
  have B: "?B c 0 = Q c 0 @ Q c 1 @ Q c 2" using assms(3) by (simp add: boosted_def SCHED_NUM_LEVELS_def)
  have "l < 3" using inv_queued[OF i assms(5)] by (simp add: queued_ok_def SCHED_NUM_LEVELS_def)
  then have "l = 0 \<or> l = 1 \<or> l = 2" by linarith
  then have "p \<in> set (?B c 0)" using assms(5) B by auto
  then obtain xs ys where xs: "?B c 0 = xs @ p # ys" by (meson split_list)
  have total: "rq_total s c = length (?B c 0)"
    using rep_total[OF assms(4), of c] B by (simp add: SCHED_NUM_LEVELS_def numeral_3_eq_3 numeral_2_eq_2)
  have "c < online_cpu_count s1" using assms(3) s1(4) by simp
  from rounds_reach[OF s1(3,2) assms(2) this xs] obtain s2 where "rounds (Suc (length xs)) c s1 = Some s2" "current_process s2 c = p"
    by blast
  moreover have "Suc (length xs) \<le> rq_total s c" using total xs by simp
  ultimately show ?thesis using s1(1) by blast
qed



section \<open>Witnesses\<close>




theorem schedule_by_level_and_order_witness:
  "\<exists>r s'. schedule 1 (switch_to demo_9 12 13) = Some (r, s') \<and> current_process s' 1 = 12"
proof -
  have "best_level demo_Q 1 = Some 0" by (rule best_level_0) (simp add: demo_Q_def)
  then show ?thesis
    using schedule_by_level_and_order[OF demo_9_reachable(2) _ _ demo_9_rep, of 1 0] by (auto simp: demo_9_online demo_9_facts demo_Q_def)
qed

theorem boost_prevents_starvation_witness:
  "\<exists>s1 s2 n. scheduler_priority_boost (switch_to demo_9 12 13) = Some s1 \<and> rounds n 1 s1 = Some s2 \<and> current_process s2 1 = 12"
  using boost_prevents_starvation[OF demo_9_reachable(2) _ _ demo_9_rep, of 1 12 0] by (auto simp: demo_9_online demo_9_facts demo_Q_def)

end
