(* ===== verification/Spec2Isabelle.thy ===== *)
theory Spec2Isabelle
  imports Lzss_Roundtrip Pmm Allocator_Extra String_T Partition_Gpt Tcp_Conn Sched_Props
begin

text \<open>
  Minimal-OS.
\<close>

end
